(* ===== verification/Prelude.thy ===== *)
theory Prelude
  imports Main "HOL-Library.Word"
begin

text \<open>
  The ground every component stands on: C programs as state transformers that may fault,
  exit or not return, the weakest-precondition calculus the component proofs run on, and
  the pointer vocabulary.

  A run is a function from the state to an optional pair of a result and the final state:
  \<open>None\<close> is a run that does not return, \<open>Fault\<close> is undefined behaviour met on the way
  (the state is the one reached so far), \<open>Exit\<close> is a call of \<open>exit\<close>.
\<close>

section \<open>Results and programs\<close>

datatype fault =
    NullDeref     \<comment> \<open>a NULL pointer is dereferenced\<close>
  | BadPtr        \<comment> \<open>a pointer to freed or never allocated memory is dereferenced\<close>
  | OutOfBounds   \<comment> \<open>an array is accessed outside its bounds\<close>
  | DoubleFree    \<comment> \<open>memory that is not allocated is freed\<close>
  | DivByZero
  | Uninit        \<comment> \<open>an uninitialised local is read\<close>

datatype 'a res = Ret 'a | Fault fault | Exit int

type_synonym addr = nat
type_synonym ptr = "addr option"
type_synonym ('s, 'a) prog = "'s \<Rightarrow> ('a res \<times> 's) option"

abbreviation NULL :: ptr where
  "NULL \<equiv> None"

definition ret :: "'a \<Rightarrow> ('s, 'a) prog" where
  "ret a s = Some (Ret a, s)"

definition fault :: "fault \<Rightarrow> ('s, 'a) prog" where
  "fault e s = Some (Fault e, s)"

definition quit :: "int \<Rightarrow> ('s, 'a) prog" where
  "quit n s = Some (Exit n, s)"

definition bindP :: "('s, 'a) prog \<Rightarrow> ('a \<Rightarrow> ('s, 'b) prog) \<Rightarrow> ('s, 'b) prog" where
  "bindP m f s = Option.bind (m s) (\<lambda>(r, s').
     case r of Ret a \<Rightarrow> f a s' | Fault e \<Rightarrow> Some (Fault e, s') | Exit n \<Rightarrow> Some (Exit n, s'))"

definition seqP :: "('s, 'a) prog \<Rightarrow> ('s, 'b) prog \<Rightarrow> ('s, 'b) prog" where
  "seqP m k = bindP m (\<lambda>_. k)"

definition ifP :: "bool \<Rightarrow> ('s, 'a) prog \<Rightarrow> ('s, 'a) prog \<Rightarrow> ('s, 'a) prog" where
  "ifP b m k = (if b then m else k)"

definition whenP :: "bool \<Rightarrow> ('s, unit) prog \<Rightarrow> ('s, unit) prog" where
  "whenP b m = ifP b m (ret ())"

definition gets :: "('s \<Rightarrow> 'a) \<Rightarrow> ('s, 'a) prog" where
  "gets f s = Some (Ret (f s), s)"

definition modify :: "('s \<Rightarrow> 's) \<Rightarrow> ('s, unit) prog" where
  "modify f s = Some (Ret (), f s)"

text \<open>A counted \<open>for\<close> loop whose body is run once per list element, in order.\<close>

fun forP :: "'i list \<Rightarrow> ('i \<Rightarrow> ('s, unit) prog) \<Rightarrow> ('s, unit) prog" where
  "forP [] body = ret ()"
| "forP (i # is) body = seqP (body i) (forP is body)"

text \<open>A block of statements, run in order.\<close>

fun blockP :: "('s, unit) prog list \<Rightarrow> ('s, unit) prog" where
  "blockP [] = ret ()"
| "blockP (m # ms) = seqP m (blockP ms)"

named_theorems run_simps \<open>equations that execute a program on a state\<close>

lemma ret_run [run_simps]: "ret a s = Some (Ret a, s)"
  by (simp add: ret_def)

lemma fault_run [run_simps]: "fault e s = Some (Fault e, s)"
  by (simp add: fault_def)

lemma quit_run [run_simps]: "quit n s = Some (Exit n, s)"
  by (simp add: quit_def)

lemma bindP_run [run_simps]:
  "bindP m f s = (case m s of None \<Rightarrow> None | Some (Ret a, s') \<Rightarrow> f a s'
     | Some (Fault e, s') \<Rightarrow> Some (Fault e, s') | Some (Exit n, s') \<Rightarrow> Some (Exit n, s'))"
  by (auto simp: bindP_def split: option.splits res.splits)

lemma seqP_run [run_simps]: "seqP m k s = bindP m (\<lambda>_. k) s"
  by (simp add: seqP_def)

lemma ifP_run [run_simps]: "ifP b m k s = (if b then m s else k s)"
  by (simp add: ifP_def)

lemma whenP_run [run_simps]: "whenP b m s = (if b then m s else Some (Ret (), s))"
  by (simp add: whenP_def ifP_def ret_def)

lemma gets_run [run_simps]: "gets f s = Some (Ret (f s), s)"
  by (simp add: gets_def)

lemma modify_run [run_simps]: "modify f s = Some (Ret (), f s)"
  by (simp add: modify_def)

text \<open>Loops are partial functions into \<open>option\<close>; these rules prove their bodies monotone.\<close>

lemma bindP_mono [partial_function_mono]:
  assumes "\<And>s. mono_option (\<lambda>f. m f s)" and "\<And>a s. mono_option (\<lambda>f. k f a s)"
  shows "mono_option (\<lambda>f. bindP (m f) (\<lambda>a. k f a) s)"
proof -
  have "mono_option (\<lambda>f. case y of (r, s') \<Rightarrow> (case r of Ret a \<Rightarrow> k f a s'
      | Fault e \<Rightarrow> Some (Fault e, s') | Exit n \<Rightarrow> Some (Exit n, s')))" for y
    using assms(2) by (cases y; cases "fst y") (auto intro!: option.const_mono)
  then show ?thesis
    unfolding bindP_def by (rule bind_mono [OF assms(1)])
qed

lemma seqP_mono [partial_function_mono]:
  assumes "\<And>s. mono_option (\<lambda>f. m f s)" and "\<And>s. mono_option (\<lambda>f. k f s)"
  shows "mono_option (\<lambda>f. seqP (m f) (k f) s)"
  unfolding seqP_def by (rule bindP_mono [OF assms(1)]) (rule assms(2))

lemma ifP_mono [partial_function_mono]:
  assumes "\<And>s. mono_option (\<lambda>f. m f s)" and "\<And>s. mono_option (\<lambda>f. k f s)"
  shows "mono_option (\<lambda>f. ifP b (m f) (k f) s)"
  unfolding ifP_def using assms by (cases b) simp_all

section \<open>Weakest preconditions\<close>

text \<open>
  \<open>wp m Q s\<close>: run from \<open>s\<close>, the program \<open>m\<close> returns normally (no fault, no exit, no
  divergence) and \<open>Q\<close> holds of what it returns and of the final state. It is total
  correctness, so a component lemma of this shape is also a termination lemma.
\<close>

definition wp :: "('s, 'a) prog \<Rightarrow> ('a \<Rightarrow> 's \<Rightarrow> bool) \<Rightarrow> 's \<Rightarrow> bool" where
  "wp m Q s \<longleftrightarrow> (case m s of Some (Ret a, s') \<Rightarrow> Q a s' | _ \<Rightarrow> False)"

named_theorems wp_simps \<open>rewrite rules for the weakest precondition of a program\<close>

lemma wp_ret [wp_simps]: "wp (ret a) Q s = Q a s"
  by (simp add: wp_def ret_def)

lemma wp_fault [wp_simps]: "wp (fault e) Q s = False"
  by (simp add: wp_def fault_def)

lemma wp_quit [wp_simps]: "wp (quit n) Q s = False"
  by (simp add: wp_def quit_def)

lemma wp_gets [wp_simps]: "wp (gets f) Q s = Q (f s) s"
  by (simp add: wp_def gets_def)

lemma wp_modify [wp_simps]: "wp (modify f) Q s = Q () (f s)"
  by (simp add: wp_def modify_def)

lemma wp_bindP [wp_simps]: "wp (bindP m f) Q s = wp m (\<lambda>a. wp (f a) Q) s"
  by (simp add: wp_def bindP_def split: option.splits prod.splits res.splits)

lemma wp_seqP [wp_simps]: "wp (seqP m k) Q s = wp m (\<lambda>_. wp k Q) s"
  by (simp add: seqP_def wp_bindP)

lemma wp_ifP [wp_simps]: "wp (ifP b m k) Q s = (if b then wp m Q s else wp k Q s)"
  by (simp add: ifP_def)

lemma wp_if [wp_simps]: "wp (if b then m else k) Q s = (if b then wp m Q s else wp k Q s)"
  by simp

lemma wp_whenP [wp_simps]: "wp (whenP b m) Q s = (if b then wp m Q s else Q () s)"
  by (simp add: whenP_def wp_ifP wp_ret)

lemma wp_blockP [wp_simps]:
  "wp (blockP []) Q s = Q () s"
  "wp (blockP (m # ms)) Q s = wp m (\<lambda>_. wp (blockP ms) Q) s"
  by (simp_all add: wp_ret wp_seqP)

text \<open>The same rules without the state, for programs under a binder.\<close>

lemma wp_ret': "(\<lambda>_ :: unit. wp (ret ()) Q) = Q"
  by (simp add: fun_eq_iff wp_ret)

lemma wp_bindP': "wp (bindP m f) Q = wp m (\<lambda>a. wp (f a) Q)"
  by (rule ext) (rule wp_bindP)

lemma wp_seqP': "wp (seqP m k) Q = wp m (\<lambda>_. wp k Q)"
  by (rule ext) (rule wp_seqP)

lemma wp_mono: "wp m P s \<Longrightarrow> (\<And>a s'. P a s' \<Longrightarrow> Q a s') \<Longrightarrow> wp m Q s"
  by (auto simp: wp_def split: option.splits prod.splits res.splits)

lemma wp_conj: "wp m P s \<Longrightarrow> wp m Q s \<Longrightarrow> wp m (\<lambda>a s'. P a s' \<and> Q a s') s"
  by (auto simp: wp_def split: option.splits prod.splits res.splits)

lemma wpI: "m s = Some (Ret a, s') \<Longrightarrow> Q a s' \<Longrightarrow> wp m Q s"
  by (simp add: wp_def)

lemma wpE:
  assumes "wp m Q s"
  obtains a s' where "m s = Some (Ret a, s')" and "Q a s'"
  using assms by (auto simp: wp_def split: option.splits prod.splits res.splits)

lemma wp_iff: "wp m Q s \<longleftrightarrow> (\<exists>a s'. m s = Some (Ret a, s') \<and> Q a s')"
  by (auto simp: wp_def split: option.splits prod.splits res.splits)

text \<open>Running on: a program whose first part returns.\<close>

lemma run_bind: "wp m P s \<Longrightarrow> (\<And>a s'. P a s' \<Longrightarrow> R (f a s')) \<Longrightarrow> R (bindP m f s)"
  by (auto simp: wp_iff bindP_run)

lemma run_seq: "wp m (\<lambda>_. P) s \<Longrightarrow> (\<And>s'. P s' \<Longrightarrow> R (k s')) \<Longrightarrow> R (seqP m k s)"
  by (auto simp: wp_iff run_simps)

text \<open>A \<open>for\<close> loop keeps what each turn of its body keeps.\<close>

lemma wp_forP:
  assumes "\<And>i s. i \<in> set is \<Longrightarrow> I s \<Longrightarrow> wp (body i) (\<lambda>_. I) s"
  shows "I s \<Longrightarrow> wp (forP is body) (\<lambda>_. I) s"
  using assms
proof (induction "is" arbitrary: s)
  case Nil
  then show ?case by (simp add: wp_simps)
next
  case (Cons i "is")
  have body: "wp (body i) (\<lambda>_. I) s" using Cons.prems by simp
  have rest: "wp (forP is body) (\<lambda>_. I) s'" if "I s'" for s'
    using Cons.IH [OF that] Cons.prems(2) by simp
  show ?case
    using wp_mono [OF body] rest by (simp add: wp_simps)
qed

section \<open>C strings\<close>

text \<open>
  A buffer is a list of characters (bytes); a C string in it ends at the first NUL.
\<close>

abbreviation NUL :: char where
  "NUL \<equiv> CHR 0x00"

definition c_str :: "string \<Rightarrow> string" where
  "c_str buf = takeWhile (\<lambda>c. c \<noteq> NUL) buf"

definition CRLF :: string where
  "CRLF = [CHR 0x0D, CHR 0x0A]"

text \<open>\<open>write_at buf i xs\<close> stores the bytes \<open>xs\<close> from index \<open>i\<close> on.\<close>

definition write_at :: "string \<Rightarrow> nat \<Rightarrow> string \<Rightarrow> string" where
  "write_at buf i xs = take i buf @ xs @ drop (i + length xs) buf"

lemma length_write_at [simp]:
  "i + length xs \<le> length buf \<Longrightarrow> length (write_at buf i xs) = length buf"
  by (simp add: write_at_def)

text \<open>Decimal conversion, as \<open>printf\<close>'s \<open>%d\<close> writes it.\<close>

fun show_nat :: "nat \<Rightarrow> string" where
  "show_nat n = (if n < 10 then [char_of (48 + n)] else show_nat (n div 10) @ [char_of (48 + n mod 10)])"

declare show_nat.simps [simp del]

definition show_int :: "int \<Rightarrow> string" where
  "show_int i = (if i < 0 then CHR ''-'' # show_nat (nat (- i)) else show_nat (nat i))"

end
