(* ===== verification/DmTimer.thy ===== *)
theory DmTimer
  imports Prelude "HOL-Library.Multiset"
begin

text \<open>
  The timer list of \<open>moudles/server/dm_timer.c\<close>: an intrusive singly linked list threaded
  through the \<open>timer_event\<close> fields of the connection objects, with the global \<open>heap\<close> as
  its first element. The pointer operations are translated statement by statement over a
  store of timers; a second layer works on the list of linked timers, and the refinement
  lemmas show that the pointer code computes exactly that list function, returns, and meets
  no undefined behaviour as long as the chain is acyclic.

  The address of a connection's \<open>timer_event\<close> stands for the address of the connection:
  \<open>container_of\<close> is a bijection between the two.
\<close>

section \<open>State\<close>

text \<open>\<open>struct Timer\<close>; the callback is a code pointer.\<close>

record Timer =
  expire :: int
  callback :: nat
  nxt :: ptr

record timers =
  heap :: ptr
  tmem :: "addr \<Rightarrow> Timer option"

section \<open>Pointer access\<close>

definition tget :: "ptr \<Rightarrow> ('a timers_scheme, Timer) prog" where
  "tget p s = (case p of None \<Rightarrow> fault NullDeref s
     | Some a \<Rightarrow> (case tmem s a of None \<Rightarrow> fault BadPtr s | Some t \<Rightarrow> ret t s))"

definition tput :: "ptr \<Rightarrow> (Timer \<Rightarrow> Timer) \<Rightarrow> ('a timers_scheme, unit) prog" where
  "tput p f s = (case p of None \<Rightarrow> fault NullDeref s
     | Some a \<Rightarrow> (case tmem s a of None \<Rightarrow> fault BadPtr s
         | Some t \<Rightarrow> ret () (s\<lparr>tmem := (tmem s)(a := Some (f t))\<rparr>)))"

definition set_heap :: "ptr \<Rightarrow> ('a timers_scheme, unit) prog" where
  "set_heap p = modify (\<lambda>s. s\<lparr>heap := p\<rparr>)"

section \<open>Operations\<close>

text \<open>\<open>heapify\<close>: one pass that moves every timer that expires before its predecessor to the front.\<close>

partial_function (option) heapify_loop ::
  "ptr \<Rightarrow> ptr \<Rightarrow> 'a timers_scheme \<Rightarrow> (unit res \<times> 'a timers_scheme) option" where
  "heapify_loop parent current s =
     (if current = NULL then ret () s
      else bindP (tget current) (\<lambda>c. bindP (tget parent) (\<lambda>p.
        ifP (expire c < expire p)
          (seqP (tput parent (\<lambda>t. t\<lparr>nxt := nxt c\<rparr>))
            (bindP (tget parent) (\<lambda>p'. bindP (gets heap) (\<lambda>h.
              seqP (tput current (\<lambda>t. t\<lparr>nxt := h\<rparr>))
                (seqP (set_heap current) (heapify_loop parent (nxt p')))))))
          (heapify_loop current (nxt c)))) s)"

definition heapify :: "('a timers_scheme, unit) prog" where
  "heapify = bindP (gets heap) (\<lambda>h. bindP (tget h) (\<lambda>t. heapify_loop h (nxt t)))"

partial_function (option) delete_loop ::
  "ptr \<Rightarrow> ptr \<Rightarrow> ptr \<Rightarrow> 'a timers_scheme \<Rightarrow> ((ptr \<times> ptr) res \<times> 'a timers_scheme) option" where
  "delete_loop target parent current s =
     (if current \<noteq> NULL \<and> current \<noteq> target
      then bindP (tget current) (\<lambda>c. delete_loop target current (nxt c)) s
      else ret (parent, current) s)"

definition deleteTimer :: "ptr \<Rightarrow> ('a timers_scheme, unit) prog" where
  "deleteTimer target = bindP (gets heap) (\<lambda>h.
     if h = NULL \<or> target = NULL then ret ()
     else bindP (tget h) (\<lambda>t.
       if h = target then set_heap (nxt t)
       else bindP (delete_loop target h (nxt t)) (\<lambda>(parent, current).
         if current = NULL then ret ()
         else bindP (tget current) (\<lambda>c.
           seqP (tput parent (\<lambda>t. t\<lparr>nxt := nxt c\<rparr>)) heapify))))"

partial_function (option) last_loop ::
  "ptr \<Rightarrow> 'a timers_scheme \<Rightarrow> (ptr res \<times> 'a timers_scheme) option" where
  "last_loop temp s = bindP (tget temp) (\<lambda>t.
     ifP (nxt t \<noteq> NULL) (last_loop (nxt t)) (ret temp)) s"

text \<open>\<open>now\<close> is what \<open>time(NULL)\<close> answers inside the call.\<close>

definition addTimer :: "int \<Rightarrow> ptr \<Rightarrow> int \<Rightarrow> nat \<Rightarrow> ('a timers_scheme, unit) prog" where
  "addTimer now newTimer expire' callback' =
     seqP (tput newTimer (\<lambda>t. t\<lparr>callback := callback'\<rparr>))
    (seqP (tput newTimer (\<lambda>t. t\<lparr>expire := now + expire'\<rparr>))
    (seqP (tput newTimer (\<lambda>t. t\<lparr>nxt := NULL\<rparr>))
    (seqP (bindP (gets heap) (\<lambda>h.
        if h = NULL then set_heap newTimer
        else bindP (last_loop h) (\<lambda>temp. tput temp (\<lambda>t. t\<lparr>nxt := newTimer\<rparr>))))
      heapify)))"

text \<open>
  \<open>executeTimers\<close>: unlink and call while the first timer is due. \<open>run\<close> is what calling a
  callback does; the code reads the callback through \<open>container_of\<close>, the same object.
\<close>

partial_function (option) execute_loop ::
  "(nat \<Rightarrow> ('a timers_scheme, unit) prog) \<Rightarrow> int \<Rightarrow> 'a timers_scheme
     \<Rightarrow> (unit res \<times> 'a timers_scheme) option" where
  "execute_loop run now s = bindP (gets heap) (\<lambda>h.
     ifP (h = NULL) (ret ())
       (bindP (tget h) (\<lambda>t.
         ifP (expire t \<le> now)
           (seqP (set_heap (nxt t))
             (bindP (tget h) (\<lambda>r. seqP (run (callback r)) (execute_loop run now))))
           (ret ())))) s"

definition executeTimers ::
  "(nat \<Rightarrow> ('a timers_scheme, unit) prog) \<Rightarrow> int \<Rightarrow> ('a timers_scheme, unit) prog" where
  "executeTimers run now = execute_loop run now"

section \<open>Executing the accessors\<close>

lemma wp_tget [wp_simps]:
  "wp (tget p) Q s = (\<exists>a t. p = Some a \<and> tmem s a = Some t \<and> Q t s)"
  by (auto simp: wp_def tget_def run_simps split: option.splits)

lemma wp_tput [wp_simps]:
  "wp (tput p f) Q s = (\<exists>a t. p = Some a \<and> tmem s a = Some t \<and>
     Q () (s\<lparr>tmem := (tmem s)(a := Some (f t))\<rparr>))"
  by (auto simp: wp_def tput_def run_simps split: option.splits)

lemma wp_set_heap [wp_simps]: "wp (set_heap p) Q s = Q () (s\<lparr>heap := p\<rparr>)"
  by (simp add: set_heap_def wp_simps)

section \<open>Chains of timers in the store\<close>

primrec linked :: "(addr \<Rightarrow> Timer option) \<Rightarrow> ptr \<Rightarrow> addr list \<Rightarrow> ptr \<Rightarrow> bool" where
  "linked m p [] q \<longleftrightarrow> p = q"
| "linked m p (a # as) q \<longleftrightarrow> p = Some a \<and> (\<exists>t. m a = Some t \<and> linked m (nxt t) as q)"

lemma linked_append [simp]:
  "linked m p (as @ bs) q \<longleftrightarrow> (\<exists>r. linked m p as r \<and> linked m r bs q)"
  by (induction as arbitrary: p) auto

lemma linked_update [simp]: "a \<notin> set as \<Longrightarrow> linked (m(a := t)) p as q = linked m p as q"
  by (induction as arbitrary: p) auto

lemma linked_update_Some [simp]:
  "a \<notin> set as \<Longrightarrow> linked (\<lambda>x. if x = a then t else m x) p as q = linked m p as q"
  by (induction as arbitrary: p) auto

lemma linked_alloc: "linked m p as q \<Longrightarrow> a \<in> set as \<Longrightarrow> \<exists>t. m a = Some t"
  by (induction as arbitrary: p) auto

lemma linked_NULL [simp]: "linked m NULL as q \<longleftrightarrow> as = [] \<and> q = NULL"
  by (cases as) auto

text \<open>\<open>timer_list s as\<close>: the global list is acyclic and links exactly the timers \<open>as\<close>, in order.\<close>

definition timer_list :: "'a timers_scheme \<Rightarrow> addr list \<Rightarrow> bool" where
  "timer_list s as \<longleftrightarrow> linked (tmem s) (heap s) as NULL \<and> distinct as"

definition expire_of :: "'a timers_scheme \<Rightarrow> addr \<Rightarrow> int" where
  "expire_of s a = expire (the (tmem s a))"

text \<open>\<open>relinked s s'\<close>: at most links changed; no timer was created, freed or rescheduled.\<close>

definition relinked :: "'a timers_scheme \<Rightarrow> 'a timers_scheme \<Rightarrow> bool" where
  "relinked s s' \<longleftrightarrow> timers.more s' = timers.more s \<and>
     (\<forall>a. map_option (nxt_update (\<lambda>_. NULL)) (tmem s' a) = map_option (nxt_update (\<lambda>_. NULL)) (tmem s a))"

lemma relinked_refl [simp]: "relinked s s"
  by (simp add: relinked_def)

lemma relinked_trans: "relinked s s' \<Longrightarrow> relinked s' s'' \<Longrightarrow> relinked s s''"
  by (simp add: relinked_def)

lemma relinked_set_heap [simp]: "relinked s (s'\<lparr>heap := p\<rparr>) = relinked s s'"
  by (simp add: relinked_def)

lemma nxt_erase: "t\<lparr>nxt := q, nxt := NULL\<rparr> = t\<lparr>nxt := NULL\<rparr>"
  by simp

lemma relinked_put:
  "tmem s' a = Some t \<Longrightarrow> relinked s s' \<Longrightarrow> relinked s (s'\<lparr>tmem := (tmem s')(a := Some (t\<lparr>nxt := q\<rparr>))\<rparr>)"
  unfolding relinked_def by (auto dest: spec [where x = a])

lemma relinked_more: "relinked s s' \<Longrightarrow> timers.more s' = timers.more s"
  by (simp add: relinked_def)

lemma relinked_expire: "relinked s s' \<Longrightarrow> expire_of s' = expire_of s"
proof (rule ext)
  fix a
  assume "relinked s s'"
  then have "map_option (nxt_update (\<lambda>_. NULL)) (tmem s' a) = map_option (nxt_update (\<lambda>_. NULL)) (tmem s a)"
    by (simp add: relinked_def)
  then show "expire_of s' a = expire_of s a"
    by (cases "tmem s a"; cases "tmem s' a") (auto simp: expire_of_def dest: arg_cong [where f = expire])
qed

lemma relinked_callback:
  assumes "relinked s s'" "tmem s a = Some t"
  obtains t' where "tmem s' a = Some t'" "callback t' = callback t" "expire t' = expire t"
proof -
  from assms have "map_option (nxt_update (\<lambda>_. NULL)) (tmem s' a) = Some (nxt_update (\<lambda>_. NULL) t)"
    by (simp add: relinked_def)
  then obtain t' where "tmem s' a = Some t'" and "nxt_update (\<lambda>_. NULL) t' = nxt_update (\<lambda>_. NULL) t"
    by auto
  then show ?thesis
    using that by (metis Timer.select_convs(1,2) Timer.surjective Timer.update_convs(3))
qed

section \<open>The list algorithm\<close>

text \<open>
  \<open>kept e p cs\<close> are the timers of \<open>cs\<close> that stay in place when the pass starts with parent \<open>p\<close>
  (each expires no earlier than the one kept before it), \<open>moved e p cs\<close> those moved to the front.
\<close>

fun kept :: "('k \<Rightarrow> int) \<Rightarrow> 'k \<Rightarrow> 'k list \<Rightarrow> 'k list" where
  "kept e p [] = []"
| "kept e p (c # cs) = (if e c < e p then kept e p cs else c # kept e c cs)"

fun moved :: "('k \<Rightarrow> int) \<Rightarrow> 'k \<Rightarrow> 'k list \<Rightarrow> 'k list" where
  "moved e p [] = []"
| "moved e p (c # cs) = (if e c < e p then c # moved e p cs else moved e c cs)"

fun heapify_list :: "('k \<Rightarrow> int) \<Rightarrow> 'k list \<Rightarrow> 'k list" where
  "heapify_list e [] = []"
| "heapify_list e (p # cs) = rev (moved e p cs) @ p # kept e p cs"

lemma mset_kept_moved: "mset (kept e p cs) + mset (moved e p cs) = mset cs"
  by (induction cs arbitrary: p) auto

lemma mset_heapify_list [simp]: "mset (heapify_list e as) = mset as"
  by (cases as) (simp_all add: mset_kept_moved add.commute)

lemma set_heapify_list [simp]: "set (heapify_list e as) = set as"
  using mset_heapify_list [of e as] by (metis set_mset_mset)

lemma distinct_heapify_list [simp]: "distinct (heapify_list e as) = distinct as"
  using mset_heapify_list [of e as] by (metis mset_eq_imp_distinct_iff)

lemma sorted_kept: "sorted_wrt (\<lambda>x y. e x \<le> e y) (p # kept e p cs)"
proof (induction cs arbitrary: p)
  case Nil
  then show ?case by simp
next
  case (Cons c cs)
  show ?case
  proof (cases "e c < e p")
    case True
    then show ?thesis using Cons.IH [of p] by simp
  next
    case False
    then show ?thesis using Cons.IH [of c] by fastforce
  qed
qed

lemma kept_sorted: "sorted_wrt (\<lambda>x y. e x \<le> e y) (p # cs) \<Longrightarrow> kept e p cs = cs \<and> moved e p cs = []"
  by (induction cs arbitrary: p) auto

lemma moved_below: "x \<in> set (moved e p cs) \<Longrightarrow> e x < e (last (p # kept e p cs))"
proof (induction cs arbitrary: p)
  case Nil
  then show ?case by simp
next
  case (Cons c cs)
  show ?case
  proof (cases "e c < e p")
    case True
    have "e p \<le> e (last (p # kept e p cs))"
      using sorted_kept [of e p cs] by (cases "kept e p cs" rule: rev_cases) auto
    with Cons.IH [of p] Cons.prems True show ?thesis by (auto split: if_splits)
  next
    case False
    with Cons.IH [of c] Cons.prems show ?thesis by simp
  qed
qed

section \<open>The pointer code computes the list algorithm\<close>

lemma heapify_loop_unfold:
  "wp (heapify_loop parent current) Q s = wp (if current = NULL then ret ()
      else bindP (tget current) (\<lambda>c. bindP (tget parent) (\<lambda>p.
        ifP (expire c < expire p)
          (seqP (tput parent (\<lambda>t. t\<lparr>nxt := nxt c\<rparr>))
            (bindP (tget parent) (\<lambda>p'. bindP (gets heap) (\<lambda>h.
              seqP (tput current (\<lambda>t. t\<lparr>nxt := h\<rparr>))
                (seqP (set_heap current) (heapify_loop parent (nxt p')))))))
          (heapify_loop current (nxt c))))) Q s"
  by (simp add: wp_def heapify_loop.simps [of parent current])

lemma heapify_loop_spec:
  assumes "linked (tmem s) (heap s) (as @ p # cs) NULL" and "distinct (as @ p # cs)"
    and "tmem s p = Some tp" and "relinked s0 s"
  shows "wp (heapify_loop (Some p) (nxt tp)) (\<lambda>_ s'. relinked s0 s' \<and>
     timer_list s' (rev (moved (expire_of s0) p cs) @ as @ p # kept (expire_of s0) p cs)) s"
  using assms
proof (induction cs arbitrary: as p tp s)
  case Nil
  then show ?case
    by (subst heapify_loop_unfold) (auto simp: wp_simps timer_list_def)
next
  case (Cons c cs)
  from Cons.prems obtain tc where tc: "tmem s c = Some tc" "nxt tp = Some c"
    and cs: "linked (tmem s) (nxt tc) cs NULL"
    by auto
  have e: "expire_of s0 c = expire tc" "expire_of s0 p = expire tp"
    using fun_cong [OF relinked_expire [OF Cons.prems(4)]] tc Cons.prems(3)
    by (metis expire_of_def option.sel)+
  show ?case
  proof (cases "expire tc < expire tp")
    case True
    let ?m = "(tmem s)(p := Some (tp\<lparr>nxt := nxt tc\<rparr>))"
    let ?s = "s\<lparr>tmem := ?m(c := Some (tc\<lparr>nxt := heap s\<rparr>)), heap := Some c\<rparr>"
    have "relinked s0 (s\<lparr>tmem := ?m\<rparr>)"
      using relinked_put Cons.prems(3,4) by blast
    then have "relinked s0 ?s"
      using relinked_put [of "s\<lparr>tmem := ?m\<rparr>" c tc s0 "heap s"] tc Cons.prems(2) by auto
    moreover have "linked (tmem ?s) (heap ?s) ((c # as) @ p # cs) NULL"
      using Cons.prems tc cs by auto
    ultimately show ?thesis
      using Cons.IH [of ?s "c # as" p "tp\<lparr>nxt := nxt tc\<rparr>"] Cons.prems tc True e
      by (subst heapify_loop_unfold) (auto simp: wp_simps)
  next
    case False
    then show ?thesis
      using Cons.IH [of s "as @ [p]" c tc] Cons.prems tc e
      by (subst heapify_loop_unfold) (auto simp: wp_simps)
  qed
qed

lemma heapify_spec:
  assumes "timer_list s as" and "as \<noteq> []"
  shows "wp heapify (\<lambda>_ s'. relinked s s' \<and> timer_list s' (heapify_list (expire_of s) as)) s"
proof (cases as)
  case (Cons p cs)
  with assms obtain tp where "heap s = Some p" "tmem s p = Some tp"
    by (auto simp: timer_list_def)
  then show ?thesis
    using heapify_loop_spec [of s "[]" p cs tp s] assms Cons
    by (auto simp: heapify_def wp_simps timer_list_def)
qed (use assms in simp)

text \<open>\<open>deleteTimer\<close>: unlinking the first timer does not run \<open>heapify\<close>, unlinking another one does.\<close>

definition delete_list :: "('k \<Rightarrow> int) \<Rightarrow> 'k \<Rightarrow> 'k list \<Rightarrow> 'k list" where
  "delete_list e x as = (if as \<noteq> [] \<and> hd as \<noteq> x \<and> x \<in> set as
     then heapify_list e (remove1 x as) else remove1 x as)"

lemma mset_delete_list [simp]: "mset (delete_list e x as) = mset as - {#x#}"
  by (simp add: delete_list_def)

lemma delete_loop_unfold:
  "wp (delete_loop target parent current) Q s =
     wp (if current \<noteq> NULL \<and> current \<noteq> target
         then bindP (tget current) (\<lambda>c. delete_loop target current (nxt c))
         else ret (parent, current)) Q s"
  by (simp add: wp_def delete_loop.simps [of target parent current])

lemma delete_loop_found:
  assumes "linked (tmem s) current (as @ [x]) q" and "x \<notin> set as"
  shows "wp (delete_loop (Some x) (Some p) current)
     (\<lambda>r s'. s' = s \<and> r = (Some (last (p # as)), Some x)) s"
  using assms
proof (induction as arbitrary: p current)
  case Nil
  then show ?case by (subst delete_loop_unfold) (auto simp: wp_simps)
next
  case (Cons a as)
  then obtain t where "tmem s a = Some t" and "current = Some a"
    and "linked (tmem s) (nxt t) (as @ [x]) q"
    by auto
  with Cons.IH [of "nxt t" a] Cons.prems show ?case
    by (subst delete_loop_unfold) (auto simp: wp_simps)
qed

lemma delete_loop_absent:
  assumes "linked (tmem s) current as NULL" and "x \<notin> set as"
  shows "wp (delete_loop (Some x) parent current) (\<lambda>r s'. s' = s \<and> snd r = NULL) s"
  using assms
proof (induction as arbitrary: parent current)
  case Nil
  then show ?case by (subst delete_loop_unfold) (auto simp: wp_simps)
next
  case (Cons a as)
  then obtain t where "tmem s a = Some t" and "current = Some a"
    and "linked (tmem s) (nxt t) as NULL"
    by auto
  with Cons.IH [of "nxt t" "Some a"] Cons.prems show ?case
    by (subst delete_loop_unfold) (auto simp: wp_simps)
qed

lemma deleteTimer_absent:
  assumes "timer_list s as" and "x \<notin> set as"
  shows "wp (deleteTimer (Some x)) (\<lambda>_ s'. s' = s) s"
proof (cases as)
  case Nil
  then show ?thesis using assms by (auto simp: deleteTimer_def wp_simps timer_list_def)
next
  case (Cons h hs)
  with assms obtain t where t: "heap s = Some h" "tmem s h = Some t" "linked (tmem s) (nxt t) hs NULL"
    by (auto simp: timer_list_def)
  have "wp (delete_loop (Some x) (Some h) (nxt t)) (\<lambda>r s'. s' = s \<and> snd r = NULL) s"
    using delete_loop_absent [OF t(3), of x] assms(2) Cons by simp
  then show ?thesis
    using t assms(2) Cons
    by (auto simp: deleteTimer_def wp_simps elim!: wp_mono)
qed

lemma deleteTimer_head:
  assumes "timer_list s (x # as)"
  shows "wp (deleteTimer (Some x)) (\<lambda>_ s'. relinked s s' \<and> timer_list s' as) s"
  using assms by (auto simp: deleteTimer_def wp_simps timer_list_def)

lemma timer_list_unlink:
  assumes "timer_list s (bs @ p # x # ds)" and "tmem s p = Some tp" and "tmem s x = Some tx"
  shows "timer_list (s\<lparr>tmem := (tmem s)(p := Some (tp\<lparr>nxt := nxt tx\<rparr>))\<rparr>) (bs @ p # ds)"
  using assms by (auto simp: timer_list_def)

lemma deleteTimer_inner:
  assumes "timer_list s (h # bs @ x # ds)"
  shows "wp (deleteTimer (Some x)) (\<lambda>_ s'. relinked s s' \<and>
     timer_list s' (heapify_list (expire_of s) (h # bs @ ds))) s"
proof -
  let ?p = "last (h # bs)"
  have split: "h # bs @ x # ds = butlast (h # bs) @ ?p # x # ds"
    using append_butlast_last_id [of "h # bs"] by simp
  from assms obtain th where th: "heap s = Some h" "tmem s h = Some th"
    "linked (tmem s) (nxt th) ((bs @ [x]) @ ds) NULL" and neq: "x \<notin> set (h # bs)"
    by (auto simp: timer_list_def)
  then obtain q where q: "linked (tmem s) (nxt th) (bs @ [x]) q"
    by (auto simp del: append_assoc)
  have loop: "wp (delete_loop (Some x) (Some h) (nxt th))
      (\<lambda>r s'. s' = s \<and> r = (Some ?p, Some x)) s"
    using delete_loop_found [OF q] neq by auto
  obtain tp tx where tp: "tmem s ?p = Some tp" "tmem s x = Some tx"
    using assms linked_alloc [of "tmem s" "heap s" "h # bs @ x # ds" NULL]
    unfolding timer_list_def by (metis (no_types, lifting) in_set_conv_decomp last_in_set list.distinct(1) append_Cons Un_iff set_append)
  let ?s = "s\<lparr>tmem := (tmem s)(?p := Some (tp\<lparr>nxt := nxt tx\<rparr>))\<rparr>"
  have rel: "relinked s ?s" using relinked_put [OF tp(1)] by simp
  have "timer_list ?s (butlast (h # bs) @ ?p # ds)"
    using assms timer_list_unlink [OF _ tp] split by metis
  then have "timer_list ?s (h # bs @ ds)"
    using append_butlast_last_id [of "h # bs"] by (metis append.assoc append_Cons append_Nil list.distinct(1))
  then have "wp heapify (\<lambda>_ s'. relinked ?s s' \<and> timer_list s' (heapify_list (expire_of ?s) (h # bs @ ds))) ?s"
    by (rule heapify_spec) simp
  then have "wp heapify (\<lambda>_ s'. relinked s s' \<and> timer_list s' (heapify_list (expire_of s) (h # bs @ ds))) ?s"
    using relinked_trans [OF rel] by (auto simp only: relinked_expire [OF rel] elim!: wp_mono)
  then show ?thesis
    using th neq tp by (auto simp: deleteTimer_def wp_simps intro!: wp_mono [OF loop])
qed

lemma deleteTimer_spec:
  assumes "timer_list s as"
  shows "wp (deleteTimer (Some x)) (\<lambda>_ s'. relinked s s' \<and>
     timer_list s' (delete_list (expire_of s) x as)) s"
proof (cases "x \<in> set as")
  case False
  then show ?thesis
    using deleteTimer_absent [OF assms False] assms
    by (auto simp: delete_list_def remove1_idem elim!: wp_mono)
next
  case True
  then obtain bs ds where as: "as = bs @ x # ds" and "x \<notin> set bs"
    by (meson split_list_first)
  then show ?thesis
    using deleteTimer_head [of s x ds] deleteTimer_inner [of s "hd bs" "tl bs" x ds] assms
    by (cases bs) (auto simp: delete_list_def remove1_append)
qed

lemma last_loop_unfold:
  "wp (last_loop temp) Q s =
     wp (bindP (tget temp) (\<lambda>t. ifP (nxt t \<noteq> NULL) (last_loop (nxt t)) (ret temp))) Q s"
  by (simp add: wp_def last_loop.simps [of temp])

lemma last_loop_spec:
  assumes "linked (tmem s) p as NULL" and "as \<noteq> []"
  shows "wp (last_loop p) (\<lambda>r s'. s' = s \<and> r = Some (last as)) s"
  using assms
proof (induction as arbitrary: p)
  case Nil
  then show ?case by simp
next
  case (Cons a as)
  then obtain t where t: "p = Some a" "tmem s a = Some t" "linked (tmem s) (nxt t) as NULL" by auto
  then show ?case
    using Cons.IH [of "nxt t"] by (subst last_loop_unfold) (cases "as = []"; auto simp: wp_simps)
qed

text \<open>
  \<open>addTimer\<close> on a timer that is allocated and not linked: it becomes due at \<open>now + d\<close>, goes
  to the end, and one \<open>heapify\<close> pass follows.
\<close>

lemma timer_list_append:
  assumes "timer_list s (as @ [l])" and "tmem s l = Some tz" and "tmem s x = Some tx"
    and "nxt tx = NULL" and "x \<notin> set (as @ [l])"
  shows "timer_list (s\<lparr>tmem := (tmem s)(l := Some (tz\<lparr>nxt := Some x\<rparr>))\<rparr>) (as @ [l, x])"
  using assms by (auto simp: timer_list_def)

lemma addTimer_spec:
  assumes list: "timer_list s as" and alloc: "tmem s x = Some t0" and new: "x \<notin> set as"
  shows "wp (addTimer now (Some x) d cb) (\<lambda>_ s'.
     timers.more s' = timers.more s \<and> expire_of s' = (expire_of s)(x := now + d) \<and>
     timer_list s' (heapify_list (expire_of s') (as @ [x]))) s"
proof -
  let ?tx = "t0\<lparr>callback := cb, expire := now + d, nxt := NULL\<rparr>"
  let ?s1 = "s\<lparr>tmem := (tmem s)(x := Some ?tx)\<rparr>"
  have l1: "timer_list ?s1 as" using list new by (auto simp: timer_list_def)
  have e1: "expire_of ?s1 = (expire_of s)(x := now + d)" by (auto simp: expire_of_def)
  let ?Q = "\<lambda>s'. timers.more s' = timers.more s \<and> expire_of s' = (expire_of s)(x := now + d) \<and>
      timer_list s' (heapify_list (expire_of s') (as @ [x]))"
  have finish: "wp heapify (\<lambda>_. ?Q) s2"
    if s2: "timer_list s2 (as @ [x])" "relinked ?s1 s2" for s2
  proof (rule wp_mono [OF heapify_spec [OF s2(1)]])
    fix s'
    assume s': "relinked s2 s' \<and> timer_list s' (heapify_list (expire_of s2) (as @ [x]))"
    then have "relinked ?s1 s'" using relinked_trans [OF s2(2)] by blast
    from relinked_more [OF this] relinked_expire [OF this] e1 relinked_expire [OF s2(2)] s'
    show "?Q s'" by simp
  qed simp
  show ?thesis
  proof (cases "as = []")
    case True
    let ?s2 = "?s1\<lparr>heap := Some x\<rparr>"
    have "timer_list ?s2 (as @ [x])" using True by (simp add: timer_list_def)
    then have "wp heapify (\<lambda>_. ?Q) ?s2"
      by (rule finish) simp
    moreover have "heap s = NULL" using l1 True by (simp add: timer_list_def)
    ultimately show ?thesis using alloc by (simp add: addTimer_def wp_simps)
  next
    case False
    let ?l = "last as"
    from l1 False have heap: "heap s \<noteq> NULL" by (cases as) (auto simp: timer_list_def)
    have "wp (last_loop (heap ?s1)) (\<lambda>r s'. s' = ?s1 \<and> r = Some ?l) ?s1"
      using last_loop_spec False l1 unfolding timer_list_def by blast
    then have last: "wp (last_loop (heap s)) (\<lambda>r s'. s' = ?s1 \<and> r = Some ?l) ?s1"
      by simp
    from l1 False obtain tz where tz: "tmem ?s1 ?l = Some tz"
      using linked_alloc unfolding timer_list_def by (metis last_in_set)
    let ?s2 = "?s1\<lparr>tmem := (tmem ?s1)(?l := Some (tz\<lparr>nxt := Some x\<rparr>))\<rparr>"
    have eq: "butlast as @ [?l, x] = as @ [x]"
      using append_butlast_last_id [OF False] by (metis append.assoc append_Cons append_Nil)
    have "timer_list ?s2 (butlast as @ [?l, x])"
      using timer_list_append [of ?s1 "butlast as" ?l tz x ?tx] l1 tz new False by simp
    then have "timer_list ?s2 (as @ [x])"
      by (simp only: eq)
    moreover have "relinked ?s1 ?s2" using relinked_put [OF tz] by simp
    ultimately have "wp heapify (\<lambda>_. ?Q) ?s2"
      by (rule finish)
    then have "wp (last_loop (heap s)) (\<lambda>r. wp (tput r (\<lambda>t. t\<lparr>nxt := Some x\<rparr>)) (\<lambda>_. wp heapify (\<lambda>_. ?Q))) ?s1"
      using tz by (intro wp_mono [OF last]) (auto simp: wp_tput)
    then show ?thesis
      using alloc heap by (auto simp: addTimer_def wp_simps)
  qed
qed

text \<open>
  \<open>executeTimers\<close>, for callbacks that leave the timers themselves alone (\<open>eff\<close> is what each
  does to the rest of the state): exactly the due timers at the front of the list are
  unlinked, their callbacks run in list order, and the loop returns.
\<close>

definition silent :: "(nat \<Rightarrow> ('a timers_scheme, unit) prog) \<Rightarrow> (nat \<Rightarrow> 'a \<Rightarrow> 'a) \<Rightarrow> bool" where
  "silent run eff \<longleftrightarrow> (\<forall>cb s. run cb s = Some (Ret (), timers.more_update (eff cb) s))"

lemma wp_silent: "silent run eff \<Longrightarrow> wp (run cb) Q s = Q () (timers.more_update (eff cb) s)"
  by (simp add: silent_def wp_def)

lemma execute_loop_unfold:
  "wp (execute_loop run now) Q s = wp (bindP (gets heap) (\<lambda>h.
     ifP (h = NULL) (ret ())
       (bindP (tget h) (\<lambda>t.
         ifP (expire t \<le> now)
           (seqP (set_heap (nxt t))
             (bindP (tget h) (\<lambda>r. seqP (run (callback r)) (execute_loop run now))))
           (ret ()))))) Q s"
  by (simp add: wp_def execute_loop.simps [of run now s])

definition callback_of :: "'a timers_scheme \<Rightarrow> addr \<Rightarrow> nat" where
  "callback_of s a = callback (the (tmem s a))"

lemma execute_loop_spec:
  assumes "timer_list s as" and "silent run eff"
  shows "wp (execute_loop run now) (\<lambda>_ s'.
     timer_list s' (dropWhile (\<lambda>a. expire_of s a \<le> now) as) \<and> tmem s' = tmem s \<and>
     timers.more s' = fold eff (map (callback_of s) (takeWhile (\<lambda>a. expire_of s a \<le> now) as)) (timers.more s)) s"
  using assms(1)
proof (induction as arbitrary: s)
  case Nil
  then show ?case by (subst execute_loop_unfold) (auto simp: wp_simps timer_list_def)
next
  case (Cons a as)
  then obtain t where t: "heap s = Some a" "tmem s a = Some t" "linked (tmem s) (nxt t) as NULL"
    "a \<notin> set as" "distinct as"
    by (auto simp: timer_list_def)
  show ?case
  proof (cases "expire t \<le> now")
    case True
    let ?s = "timers.more_update (eff (callback t)) (s\<lparr>heap := nxt t\<rparr>)"
    have "timer_list ?s as" using t by (simp add: timer_list_def)
    from Cons.IH [OF this] show ?thesis
      using t True wp_silent [OF assms(2)]
      by (subst execute_loop_unfold)
        (simp add: wp_simps expire_of_def callback_of_def cong: map_cong takeWhile_cong dropWhile_cong)
  next
    case False
    then show ?thesis
      using t Cons.prems by (subst execute_loop_unfold) (auto simp: wp_simps expire_of_def)
  qed
qed

text \<open>
  A chain without an end: \<open>closed A s\<close> says that the head and every link of the timers \<open>A\<close>
  point into \<open>A\<close>. The pass never meets NULL there, so it does not return.
\<close>

definition closed :: "addr set \<Rightarrow> 'a timers_scheme \<Rightarrow> bool" where
  "closed A s \<longleftrightarrow> heap s \<in> Some ` A \<and> (\<forall>a\<in>A. \<exists>t. tmem s a = Some t \<and> nxt t \<in> Some ` A)"

lemma closed_relink:
  assumes "closed A s" and "p \<in> A" and "c \<in> A" and "tmem s p = Some tp" and "tmem s c = Some tc"
  shows "closed A (s\<lparr>tmem := (tmem s)(p := Some (tp\<lparr>nxt := nxt tc\<rparr>),
      c := Some ((if c = p then tp\<lparr>nxt := nxt tc\<rparr> else tc)\<lparr>nxt := heap s\<rparr>)), heap := Some c\<rparr>)"
  using assms by (auto simp: closed_def)

lemma heapify_loop_diverges:
  assumes "closed A s" and "p \<in> A" and "c \<in> A"
  shows "heapify_loop (Some p) (Some c) s = None"
proof (rule ccontr)
  assume "heapify_loop (Some p) (Some c) s \<noteq> None"
  then obtain r where ret: "heapify_loop (Some p) (Some c) s = Some r" by auto
  have "\<not> (closed A s \<and> Some p \<in> Some ` A \<and> Some c \<in> Some ` A)"
  proof (rule heapify_loop.raw_induct [where P = "\<lambda>p c s r. \<not> (closed A s \<and> p \<in> Some ` A \<and> c \<in> Some ` A)", OF _ ret])
    fix f :: "ptr \<Rightarrow> ptr \<Rightarrow> 'a timers_scheme \<Rightarrow> (unit res \<times> 'a timers_scheme) option" and parent current s r
    assume IH: "\<And>parent current s r. f parent current s = Some r \<Longrightarrow>
        \<not> (closed A s \<and> parent \<in> Some ` A \<and> current \<in> Some ` A)"
      and step: "(if current = NULL then ret () s
          else bindP (tget current) (\<lambda>c. bindP (tget parent) (\<lambda>p.
            ifP (expire c < expire p)
              (seqP (tput parent (\<lambda>t. t\<lparr>nxt := nxt c\<rparr>))
                (bindP (tget parent) (\<lambda>p'. bindP (gets heap) (\<lambda>h.
                  seqP (tput current (\<lambda>t. t\<lparr>nxt := h\<rparr>))
                    (seqP (set_heap current) (f parent (nxt p')))))))
              (f current (nxt c)))) s) = Some r"
    show "\<not> (closed A s \<and> parent \<in> Some ` A \<and> current \<in> Some ` A)"
    proof
      assume asm: "closed A s \<and> parent \<in> Some ` A \<and> current \<in> Some ` A"
      then obtain p c tp tc where pc: "parent = Some p" "current = Some c" "p \<in> A" "c \<in> A"
        "tmem s p = Some tp" "tmem s c = Some tc" "nxt tc \<in> Some ` A"
        by (auto simp: closed_def) metis
      have loop: "f current (nxt tc) s = None"
        using IH [of current "nxt tc" s] asm pc by (cases "f current (nxt tc) s") auto
      let ?s = "s\<lparr>tmem := (tmem s)(p := Some (tp\<lparr>nxt := nxt tc\<rparr>),
          c := Some ((if c = p then tp\<lparr>nxt := nxt tc\<rparr> else tc)\<lparr>nxt := heap s\<rparr>)), heap := Some c\<rparr>"
      have swap: "f parent (nxt tc) ?s = None"
        using IH [of parent "nxt tc" ?s] closed_relink [OF _ pc(3-6)] asm pc
        by (cases "f parent (nxt tc) ?s") auto
      show False
        using step pc loop swap
        by (auto simp: run_simps tget_def tput_def set_heap_def split: if_splits option.splits)
    qed
  qed
  then show False using assms by simp
qed

lemma last_loop_run:
  "linked (tmem s) p as NULL \<Longrightarrow> as \<noteq> [] \<Longrightarrow> last_loop p s = Some (Ret (Some (last as)), s)"
  using last_loop_spec [of s p as] by (auto simp: wp_iff)

section \<open>The contract the rest of the server relies on\<close>

text \<open>
  What \<open>handle_close\<close> needs of the timers: deleting returns, unlinks one timer and touches
  nothing but links. \<open>links s as\<close> is the abstraction, \<open>frame\<close> says what may change.
\<close>

locale timer_service =
  fixes links :: "'s \<Rightarrow> addr list \<Rightarrow> bool"
    and del :: "addr \<Rightarrow> ('s, unit) prog"
    and frame :: "'s \<Rightarrow> 's \<Rightarrow> bool"
  assumes frame_refl: "frame s s"
    and frame_trans: "frame s s' \<Longrightarrow> frame s' s'' \<Longrightarrow> frame s s''"
    and links_distinct: "links s as \<Longrightarrow> distinct as"
    and del_unlinks: "links s as \<Longrightarrow>
      wp (del x) (\<lambda>_ s'. frame s s' \<and> (\<exists>bs. links s' bs \<and> mset bs = mset as - {#x#})) s"
begin

lemma del_removes:
  "links s as \<Longrightarrow> wp (del x) (\<lambda>_ s'. frame s s' \<and> (\<exists>bs. links s' bs \<and> set bs = set as - {x})) s"
proof (rule wp_mono [OF del_unlinks])
  fix s'
  assume as: "links s as" and "frame s s' \<and> (\<exists>bs. links s' bs \<and> mset bs = mset as - {#x#})"
  then obtain bs where "frame s s'" "links s' bs" and bs: "mset bs = mset (remove1 x as)" by auto
  moreover have "set bs = set as - {x}"
    using mset_eq_setD [OF bs] links_distinct [OF as] by (simp add: set_remove1_eq)
  ultimately show "frame s s' \<and> (\<exists>bs. links s' bs \<and> set bs = set as - {x})" by blast
qed

text \<open>Deleting every timer of a set of closed connections leaves none of them linked.\<close>

lemma del_all:
  "links s as \<Longrightarrow> wp (forP xs del) (\<lambda>_ s'. frame s s' \<and> (\<exists>bs. links s' bs \<and> set bs = set as - set xs)) s"
proof (induction xs arbitrary: s as)
  case Nil
  then show ?case using frame_refl by (auto simp: wp_simps)
next
  case (Cons x xs)
  have "wp (del x) (\<lambda>_. wp (forP xs del)
      (\<lambda>_ s'. frame s s' \<and> (\<exists>bs. links s' bs \<and> set bs = set as - set (x # xs)))) s"
  proof (rule wp_mono [OF del_removes [OF Cons.prems]])
    fix s'
    assume "frame s s' \<and> (\<exists>bs. links s' bs \<and> set bs = set as - {x})"
    then obtain bs where "frame s s'" "links s' bs" "set bs = set as - {x}" by blast
    then show "wp (forP xs del)
        (\<lambda>_ s'. frame s s' \<and> (\<exists>bs. links s' bs \<and> set bs = set as - set (x # xs))) s'"
      using frame_trans by (auto intro!: wp_mono [OF Cons.IH])
  qed
  then show ?case by (simp add: wp_simps)
qed

end

interpretation tq: timer_service timer_list "\<lambda>x. deleteTimer (Some x)" relinked
proof
  fix s :: "'a timers_scheme" and as x
  assume "timer_list s as"
  then show "wp (deleteTimer (Some x)) (\<lambda>_ s'. relinked s s' \<and>
      (\<exists>bs. timer_list s' bs \<and> mset bs = mset as - {#x#})) s"
    by (intro wp_mono [OF deleteTimer_spec]) auto
qed (auto simp: timer_list_def intro: relinked_trans)

text \<open>Concrete stores for the closed theorems: timers 10, 20 linked (due at 5 and 10), 30 free.\<close>

definition ex_timers :: "nat list timers_scheme" where
  "ex_timers = \<lparr>heap = Some 10, tmem = [10 \<mapsto> \<lparr>expire = 5, callback = 11, nxt = Some 20\<rparr>,
     20 \<mapsto> \<lparr>expire = 10, callback = 12, nxt = NULL\<rparr>, 30 \<mapsto> \<lparr>expire = 0, callback = 0, nxt = NULL\<rparr>], \<dots> = []\<rparr>"

definition log_callback :: "nat \<Rightarrow> (nat list timers_scheme, unit) prog" where
  "log_callback cb s = Some (Ret (), timers.more_update (\<lambda>l. l @ [cb]) s)"

lemma ex_timers_list: "timer_list ex_timers [10, 20]"
  by (simp add: timer_list_def ex_timers_def)

lemma log_callback_silent: "silent log_callback (\<lambda>cb l. l @ [cb])"
  by (simp add: silent_def log_callback_def)

lemma ex_timers_free: "tmem ex_timers 30 = Some \<lparr>expire = 0, callback = 0, nxt = NULL\<rparr>"
  by (simp add: ex_timers_def)

section \<open>Properties\<close>

text \<open>
  C31: Scheduling. When \<open>addTimer\<close> is called with an allocated timer that is not yet in a
  well-formed list, it returns without undefined behaviour; the timer is due \<open>d\<close> seconds after
  \<open>now\<close>, every other expiry time is unchanged, and the list holds exactly the old timers and
  the new one, in the order one \<open>heapify\<close> pass gives.
\<close>

theorem addTimer_schedules:
  assumes "timer_list s as" and "tmem s x = Some t0" and "x \<notin> set as"
  shows "\<exists>s' bs. addTimer now (Some x) d cb s = Some (Ret (), s') \<and> timer_list s' bs \<and>
     mset bs = add_mset x (mset as) \<and> bs = heapify_list (expire_of s') (as @ [x]) \<and>
     expire_of s' = (expire_of s)(x := now + d)"
  using addTimer_spec [OF assms, of now d cb] by (auto simp: wp_iff)

theorem addTimer_schedules_witness:
  "\<exists>s' bs. addTimer 0 (Some 30) 7 13 ex_timers = Some (Ret (), s') \<and> timer_list s' bs \<and>
     mset bs = {#10, 20, 30#} \<and> expire_of s' 30 = 7"
proof -
  obtain s' bs where "addTimer 0 (Some 30) 7 13 ex_timers = Some (Ret (), s')" "timer_list s' bs"
    "mset bs = add_mset 30 (mset [10, 20])" "expire_of s' = (expire_of ex_timers)(30 := 0 + 7)"
    using addTimer_schedules [OF ex_timers_list ex_timers_free, of 0 7 13] by auto
  then show ?thesis by (auto simp: add_mset_commute)
qed

text \<open>
  C21: Removal. \<open>deleteTimer\<close> on a well-formed list returns without undefined behaviour whether or
  not its argument is linked; the list then holds exactly the other timers, and no timer was
  freed, rescheduled or given another callback.
\<close>

theorem deleteTimer_unlinks:
  assumes "timer_list s as"
  shows "\<exists>s' bs. deleteTimer (Some x) s = Some (Ret (), s') \<and> timer_list s' bs \<and>
     mset bs = mset as - {#x#} \<and> relinked s s' \<and> expire_of s' = expire_of s"
  using tq.del_unlinks [OF assms, of x] relinked_expire by (auto simp: wp_iff)

theorem deleteTimer_unlinks_witness:
  "\<exists>s' bs. deleteTimer (Some 20) ex_timers = Some (Ret (), s') \<and> timer_list s' bs \<and> mset bs = {#10#}"
  using deleteTimer_unlinks [OF ex_timers_list, of 20] by auto

text \<open>
  C32: Firing. With callbacks that leave the timers alone, \<open>executeTimers\<close> returns after it has
  run, in list order, the callbacks of exactly the timers in the list's longest prefix that is
  due at \<open>now\<close>, and has unlinked exactly those.
\<close>

theorem executeTimers_fires_due_prefix:
  assumes "timer_list s as" and "silent run eff"
  shows "\<exists>s'. executeTimers run now s = Some (Ret (), s') \<and>
     timer_list s' (dropWhile (\<lambda>a. expire_of s a \<le> now) as) \<and>
     timers.more s' = fold eff (map (callback_of s) (takeWhile (\<lambda>a. expire_of s a \<le> now) as)) (timers.more s)"
  using execute_loop_spec [OF assms, of now] by (auto simp: wp_iff executeTimers_def)

theorem executeTimers_fires_due_prefix_witness:
  "\<exists>s'. executeTimers log_callback 6 ex_timers = Some (Ret (), s') \<and> timer_list s' [20] \<and>
     timers.more s' = [11]"
  using executeTimers_fires_due_prefix [OF ex_timers_list log_callback_silent, of 6]
  by (simp add: expire_of_def callback_of_def ex_timers_def)

text \<open>
  What one \<open>heapify\<close> pass does to the order, for any list with at least one timer: it returns,
  keeps the timers, puts the timer that expires last at the end, and leaves a list that is
  already ordered by expiry as it is.
\<close>

theorem heapify_order:
  assumes "timer_list s as" and "as \<noteq> []"
  shows "\<exists>s' bs. heapify s = Some (Ret (), s') \<and> timer_list s' bs \<and> mset bs = mset as \<and>
     (\<forall>a\<in>set as. expire_of s a \<le> expire_of s (last bs)) \<and>
     (sorted_wrt (\<lambda>x y. expire_of s x \<le> expire_of s y) as \<longrightarrow> bs = as)"
proof -
  let ?e = "expire_of s"
  obtain p cs where as: "as = p # cs" using assms(2) by (cases as) auto
  let ?k = "p # kept ?e p cs"
  have last: "last (heapify_list ?e as) = last ?k" using as by simp
  have "?e a \<le> ?e (last ?k)" if "a \<in> set ?k" for a
    using sorted_kept [of ?e p cs] that
    by (cases ?k rule: rev_cases) (auto simp: sorted_wrt_append)
  moreover have "set as = set ?k \<union> set (moved ?e p cs)"
    using set_heapify_list [of ?e as] as by auto
  ultimately have max: "\<forall>a\<in>set as. ?e a \<le> ?e (last ?k)"
    using moved_below [of _ ?e p cs] by fastforce
  have "heapify_list ?e as = as" if "sorted_wrt (\<lambda>x y. ?e x \<le> ?e y) as"
    using kept_sorted [of ?e p cs] that as by simp
  moreover obtain s' where "heapify s = Some (Ret (), s')" "timer_list s' (heapify_list ?e as)"
    using heapify_spec [OF assms] by (auto simp: wp_iff)
  ultimately show ?thesis
    using max last mset_heapify_list [of ?e as]
    by (intro exI [of _ s'] exI [of _ "heapify_list ?e as"]) (simp del: last.simps)
qed

theorem heapify_order_witness:
  "\<exists>s'. heapify ex_timers = Some (Ret (), s') \<and> timer_list s' [10, 20]"
proof -
  have "sorted_wrt (\<lambda>x y. expire_of ex_timers x \<le> expire_of ex_timers y) [10, 20]"
    by (simp add: expire_of_def ex_timers_def)
  with heapify_order [OF ex_timers_list] show ?thesis by auto
qed

text \<open>
  C35: The pass does not keep the list ordered. With timers due at 5 and at 10 linked in this
  order, adding one due at 7 puts it in front of the one due at 5: when the clock then reads 6,
  \<open>executeTimers\<close> runs no callback although the timer due at 5 has expired.
\<close>

theorem addTimer_misorders:
  "\<exists>s'. addTimer 0 (Some 30) 7 13 ex_timers = Some (Ret (), s') \<and> timer_list s' [30, 10, 20] \<and>
     expire_of s' 10 = 5 \<and> executeTimers log_callback 6 s' = Some (Ret (), s')"
proof -
  from addTimer_spec [OF ex_timers_list ex_timers_free, of 0 7 13]
  obtain s' where s': "addTimer 0 (Some 30) 7 13 ex_timers = Some (Ret (), s')"
    and e: "expire_of s' = (expire_of ex_timers)(30 := 7)"
    and list: "timer_list s' (heapify_list (expire_of s') ([10, 20] @ [30]))"
    by (auto simp: wp_iff simp del: heapify_list.simps)
  have vals: "expire_of s' 30 = 7" "expire_of s' 10 = 5" "expire_of s' 20 = 10"
    by (simp_all add: e expire_of_def ex_timers_def)
  then have l: "timer_list s' [30, 10, 20]" using list by simp
  then obtain t where "heap s' = Some 30" "tmem s' 30 = Some t" "expire t = 7"
    using vals(1) by (auto simp: timer_list_def expire_of_def)
  then have "executeTimers log_callback 6 s' = Some (Ret (), s')"
    by (simp add: executeTimers_def execute_loop.simps [of log_callback 6 s'] run_simps tget_def)
  with s' l vals show ?thesis by blast
qed

text \<open>
  A timer must not be added twice. Calling \<open>addTimer\<close> with the timer that is already last in
  the list makes the list cyclic, and the call never returns.
\<close>

theorem addTimer_linked_diverges:
  assumes "timer_list s (as @ [x])"
  shows "addTimer now (Some x) d cb s = None"
proof -
  from assms obtain t0 where t0: "tmem s x = Some t0" "nxt t0 = NULL"
    and link: "linked (tmem s) (heap s) as (Some x)" and x: "x \<notin> set as" "distinct as"
    by (auto simp: timer_list_def)
  let ?t = "t0\<lparr>callback := cb, expire := now + d, nxt := NULL\<rparr>"
  let ?s = "s\<lparr>tmem := (tmem s)(x := Some ?t)\<rparr>"
  let ?s' = "s\<lparr>tmem := (tmem s)(x := Some (?t\<lparr>nxt := Some x\<rparr>))\<rparr>"
  have "linked (tmem ?s) (heap ?s) (as @ [x]) NULL" using link x by auto
  then have last: "last_loop (heap s) ?s = Some (Ret (Some x), ?s)"
    using last_loop_run [of ?s "heap s" "as @ [x]"] by simp
  have heap: "heap s \<noteq> NULL" using link by (cases as) auto
  have succ: "\<exists>t. m a = Some t \<and> nxt t \<in> Some ` set (as @ [x])"
    if "linked m p as (Some x)" "a \<in> set as" for m p a
    using that
  proof (induction as arbitrary: p)
    case (Cons b bs)
    then show ?case by (cases bs) fastforce+
  qed simp
  have "heap s \<in> Some ` set (as @ [x])" using link by (cases as) auto
  then have cl: "closed (set (as @ [x])) ?s'"
    using succ [OF link] x by (auto simp: closed_def)
  obtain h th where h: "heap s = Some h" "h \<in> set (as @ [x])" "tmem ?s' h = Some th"
    "nxt th \<in> Some ` set (as @ [x])"
    using cl by (force simp: closed_def)
  then have "heapify ?s' = None"
    using heapify_loop_diverges [OF cl, of h] by (auto simp: heapify_def run_simps tget_def)
  then show ?thesis
    using t0 heap last by (auto simp: addTimer_def run_simps tput_def set_heap_def)
qed

theorem addTimer_linked_diverges_witness: "addTimer 0 (Some 20) 7 13 ex_timers = None"
  using addTimer_linked_diverges [of ex_timers "[10]" 20] ex_timers_list by simp

end
