(* ===== verification/Kernel.thy ===== *)
theory Kernel
  imports DmTimer
begin

text \<open>
  The operating system, as the server sees it. System calls (and the calls into OpenSSL and
  the allocator) are values of \<open>call\<close>; the kernel that answers them is not code of the
  repository, so it is a parameter \<open>os\<close> of every definition that makes a call. A process
  carries the kernel's state (\<open>world\<close>, of any type) and the log of the calls it made, latest
  first.

  \<open>kernel_ok\<close> states the documented behaviour the server relies on (file descriptors are
  fresh, \<open>read\<close> never delivers more than asked, \<open>epoll_wait\<close> reports registered data only,
  ...), relative to a view of the kernel's state. \<open>sim_os\<close> is a small concrete kernel that
  satisfies it: the closed theorems run on it.
\<close>

section \<open>Constants\<close>

definition EAGAIN :: int where "EAGAIN = 11"
definition EWOULDBLOCK :: int where "EWOULDBLOCK = 11"
definition EPIPE :: int where "EPIPE = 32"
definition ECONNRESET :: int where "ECONNRESET = 104"
definition O_NONBLOCK :: int where "O_NONBLOCK = 2048"

definition EPOLLIN :: "32 word" where "EPOLLIN = 1"
definition EPOLLOUT :: "32 word" where "EPOLLOUT = 4"
definition EPOLLERR :: "32 word" where "EPOLLERR = 8"
definition EPOLLHUP :: "32 word" where "EPOLLHUP = 16"
definition EPOLLRDHUP :: "32 word" where "EPOLLRDHUP = 8192"
definition EPOLLET :: "32 word" where "EPOLLET = 2147483648"
definition EPOLLONESHOT :: "32 word" where "EPOLLONESHOT = 1073741824"

definition SSL_ERROR_WANT_READ :: int where "SSL_ERROR_WANT_READ = 2"

section \<open>Calls and answers\<close>

text \<open>The union \<open>epoll_data\<close> of an epoll event holds a pointer, a descriptor or a number.\<close>

datatype epoll_data = DPtr addr | DFd int

record epoll_event =
  ev_events :: "32 word"
  ev_data :: epoll_data

datatype sockopt = SO_REUSEADDR | SO_MSG_NOSIGNAL | SO_RCVTIMEO

datatype ssl_call =
    SSL_setup string | SSL_new int | SSL_set_fd int int | SSL_accept int | SSL_get_error int int
  | SSL_read int nat | SSL_write int string | SSL_shutdown int | SSL_free int

datatype proc_call =
    Fork | Waitpid int | Kill int int | Setsid | Sigaction int | Sleep | Alarm int | Time
  | Shmget int | Shmat int | Getrlimit | Setrlimit int int | Sched_setaffinity "1024 word" | Sysconf
  | Umask int | Chdir string | Getpid | Rand

text \<open>POSIX threads; the number is the index of the queue a mutex or condition belongs to.\<close>

datatype thread_call =
    Mutex_init nat | Cond_init nat | Mutex_lock nat | Mutex_unlock nat | Cond_wait nat | Cond_signal nat
  | Pthread_create nat | Pthread_join nat | Mutex_destroy nat | Cond_destroy nat

datatype name_call = Inet_addr string | Gethostbyname string

text \<open>
  What the benchmark client uses besides: the pipe to its children and the streams on its ends, the
  points where the handler of a pending alarm may run, and the report of its totals.
\<close>

datatype pipe_end = Read_end | Write_end

datatype stdio_call =
    Pipe | Fdopen pipe_end string | Fclose int | Setvbuf int | Fscanf int | Fprintf int string
  | Signal_point | Rates int int int int int

datatype call =
    Fcntl_getfl int | Fcntl_setfl int int | Setsockopt int sockopt int
  | Socket | Bind int "16 word" | Listen int int | Connect int string "16 word"
  | Accept int | Read int nat | Write int string | Send int string | Recv int nat
  | Open string int | Close int | Shutdown int int
  | Epoll_create int | Epoll_add int int epoll_event | Epoll_mod int int epoll_event
  | Epoll_del int int | Epoll_wait int nat int
  | Ssl ssl_call | Proc proc_call | Thread thread_call | Name name_call | Stdio stdio_call | Malloc string | Perror string | Printf string

record answer =
  rv :: int                       \<comment> \<open>return value (a pointer for allocators, 0 is NULL)\<close>
  err :: int                      \<comment> \<open>\<open>errno\<close> after the call\<close>
  data_in :: string               \<comment> \<open>bytes delivered\<close>
  events_in :: "epoll_event list" \<comment> \<open>events delivered by \<open>epoll_wait\<close>\<close>

type_synonym 'w kernel = "call \<Rightarrow> 'w \<Rightarrow> answer \<times> 'w"

record 'w process = timers +
  world :: 'w
  calls :: "(call \<times> answer) list"

definition sys :: "'w kernel \<Rightarrow> call \<Rightarrow> (('w, 'a) process_scheme, answer) prog" where
  "sys os c s = (case os c (world s) of (a, w) \<Rightarrow>
     Some (Ret a, s\<lparr>world := w, calls := (c, a) # calls s\<rparr>))"

text \<open>A diagnostic: the answer is ignored.\<close>

definition perror :: "'w kernel \<Rightarrow> string \<Rightarrow> (('w, 'a) process_scheme, unit) prog" where
  "perror os msg = bindP (sys os (Perror msg)) (\<lambda>_. ret ())"

definition printf :: "'w kernel \<Rightarrow> string \<Rightarrow> (('w, 'a) process_scheme, unit) prog" where
  "printf os msg = bindP (sys os (Printf msg)) (\<lambda>_. ret ())"

definition htons :: "int \<Rightarrow> 16 word" where
  "htons p = word_rotl 8 (word_of_int p)"

lemma sys_run [run_simps]:
  "sys os c s = Some (Ret (fst (os c (world s))),
     s\<lparr>world := snd (os c (world s)), calls := (c, fst (os c (world s))) # calls s\<rparr>)"
  by (simp add: sys_def split: prod.splits)

lemma wp_sys [wp_simps]:
  "wp (sys os c) Q s = Q (fst (os c (world s)))
     (s\<lparr>world := snd (os c (world s)), calls := (c, fst (os c (world s))) # calls s\<rparr>)"
  by (simp add: wp_def sys_run)

lemma wp_perror [wp_simps]: "wp (perror os msg) Q s = Q ()
   (s\<lparr>world := snd (os (Perror msg) (world s)),
      calls := (Perror msg, fst (os (Perror msg) (world s))) # calls s\<rparr>)"
  by (simp add: perror_def wp_simps)

lemma wp_printf [wp_simps]: "wp (printf os msg) Q s = Q ()
   (s\<lparr>world := snd (os (Printf msg) (world s)),
      calls := (Printf msg, fst (os (Printf msg) (world s))) # calls s\<rparr>)"
  by (simp add: printf_def wp_simps)

section \<open>The documented behaviour of the kernel\<close>

text \<open>
  What the contract speaks about: the open descriptors, the registrations of every epoll
  instance, and how many connections are still waiting to be accepted.
\<close>

record 'w kview =
  opened :: "'w \<Rightarrow> int set"
  watched :: "'w \<Rightarrow> int \<Rightarrow> int \<Rightarrow> epoll_data option"
  backlog :: "'w \<Rightarrow> nat"

definition same_fds :: "'w kview \<Rightarrow> 'w \<Rightarrow> 'w \<Rightarrow> bool" where
  "same_fds v w w' \<longleftrightarrow> opened v w' = opened v w \<and> watched v w' = watched v w \<and> backlog v w' \<le> backlog v w"

definition unwatch :: "int \<Rightarrow> (int \<Rightarrow> int \<Rightarrow> epoll_data option) \<Rightarrow> int \<Rightarrow> int \<Rightarrow> epoll_data option" where
  "unwatch fd W = (\<lambda>e f. if f = fd then None else W e f)"

fun call_ok :: "'w kview \<Rightarrow> call \<Rightarrow> 'w \<Rightarrow> answer \<Rightarrow> 'w \<Rightarrow> bool" where
  "call_ok v (Accept fd) w a w' =
     (-1 \<le> rv a \<and> watched v w' = watched v w \<and>
      (if rv a = -1 then opened v w' = opened v w \<and> backlog v w' \<le> backlog v w
       else rv a \<notin> opened v w \<and> opened v w' = insert (rv a) (opened v w) \<and> backlog v w' < backlog v w))"
| "call_ok v Socket w a w' =
     (-1 \<le> rv a \<and> watched v w' = watched v w \<and> backlog v w' \<le> backlog v w \<and>
      (if rv a = -1 then opened v w' = opened v w
       else rv a \<notin> opened v w \<and> opened v w' = insert (rv a) (opened v w)))"
| "call_ok v (Open p m) w a w' =
     (-1 \<le> rv a \<and> watched v w' = watched v w \<and> backlog v w' \<le> backlog v w \<and>
      (if rv a = -1 then opened v w' = opened v w
       else rv a \<notin> opened v w \<and> opened v w' = insert (rv a) (opened v w)))"
| "call_ok v (Epoll_create n) w a w' =
     (-1 \<le> rv a \<and> backlog v w' \<le> backlog v w \<and>
      (if rv a = -1 then opened v w' = opened v w \<and> watched v w' = watched v w
       else rv a \<notin> opened v w \<and> opened v w' = insert (rv a) (opened v w) \<and>
         watched v w' = (watched v w)(rv a := (\<lambda>_. None))))"
| "call_ok v (Close fd) w a w' =
     (backlog v w' \<le> backlog v w \<and>
      (if rv a = 0 then opened v w' = opened v w - {fd} \<and> watched v w' = unwatch fd (watched v w)
       else fd \<notin> opened v w \<and> opened v w' = opened v w \<and> watched v w' = watched v w))"
| "call_ok v (Epoll_add efd fd ev) w a w' =
     (opened v w' = opened v w \<and> backlog v w' \<le> backlog v w \<and>
      watched v w' = (if rv a = 0 then (watched v w)(efd := (watched v w efd)(fd := Some (ev_data ev))) else watched v w) \<and>
      (rv a = 0 \<longrightarrow> watched v w efd fd = None \<and> fd \<in> opened v w) \<and> (rv a = 0 \<or> rv a = -1))"
| "call_ok v (Epoll_mod efd fd ev) w a w' =
     (opened v w' = opened v w \<and> backlog v w' \<le> backlog v w \<and>
      watched v w' = (if rv a = 0 then (watched v w)(efd := (watched v w efd)(fd := Some (ev_data ev))) else watched v w) \<and>
      (rv a = 0 \<longrightarrow> watched v w efd fd \<noteq> None) \<and> (rv a = 0 \<or> rv a = -1))"
| "call_ok v (Epoll_del efd fd) w a w' =
     (opened v w' = opened v w \<and> backlog v w' \<le> backlog v w \<and>
      watched v w' = (if rv a = 0 then (watched v w)(efd := (watched v w efd)(fd := None)) else watched v w) \<and>
      (rv a = 0 \<or> rv a = -1))"
| "call_ok v (Epoll_wait efd n t) w a w' =
     (same_fds v w w' \<and>
      (rv a \<noteq> -1 \<longrightarrow> rv a = int (length (events_in a)) \<and> length (events_in a) \<le> n \<and>
         (\<exists>fds. distinct fds \<and> map (\<lambda>f. watched v w efd f) fds = map (\<lambda>e. Some (ev_data e)) (events_in a))))"
| "call_ok v (Read fd n) w a w' =
     (same_fds v w w' \<and> -1 \<le> rv a \<and> rv a \<le> int n \<and> (rv a \<noteq> -1 \<longrightarrow> length (data_in a) = nat (rv a)) \<and>
      (n = 0 \<longrightarrow> rv a = 0))"
| "call_ok v (Recv fd n) w a w' =
     (same_fds v w w' \<and> -1 \<le> rv a \<and> rv a \<le> int n \<and> (rv a \<noteq> -1 \<longrightarrow> length (data_in a) = nat (rv a)))"
| "call_ok v (Ssl (SSL_read p n)) w a w' =
     (same_fds v w w' \<and> rv a \<le> int n \<and> (0 \<le> rv a \<longrightarrow> length (data_in a) = nat (rv a)))"
| "call_ok v (Write fd bs) w a w' = (same_fds v w w' \<and> -1 \<le> rv a \<and> rv a \<le> int (length bs))"
| "call_ok v (Send fd bs) w a w' = (same_fds v w w' \<and> -1 \<le> rv a \<and> rv a \<le> int (length bs))"
| "call_ok v (Stdio d) w a w' = (d = Signal_point \<longrightarrow> same_fds v w w')"
| "call_ok v c w a w' = same_fds v w w'"

definition kernel_ok :: "'w kernel \<Rightarrow> 'w kview \<Rightarrow> bool" where
  "kernel_ok os v \<longleftrightarrow> (\<forall>c w. call_ok v c w (fst (os c w)) (snd (os c w)))"

lemma kernel_okD: "kernel_ok os v \<Longrightarrow> call_ok v c w (fst (os c w)) (snd (os c w))"
  by (simp add: kernel_ok_def)

text \<open>The allocator never answers NULL.\<close>

definition memory_ok :: "'w kernel \<Rightarrow> bool" where
  "memory_ok os \<longleftrightarrow> (\<forall>what w. rv (fst (os (Malloc what) w)) \<noteq> 0)"

section \<open>A concrete kernel\<close>

text \<open>
  \<open>sim_os\<close> keeps the open descriptors, the registrations, the number of waiting connections,
  the chunks still to be read and the event batches still to be reported.
\<close>

record sim =
  sim_open :: "int list"
  sim_watch :: "int \<Rightarrow> int \<Rightarrow> epoll_data option"
  sim_waiting :: nat
  sim_chunks :: "string list"
  sim_batches :: "(32 word \<times> int) list list"

definition reply :: "int \<Rightarrow> int \<Rightarrow> answer" where
  "reply r e = \<lparr>rv = r, err = e, data_in = [], events_in = []\<rparr>"

definition sim_fresh :: "sim \<Rightarrow> int" where
  "sim_fresh w = fold max (sim_open w) 2 + 1"

definition sim_read :: "nat \<Rightarrow> sim \<Rightarrow> answer \<times> sim" where
  "sim_read n w = (if n = 0 then (reply 0 0, w)
     else case sim_chunks w of
         [] \<Rightarrow> (reply (-1) EAGAIN, w)
       | c # cs \<Rightarrow> (\<lparr>rv = int (length (take n c)), err = 0, data_in = take n c, events_in = []\<rparr>,
           w\<lparr>sim_chunks := (if length c \<le> n then cs else drop n c # cs)\<rparr>))"

fun sim_events :: "(int \<Rightarrow> epoll_data option) \<Rightarrow> nat \<Rightarrow> int list \<Rightarrow> (32 word \<times> int) list \<Rightarrow> epoll_event list" where
  "sim_events W n seen [] = []"
| "sim_events W n seen ((m, f) # es) =
     (case W f of
        Some d \<Rightarrow> if n = 0 \<or> f \<in> set seen then sim_events W n seen es
          else \<lparr>ev_events = m, ev_data = d\<rparr> # sim_events W (n - 1) (f # seen) es
      | None \<Rightarrow> sim_events W n seen es)"

fun sim_os :: "sim kernel" where
  "sim_os (Accept fd) w = (if sim_waiting w = 0 then (reply (-1) EAGAIN, w)
     else (reply (sim_fresh w) 0, w\<lparr>sim_open := sim_fresh w # sim_open w, sim_waiting := sim_waiting w - 1\<rparr>))"
| "sim_os Socket w = (reply (sim_fresh w) 0, w\<lparr>sim_open := sim_fresh w # sim_open w\<rparr>)"
| "sim_os (Open p m) w = (reply (sim_fresh w) 0, w\<lparr>sim_open := sim_fresh w # sim_open w\<rparr>)"
| "sim_os (Epoll_create n) w = (reply (sim_fresh w) 0, w\<lparr>sim_open := sim_fresh w # sim_open w,
     sim_watch := (sim_watch w)(sim_fresh w := (\<lambda>_. None))\<rparr>)"
| "sim_os (Close fd) w = (if fd \<in> set (sim_open w)
     then (reply 0 0, w\<lparr>sim_open := removeAll fd (sim_open w), sim_watch := unwatch fd (sim_watch w)\<rparr>)
     else (reply (-1) 9, w))"
| "sim_os (Epoll_add efd fd ev) w = (if sim_watch w efd fd = None \<and> fd \<in> set (sim_open w)
     then (reply 0 0, w\<lparr>sim_watch := (sim_watch w)(efd := (sim_watch w efd)(fd := Some (ev_data ev)))\<rparr>)
     else (reply (-1) 17, w))"
| "sim_os (Epoll_mod efd fd ev) w = (if sim_watch w efd fd \<noteq> None
     then (reply 0 0, w\<lparr>sim_watch := (sim_watch w)(efd := (sim_watch w efd)(fd := Some (ev_data ev)))\<rparr>)
     else (reply (-1) 2, w))"
| "sim_os (Epoll_del efd fd) w = (if sim_watch w efd fd \<noteq> None
     then (reply 0 0, w\<lparr>sim_watch := (sim_watch w)(efd := (sim_watch w efd)(fd := None))\<rparr>)
     else (reply (-1) 2, w))"
| "sim_os (Epoll_wait efd n t) w = (case sim_batches w of
       [] \<Rightarrow> (reply 0 0, w)
     | b # bs \<Rightarrow> (let es = sim_events (sim_watch w efd) n [] b
         in (\<lparr>rv = int (length es), err = 0, data_in = [], events_in = es\<rparr>, w\<lparr>sim_batches := bs\<rparr>)))"
| "sim_os (Read fd n) w = sim_read n w"
| "sim_os (Recv fd n) w = sim_read n w"
| "sim_os (Ssl (SSL_read fd n)) w = sim_read n w"
| "sim_os (Write fd bs) w = (reply (int (length bs)) 0, w)"
| "sim_os (Send fd bs) w = (reply (int (length bs)) 0, w)"
| "sim_os (Ssl (SSL_write fd bs)) w = (reply (int (length bs)) 0, w)"
| "sim_os (Ssl (SSL_new n)) w = (reply 77 0, w)"
| "sim_os (Ssl (SSL_accept p)) w = (reply 1 0, w)"
| "sim_os (Malloc what) w = (reply 1 0, w)"
| "sim_os (Proc (Shmat i)) w = (reply 4096 0, w)"
| "sim_os c w = (reply 0 0, w)"

definition sim_view :: "sim kview" where
  "sim_view = \<lparr>opened = (\<lambda>w. set (sim_open w)), watched = sim_watch, backlog = sim_waiting\<rparr>"

lemma fold_max_ge: "x \<in> set xs \<Longrightarrow> x \<le> fold max xs (y :: int)" "y \<le> fold max xs y"
  using Max_ge [of "set (y # xs)"] unfolding Max.set_eq_fold [symmetric] by auto

lemma sim_fresh_ge: "3 \<le> sim_fresh w"
  using fold_max_ge(2) [of 2 "sim_open w"] by (simp add: sim_fresh_def)

lemma sim_fresh_new: "sim_fresh w \<notin> set (sim_open w)"
  using fold_max_ge(1) [of "sim_fresh w" "sim_open w" 2] by (auto simp: sim_fresh_def)

lemma sim_events_ok:
  "length (sim_events W n seen es) \<le> n \<and> (\<exists>fds. distinct fds \<and> set fds \<inter> set seen = {} \<and> set fds \<subseteq> snd ` set es \<and>
     map W fds = map (\<lambda>e. Some (ev_data e)) (sim_events W n seen es))"
proof (induction W n seen es rule: sim_events.induct)
  case (1 W n seen)
  show ?case by (auto intro: exI [of _ "[]"])
next
  case (2 W n seen m f es)
  show ?case
  proof (cases "W f = None \<or> n = 0 \<or> f \<in> set seen")
    case True
    then have same: "sim_events W n seen ((m, f) # es) = sim_events W n seen es" by (auto split: option.splits)
    have "length (sim_events W n seen es) \<le> n \<and> (\<exists>fds. distinct fds \<and> set fds \<inter> set seen = {} \<and> set fds \<subseteq> snd ` set es \<and>
        map W fds = map (\<lambda>e. Some (ev_data e)) (sim_events W n seen es))"
      using True 2(1,2) by (cases "W f") auto
    then show ?thesis unfolding same by fastforce
  next
    case False
    then obtain d where d: "W f = Some d" by auto
    with 2(3) False obtain fds where "length (sim_events W (n - 1) (f # seen) es) \<le> n - 1"
      and "distinct fds" "set fds \<inter> set (f # seen) = {}" "set fds \<subseteq> snd ` set es"
      and "map W fds = map (\<lambda>e. Some (ev_data e)) (sim_events W (n - 1) (f # seen) es)"
      by auto
    with False d show ?thesis by (auto intro!: exI [of _ "f # fds"])
  qed
qed

lemma sim_read_ok:
  "same_fds sim_view w (snd (sim_read n w)) \<and> -1 \<le> rv (fst (sim_read n w)) \<and> rv (fst (sim_read n w)) \<le> int n \<and>
   (rv (fst (sim_read n w)) \<noteq> -1 \<longrightarrow> length (data_in (fst (sim_read n w))) = nat (rv (fst (sim_read n w)))) \<and>
   (n = 0 \<longrightarrow> rv (fst (sim_read n w)) = 0)"
  by (auto simp: sim_read_def same_fds_def sim_view_def reply_def split: list.splits)

lemma sim_kernel_ok: "kernel_ok sim_os sim_view"
  unfolding kernel_ok_def
proof (intro allI)
  fix c :: call and w :: sim
  have wait: "\<exists>fds. distinct fds \<and> map (sim_watch w e) fds = map (\<lambda>e. Some (ev_data e)) (sim_events (sim_watch w e) n [] b)"
    and len: "length (sim_events (sim_watch w e) n [] b) \<le> n" for e n b
    using sim_events_ok [of "sim_watch w e" n "[]" b] by auto
  show "call_ok sim_view c w (fst (sim_os c w)) (snd (sim_os c w))"
  proof (cases c)
    case (Epoll_wait e n t)
    then show ?thesis
      using wait [of e n] len [of e n]
      by (auto simp: sim_view_def same_fds_def reply_def Let_def split: list.splits)
  next
    case (Accept fd)
    then show ?thesis
      using sim_fresh_ge [of w] sim_fresh_new [of w] by (simp add: sim_view_def reply_def)
  next
    case (Read fd n)
    then show ?thesis using sim_read_ok [of w n] by simp
  next
    case (Recv fd n)
    then show ?thesis using sim_read_ok [of w n] by simp
  next
    case (Ssl d)
    then show ?thesis
      using sim_read_ok [of w] by (cases d) (auto simp: sim_view_def same_fds_def reply_def)
  next
    case (Proc d)
    then show ?thesis by (cases d) (auto simp: sim_view_def same_fds_def reply_def)
  next
    case (Open p m)
    then show ?thesis
      using sim_fresh_ge [of w] sim_fresh_new [of w] by (simp add: sim_view_def reply_def)
  next
    case Socket
    then show ?thesis
      using sim_fresh_ge [of w] sim_fresh_new [of w] by (simp add: sim_view_def reply_def)
  next
    case (Epoll_create n)
    then show ?thesis
      using sim_fresh_ge [of w] sim_fresh_new [of w] by (simp add: sim_view_def reply_def)
  qed (auto simp: sim_view_def same_fds_def reply_def)
qed

lemma sim_memory_ok: "memory_ok sim_os"
  by (simp add: memory_ok_def reply_def)

end
