(* ===== verification/DmShm.thy ===== *)
theory DmShm
  imports Kernel
begin

text \<open>
  The shared statistics segment of \<open>moudles/server/dm_shm.c\<close>: five atomic counters in a System V
  shared memory segment that every worker process attaches. \<open>_Atomic int\<close> increments wrap
  around at 32 bits without undefined behaviour.
\<close>

record shm_data_t =
  accept_mutex :: "32 word"
  accept_num :: "32 word"
  read_num :: "32 word"
  write_num :: "32 word"
  close_num :: "32 word"

text \<open>
  A pointer to the segment: NULL (a zeroed field), the \<open>(void*)-1\<close> that \<open>shmat\<close> answers when it
  fails and that \<open>create_get_shm\<close> returns all the same, or the attached segment.
\<close>

datatype shm_ptr = ShmNull | ShmFailed | ShmAt

definition create_get_shm :: "'w kernel \<Rightarrow> int \<Rightarrow> (('w, 'a) process_scheme, shm_ptr) prog" where
  "create_get_shm os name =
     bindP (sys os (Proc (Shmget name))) (\<lambda>shm_fd.
       seqP (whenP (rv shm_fd = -1) (perror os ''shmget''))
         (bindP (sys os (Proc (Shmat (rv shm_fd)))) (\<lambda>shm.
           seqP (whenP (rv shm = -1) (perror os ''shmat''))
             (ret (if rv shm = -1 then ShmFailed else if rv shm = 0 then ShmNull else ShmAt)))))"

end
