(* ===== verification/DmSocket.thy ===== *)
theory DmSocket
  imports Kernel DmShm
begin

text \<open>
  The socket helpers of \<open>moudles/server/dm_socket.c\<close>: switching descriptors to non-blocking
  mode, opening the listening sockets, and connecting to the proxied back end.
\<close>

definition set_non_blocking :: "'w kernel \<Rightarrow> int \<Rightarrow> (('w, 'a) process_scheme, int) prog" where
  "set_non_blocking os fd =
     bindP (sys os (Fcntl_getfl fd)) (\<lambda>flag.
       if rv flag = -1 then ret (-1)
       else bindP (sys os (Fcntl_setfl fd (or (rv flag) O_NONBLOCK))) (\<lambda>r.
         if rv r = -1 then ret (-1) else ret 0))"

definition set_reuse :: "'w kernel \<Rightarrow> int \<Rightarrow> (('w, 'a) process_scheme, int) prog" where
  "set_reuse os i_listenfd = bindP (sys os (Setsockopt i_listenfd SO_REUSEADDR 2)) (\<lambda>r. ret (rv r))"

text \<open>\<open>set_nosignal\<close> is declared to return an int and returns none; nothing calls it.\<close>

definition set_nosignal :: "'w kernel \<Rightarrow> int \<Rightarrow> (('w, 'a) process_scheme, unit) prog" where
  "set_nosignal os i_listenfd = bindP (sys os (Setsockopt i_listenfd SO_MSG_NOSIGNAL 1)) (\<lambda>_. ret ())"

definition create_socket :: "'w kernel \<Rightarrow> int \<Rightarrow> (('w, 'a) process_scheme, int) prog" where
  "create_socket os port =
     bindP (sys os Socket) (\<lambda>serfd.
     seqP (whenP (rv serfd = -1) (perror os ''socket error''))
    (seqP (bindP (set_reuse os (rv serfd)) (\<lambda>r. whenP (r = -1) (perror os ''set_reuse error'')))
    (seqP (bindP (set_non_blocking os (rv serfd)) (\<lambda>r. whenP (r = -1) (perror os ''set_non_blocking error'')))
    (seqP (bindP (sys os (Bind (rv serfd) (htons port))) (\<lambda>r. whenP (rv r = -1) (perror os ''bind error'')))
    (seqP (bindP (sys os (Listen (rv serfd) 5)) (\<lambda>r. whenP (rv r = -1) (perror os ''listen error'')))
    (seqP (bindP (sys os (Setsockopt (rv serfd) SO_RCVTIMEO 500)) (\<lambda>_. ret ()))
      (ret (rv serfd))))))))"

definition client_socket :: "'w kernel \<Rightarrow> (('w, 'a) process_scheme, int) prog" where
  "client_socket os =
     bindP (sys os Socket) (\<lambda>sockfd.
       if rv sockfd = -1 then seqP (perror os ''socket error'') (ret (-1))
       else bindP (sys os (Connect (rv sockfd) ''127.0.0.1'' (htons 80))) (\<lambda>r.
         if rv r = -1 then seqP (perror os ''connect error'') (ret (-1))
         else ret (rv sockfd)))"

end
