(* ===== verification/ServerConfig.thy ===== *)
theory ServerConfig
  imports DmShm DmSocket
begin

text \<open>
  The types every server component shares (\<open>moudles/server/dm_server_config.h\<close>): the kinds of
  listeners, the connection object \<open>req_t\<close>, the listener table entry \<open>lis_inf_t\<close>, and the state of
  one worker process, which owns the connection objects, the SSL objects and its view of the
  shared counters.

  A connection object and the timer embedded in it share one address; allocating or freeing
  the object allocates or frees both.
\<close>

datatype lis_type_t = HTTP | HTTPS | HTTP_PROXY | HTTPS_PROXY | TCP_PROXY | LIS_OTHER int

record req_t =
  r_fd :: int
  r_efd :: int
  r_type :: lis_type_t
  r_data :: ptr
  r_ssl :: int
  r_sd :: shm_ptr
  r_timer :: char

record lis_inf_t =
  l_ip :: string
  l_port :: int
  l_fd :: int
  l_type :: lis_type_t

definition SERVER_DEFAULT_PORT :: int where "SERVER_DEFAULT_PORT = 8080"
definition WORKER_NUM :: nat where "WORKER_NUM = 56"

record 'w worker = "'w process" +
  reqs :: "addr \<Rightarrow> req_t option"
  brk :: addr
  ssls :: "int set"
  shm :: shm_data_t
  g_ctx :: int

section \<open>Connection objects in memory\<close>

definition zero_req :: req_t where
  "zero_req = \<lparr>r_fd = 0, r_efd = 0, r_type = LIS_OTHER 0, r_data = NULL, r_ssl = 0, r_sd = ShmNull, r_timer = NUL\<rparr>"

definition zero_timer :: Timer where
  "zero_timer = \<lparr>expire = 0, callback = 0, nxt = NULL\<rparr>"

text \<open>
  \<open>malloc(sizeof(req_t))\<close>: NULL when the allocator says so, else a block that was never used
  before, with the indeterminate content \<open>junk\<close>.
\<close>

definition malloc_req :: "'w kernel \<Rightarrow> req_t \<times> Timer \<Rightarrow> (('w, 'a) worker_scheme, ptr) prog" where
  "malloc_req os junk = bindP (sys os (Malloc ''req_t'')) (\<lambda>m.
     if rv m = 0 then ret NULL
     else bindP (gets brk) (\<lambda>a.
       seqP (modify (\<lambda>s. s\<lparr>brk := Suc a, reqs := (reqs s)(a := Some (fst junk)),
                           tmem := (tmem s)(a := Some (snd junk))\<rparr>))
         (ret (Some a))))"

definition rget :: "ptr \<Rightarrow> (('w, 'a) worker_scheme, req_t) prog" where
  "rget p s = (case p of None \<Rightarrow> fault NullDeref s
     | Some a \<Rightarrow> (case reqs s a of None \<Rightarrow> fault BadPtr s | Some r \<Rightarrow> ret r s))"

definition rput :: "ptr \<Rightarrow> (req_t \<Rightarrow> req_t) \<Rightarrow> (('w, 'a) worker_scheme, unit) prog" where
  "rput p f s = (case p of None \<Rightarrow> fault NullDeref s
     | Some a \<Rightarrow> (case reqs s a of None \<Rightarrow> fault BadPtr s
         | Some r \<Rightarrow> ret () (s\<lparr>reqs := (reqs s)(a := Some (f r))\<rparr>)))"

definition memset_req :: "ptr \<Rightarrow> (('w, 'a) worker_scheme, unit) prog" where
  "memset_req p = seqP (rput p (\<lambda>_. zero_req)) (tput p (\<lambda>_. zero_timer))"

text \<open>\<open>free\<close>: NULL is ignored; a pointer that is not to a live block is undefined behaviour.\<close>

definition free_req :: "ptr \<Rightarrow> (('w, 'a) worker_scheme, unit) prog" where
  "free_req p s = (case p of None \<Rightarrow> ret () s
     | Some a \<Rightarrow> (if reqs s a = None then fault DoubleFree s
         else ret () (s\<lparr>reqs := (reqs s)(a := None), tmem := (tmem s)(a := None)\<rparr>)))"

text \<open>\<open>SSL_free\<close> and \<open>free\<close> on an SSL object both need it to be live, and end its life.\<close>

definition release_ssl :: "int \<Rightarrow> (('w, 'a) worker_scheme, unit) prog" where
  "release_ssl p s = (if p = 0 then ret () s
     else if p \<in> ssls s then ret () (s\<lparr>ssls := ssls s - {p}\<rparr>) else fault DoubleFree s)"

text \<open>\<open>sd->counter ++\<close>\<close>

definition count :: "((32 word \<Rightarrow> 32 word) \<Rightarrow> shm_data_t \<Rightarrow> shm_data_t) \<Rightarrow> shm_ptr \<Rightarrow> (('w, 'a) worker_scheme, unit) prog" where
  "count upd sd s = (case sd of ShmNull \<Rightarrow> fault NullDeref s | ShmFailed \<Rightarrow> fault BadPtr s
     | ShmAt \<Rightarrow> ret () (s\<lparr>shm := upd (\<lambda>n. n + 1) (shm s)\<rparr>))"

definition the_shm :: "shm_ptr \<Rightarrow> (('w, 'a) worker_scheme, shm_data_t) prog" where
  "the_shm sd s = (case sd of ShmNull \<Rightarrow> fault NullDeref s | ShmFailed \<Rightarrow> fault BadPtr s
     | ShmAt \<Rightarrow> ret (shm s) s)"

lemma wp_rget [wp_simps]:
  "wp (rget p) Q s = (\<exists>a r. p = Some a \<and> reqs s a = Some r \<and> Q r s)"
  by (auto simp: wp_def rget_def run_simps split: option.splits)

lemma wp_rput [wp_simps]:
  "wp (rput p f) Q s = (\<exists>a r. p = Some a \<and> reqs s a = Some r \<and>
     Q () (s\<lparr>reqs := (reqs s)(a := Some (f r))\<rparr>))"
  by (auto simp: wp_def rput_def run_simps split: option.splits)

lemma wp_free_req [wp_simps]:
  "wp (free_req p) Q s = (case p of None \<Rightarrow> Q () s
     | Some a \<Rightarrow> reqs s a \<noteq> None \<and> Q () (s\<lparr>reqs := (reqs s)(a := None), tmem := (tmem s)(a := None)\<rparr>))"
  by (auto simp: wp_def free_req_def run_simps split: option.splits)

lemma wp_release_ssl [wp_simps]:
  "wp (release_ssl p) Q s = (if p = 0 then Q () s else p \<in> ssls s \<and> Q () (s\<lparr>ssls := ssls s - {p}\<rparr>))"
  by (auto simp: wp_def release_ssl_def run_simps)

lemma wp_count [wp_simps]:
  "wp (count upd sd) Q s = (sd = ShmAt \<and> Q () (s\<lparr>shm := upd (\<lambda>n. n + 1) (shm s)\<rparr>))"
  by (cases sd) (auto simp: wp_def count_def run_simps)

lemma wp_the_shm [wp_simps]: "wp (the_shm sd) Q s = (sd = ShmAt \<and> Q (shm s) s)"
  by (cases sd) (auto simp: wp_def the_shm_def run_simps)

end
