(* ===== verification/DmEvents.thy ===== *)
theory DmEvents
  imports ServerConfig
begin

text \<open>
  The connection handlers of \<open>moudles/server/dm_events.c\<close>: accepting, reading, answering and
  closing HTTP and HTTPS connections, and the two reverse proxies. Every handler is the
  source's statement sequence over the worker's state; diagnostics are calls whose text is
  shortened and whose answer is ignored.
\<close>

section \<open>Fixed responses\<close>

definition send_header :: string where
  "send_header = ''HTTP/1.1 200 OK'' @ CRLF @ ''Content-type: text/html'' @ CRLF
     @ ''Content-length: 629'' @ CRLF @ ''Connection: close'' @ CRLF @ CRLF"

definition send_line :: string where
  "send_line = ''qwertyuiopasdfghjklzxcvbnm123456789123456789123456789123456789''"

definition send_buf :: string where
  "send_buf = send_header @ concat (replicate 9 (send_line @ [CHR 0x0A])) @ send_line"

text \<open>\<open>sprintf(sendBuf, https_response, readSize)\<close>\<close>

definition https_response :: "int \<Rightarrow> string" where
  "https_response n = ''HTTP/1.1 200 OK'' @ CRLF @ ''Server: httpd'' @ CRLF @ ''Content-Length: '' @ show_int n
     @ CRLF @ ''Connection: keep-alive'' @ CRLF @ CRLF"

section \<open>TLS context\<close>

text \<open>
  \<open>events_ssl_init\<close>: the global context is set only when every step succeeded. The library
  calls answer a pointer or a status in \<open>rv\<close>.
\<close>

definition events_ssl_init :: "'w kernel \<Rightarrow> (('w, 'a) worker_scheme, unit) prog" where
  "events_ssl_init os =
     bindP (sys os (Ssl (SSL_setup ''SSL_library_init''))) (\<lambda>_.
     bindP (sys os (Ssl (SSL_setup ''OpenSSL_add_all_algorithms''))) (\<lambda>_.
     bindP (sys os (Ssl (SSL_setup ''SSL_load_error_strings''))) (\<lambda>_.
     bindP (sys os (Ssl (SSL_setup ''SSL_CTX_new''))) (\<lambda>ctx.
       if rv ctx = 0 then perror os ''ERR_print_errors_fp''
       else bindP (sys os (Ssl (SSL_setup ''SSL_CTX_use_certificate_file''))) (\<lambda>r.
         if rv r \<le> 0 then perror os ''ERR_print_errors_fp''
         else bindP (sys os (Ssl (SSL_setup ''SSL_CTX_use_PrivateKey_file''))) (\<lambda>r.
           if rv r \<le> 0 then perror os ''ERR_print_errors_fp''
           else bindP (sys os (Ssl (SSL_setup ''SSL_CTX_check_private_key''))) (\<lambda>r.
             if rv r = 0 then perror os ''ERR_print_errors_fp''
             else modify (\<lambda>s. s\<lparr>g_ctx := rv ctx\<rparr>))))))))"

section \<open>Closing\<close>

text \<open>
  The end of \<open>handle_close\<close>: releasing the connection's memory. \<open>SSL_free\<close> and the \<open>free\<close> that
  follows both release the TLS object.
\<close>

definition free_conn :: "'w kernel \<Rightarrow> ptr \<Rightarrow> (('w, 'a) worker_scheme, unit) prog" where
  "free_conn os conn = blockP
     [bindP (rget conn) (\<lambda>req. free_req (r_data req)),
      bindP (rget conn) (\<lambda>req. whenP (r_ssl req \<noteq> 0) (blockP
        [bindP (sys os (Ssl (SSL_shutdown (r_ssl req)))) (\<lambda>_. ret ()),
         bindP (sys os (Ssl (SSL_free (r_ssl req)))) (\<lambda>_. release_ssl (r_ssl req))])),
      bindP (rget conn) (\<lambda>req. release_ssl (r_ssl req)),
      free_req conn]"

definition handle_close :: "'w kernel \<Rightarrow> ptr \<Rightarrow> (('w, 'a) worker_scheme, unit) prog" where
  "handle_close os conn = bindP (rget conn) (\<lambda>req. blockP
     [bindP (sys os (Epoll_del (r_efd req) (r_fd req))) (\<lambda>r. whenP (rv r = -1) (perror os ''epoll del error'')),
      bindP (sys os (Close (r_fd req))) (\<lambda>r. whenP (rv r = -1) (perror os ''client close error'')),
      bindP (rget conn) (\<lambda>req. count close_num_update (r_sd req)),
      deleteTimer conn,
      free_conn os conn])"

definition handle_shutdown :: "'w kernel \<Rightarrow> int \<Rightarrow> int \<Rightarrow> int \<Rightarrow> (('w, 'a) worker_scheme, unit) prog" where
  "handle_shutdown os client_fd epoll_fd how = blockP
     [bindP (sys os (Epoll_del epoll_fd client_fd)) (\<lambda>r. whenP (rv r = -1) (perror os ''epoll del error'')),
      bindP (sys os (Shutdown client_fd how)) (\<lambda>r. whenP (rv r = -1) (perror os ''client shutdowm error''))]"

section \<open>Accepting\<close>

text \<open>
  One accepted HTTP connection: the object is allocated, zeroed and filled, the accept counter
  goes up, and the descriptor is registered with the object as its event data.
\<close>

definition accept_http_one ::
  "'w kernel \<Rightarrow> lis_type_t \<Rightarrow> int \<Rightarrow> shm_ptr \<Rightarrow> int \<Rightarrow> (('w, 'a) worker_scheme, unit) prog" where
  "accept_http_one os type epoll_fd sd clifd = bindP (malloc_req os (zero_req, zero_timer)) (\<lambda>req. blockP
     [whenP (req = NULL) (printf os ''malloc error''),
      memset_req req,
      rput req (\<lambda>r. r\<lparr>r_fd := clifd\<rparr>),
      rput req (\<lambda>r. r\<lparr>r_efd := epoll_fd\<rparr>),
      rput req (\<lambda>r. r\<lparr>r_type := type\<rparr>),
      rput req (\<lambda>r. r\<lparr>r_sd := sd\<rparr>),
      bindP (rget req) (\<lambda>r. count accept_num_update (r_sd r)),
      bindP (sys os (Epoll_add epoll_fd clifd
          \<lparr>ev_events = or EPOLLIN EPOLLET, ev_data = DPtr (the req)\<rparr>)) (\<lambda>r.
        whenP (rv r = -1) (blockP
          [perror os ''epoll_ctl add'', bindP (sys os (Close clifd)) (\<lambda>_. ret ())]))])"

text \<open>The accept loop: \<open>None\<close> is the early return, \<open>Some a\<close> the answer of the last \<open>accept\<close>.\<close>

partial_function (option) accept_http_loop ::
  "'w kernel \<Rightarrow> lis_type_t \<Rightarrow> int \<Rightarrow> int \<Rightarrow> shm_ptr \<Rightarrow> ('w, 'a) worker_scheme
     \<Rightarrow> (answer option res \<times> ('w, 'a) worker_scheme) option" where
  "accept_http_loop os type serfd epoll_fd sd s = bindP (sys os (Accept serfd)) (\<lambda>a.
     ifP (rv a > 0)
       (bindP (set_non_blocking os (rv a)) (\<lambda>nb.
         ifP (nb = -1) (seqP (perror os ''set_non_blocking2'') (ret None))
           (seqP (accept_http_one os type epoll_fd sd (rv a))
             (accept_http_loop os type serfd epoll_fd sd))))
       (ret (Some a))) s"

definition event_accept_http ::
  "'w kernel \<Rightarrow> lis_type_t \<Rightarrow> int \<Rightarrow> int \<Rightarrow> shm_ptr \<Rightarrow> (('w, 'a) worker_scheme, unit) prog" where
  "event_accept_http os type serfd epoll_fd sd =
     bindP (accept_http_loop os type serfd epoll_fd sd) (\<lambda>last. case last of
         None \<Rightarrow> ret ()
       | Some a \<Rightarrow> whenP (rv a = -1 \<and> err a \<noteq> EAGAIN) (printf os ''accept''))"

text \<open>
  The TLS handshake loop: at most 100 retries, counted over all connections of one call;
  \<open>retryTimes++\<close> is evaluated whenever \<open>SSL_accept\<close> did not succeed.
\<close>

partial_function (option) ssl_accept_loop ::
  "'w kernel \<Rightarrow> int \<Rightarrow> int \<Rightarrow> ('w, 'a) worker_scheme \<Rightarrow> ((int \<times> int) res \<times> ('w, 'a) worker_scheme) option" where
  "ssl_accept_loop os ssl retryTimes s = bindP (sys os (Ssl (SSL_accept ssl))) (\<lambda>code.
     ifP (rv code \<le> 0 \<and> retryTimes < 100)
       (bindP (sys os (Ssl (SSL_get_error ssl (rv code)))) (\<lambda>e.
         ifP (rv e \<noteq> SSL_ERROR_WANT_READ)
           (bindP (sys os (Ssl (SSL_get_error ssl (rv code)))) (\<lambda>_.
             seqP (printf os ''ssl accept error'') (ret (rv code, retryTimes + 1))))
           (bindP (sys os (Proc Sleep)) (\<lambda>_. ssl_accept_loop os ssl (retryTimes + 1)))))
       (ret (rv code, if rv code \<le> 0 then retryTimes + 1 else retryTimes))) s"

text \<open>One object \<open>req\<close>, allocated before the loop, serves every connection the loop accepts.\<close>

partial_function (option) accept_https_loop ::
  "'w kernel \<Rightarrow> int \<Rightarrow> int \<Rightarrow> ptr \<Rightarrow> int \<Rightarrow> ('w, 'a) worker_scheme
     \<Rightarrow> (answer option res \<times> ('w, 'a) worker_scheme) option" where
  "accept_https_loop os serfd epoll_fd req retryTimes s = bindP (sys os (Accept serfd)) (\<lambda>a.
     ifP (rv a > 0)
       (seqP (printf os ''accept client'')
       (bindP (set_non_blocking os (rv a)) (\<lambda>nb.
         ifP (nb = -1) (seqP (perror os ''set_non_blocking2'') (ret None))
           (bindP (rget req) (\<lambda>r.
            bindP (sys os (Ssl (SSL_set_fd (r_ssl r) (rv a)))) (\<lambda>_.
            bindP (ssl_accept_loop os (r_ssl r) retryTimes) (\<lambda>codeRetry.
            seqP (printf os ''code, retry times'')
              (ifP (fst codeRetry \<noteq> 1)
                (bindP (sys os (Close (rv a))) (\<lambda>_.
                 bindP (sys os (Ssl (SSL_free (r_ssl r)))) (\<lambda>_. seqP (release_ssl (r_ssl r)) (ret None))))
                (seqP (rput req (\<lambda>r. r\<lparr>r_fd := rv a\<rparr>))
                (bindP (sys os (Epoll_add epoll_fd (rv a)
                    \<lparr>ev_events = or EPOLLET EPOLLIN, ev_data = DPtr (the req)\<rparr>)) (\<lambda>c.
                 seqP (whenP (rv c = -1) (printf os ''epoll_ctl error''))
                   (accept_https_loop os serfd epoll_fd req (snd codeRetry)))))))))))))
       (ret (Some a))) s"

definition event_accept_https ::
  "'w kernel \<Rightarrow> lis_type_t \<Rightarrow> int \<Rightarrow> int \<Rightarrow> (('w, 'a) worker_scheme, unit) prog" where
  "event_accept_https os type serfd epoll_fd =
     bindP (malloc_req os (zero_req, zero_timer)) (\<lambda>req.
     seqP (memset_req req)
    (bindP (gets g_ctx) (\<lambda>ctx.
     bindP (sys os (Ssl (SSL_new ctx))) (\<lambda>ssl.
     seqP (modify (\<lambda>s. s\<lparr>ssls := (if rv ssl = 0 then ssls s else insert (rv ssl) (ssls s))\<rparr>))
    (seqP (rput req (\<lambda>r. r\<lparr>r_ssl := rv ssl\<rparr>))
    (seqP (rput req (\<lambda>r. r\<lparr>r_type := type\<rparr>))
    (seqP (whenP (rv ssl = 0) (printf os ''SSL_new error.''))
    (bindP (accept_https_loop os serfd epoll_fd req 0) (\<lambda>last. case last of
         None \<Rightarrow> ret ()
       | Some a \<Rightarrow> whenP (rv a = -1 \<and> err a \<noteq> EAGAIN) (printf os ''accept''))))))))))"

definition handle_accept :: "'w kernel \<Rightarrow> lis_inf_t \<Rightarrow> int \<Rightarrow> shm_ptr \<Rightarrow> (('w, 'a) worker_scheme, unit) prog" where
  "handle_accept os lis_infs epoll_fd sd = (case l_type lis_infs of
       HTTP \<Rightarrow> event_accept_http os HTTP (l_fd lis_infs) epoll_fd sd
     | HTTPS \<Rightarrow> event_accept_https os HTTPS (l_fd lis_infs) epoll_fd
     | HTTP_PROXY \<Rightarrow> event_accept_http os HTTP_PROXY (l_fd lis_infs) epoll_fd sd
     | HTTPS_PROXY \<Rightarrow> event_accept_https os HTTPS_PROXY (l_fd lis_infs) epoll_fd
     | TCP_PROXY \<Rightarrow> ret ()
     | LIS_OTHER _ \<Rightarrow> ret ())"

section \<open>Plain HTTP\<close>

text \<open>
  The read loop of \<open>event_http_read\<close> and \<open>event_http_reverse\<close> into a buffer of \<open>cap\<close> bytes. Bytes
  the kernel delivers beyond the buffer would be a fault.
\<close>

datatype rd_result = RdAgain string nat | RdError int | RdClosed

partial_function (option) read_loop ::
  "'w kernel \<Rightarrow> int \<Rightarrow> nat \<Rightarrow> string \<Rightarrow> nat \<Rightarrow> ('w, 'a) worker_scheme
     \<Rightarrow> (rd_result res \<times> ('w, 'a) worker_scheme) option" where
  "read_loop os client_fd cap rbuf total_read s = bindP (sys os (Read client_fd (cap - total_read))) (\<lambda>a.
     ifP (rv a = -1)
       (ret (if err a = EAGAIN \<or> err a = EWOULDBLOCK then RdAgain rbuf total_read else RdError (err a)))
       (ifP (rv a = 0) (ret RdClosed)
         (ifP (total_read + length (data_in a) > cap) (fault OutOfBounds)
           (read_loop os client_fd cap (write_at rbuf total_read (data_in a)) (total_read + nat (rv a)))))) s"

definition stats_text :: "shm_data_t \<Rightarrow> string" where
  "stats_text sd = ''--Accept: '' @ show_int (sint (accept_num sd) - 1) @ [CHR 0x0A]
     @ ''--Read  : '' @ show_int (sint (read_num sd) - 1) @ [CHR 0x0A]
     @ ''--Write : '' @ show_int (sint (write_num sd)) @ [CHR 0x0A]
     @ ''--Close : '' @ show_int (sint (close_num sd)) @ [CHR 0x0A]"

definition event_http_read :: "'w kernel \<Rightarrow> ptr \<Rightarrow> int \<Rightarrow> int \<Rightarrow> (('w, 'a) worker_scheme, unit) prog" where
  "event_http_read os conn client_fd epoll_fd =
     bindP (read_loop os client_fd 1024 (replicate 1024 NUL) 0) (\<lambda>res. case res of
         RdError e \<Rightarrow>
           if e = ECONNRESET
           then seqP (bindP (rget conn) (\<lambda>req. count read_num_update (r_sd req))) (handle_close os conn)
           else perror os ''unknow read error''
       | RdClosed \<Rightarrow> handle_close os conn
       | RdAgain rbuf total_read \<Rightarrow> blockP
           [bindP (rget conn) (\<lambda>req. count read_num_update (r_sd req)),
            whenP (c_str rbuf = [CHR 0x0A])
              (bindP (rget conn) (\<lambda>req. bindP (the_shm (r_sd req)) (\<lambda>sd. printf os (stats_text sd)))),
            bindP (sys os (Epoll_mod epoll_fd client_fd
                \<lparr>ev_events = or EPOLLOUT EPOLLET, ev_data = DPtr (the conn)\<rparr>)) (\<lambda>r.
              whenP (rv r = -1) (perror os ''epoll_ctl error''))])"

text \<open>
  The write loop: \<open>data_size\<close> bytes of \<open>wbuf\<close>, \<open>n\<close> of them still to go. \<open>WrError\<close> is the early
  return, \<open>WrDone n\<close> the loop's end with \<open>n\<close> bytes unsent.
\<close>

datatype wr_result = WrError int | WrDone int

partial_function (option) write_loop ::
  "'w kernel \<Rightarrow> int \<Rightarrow> string \<Rightarrow> int \<Rightarrow> int \<Rightarrow> ('w, 'a) worker_scheme
     \<Rightarrow> (wr_result res \<times> ('w, 'a) worker_scheme) option" where
  "write_loop os client_fd wbuf data_size n s = ifP (n > 0)
     (bindP (sys os (Write client_fd (take (nat n) (drop (nat (data_size - n)) wbuf)))) (\<lambda>nwrite.
       ifP (rv nwrite < n)
         (ifP (rv nwrite = -1 \<and> err nwrite \<noteq> EAGAIN) (ret (WrError (err nwrite))) (ret (WrDone n)))
         (write_loop os client_fd wbuf data_size (n - rv nwrite))))
     (ret (WrDone n)) s"

definition event_http_write :: "'w kernel \<Rightarrow> ptr \<Rightarrow> int \<Rightarrow> int \<Rightarrow> (('w, 'a) worker_scheme, unit) prog" where
  "event_http_write os conn client_fd epoll_fd =
     bindP (write_loop os client_fd send_buf (int (length send_buf)) (int (length send_buf))) (\<lambda>res. case res of
         WrError e \<Rightarrow> if e = EPIPE then perror os ''peer closed'' else perror os ''unknow write error''
       | WrDone _ \<Rightarrow> bindP (rget conn) (\<lambda>req. count write_num_update (r_sd req)))"

definition event_http_read_write :: "'w kernel \<Rightarrow> ptr \<Rightarrow> int \<Rightarrow> int \<Rightarrow> (('w, 'a) worker_scheme, unit) prog" where
  "event_http_read_write os conn client_fd epoll_fd = blockP
     [event_http_read os conn client_fd epoll_fd, event_http_write os conn client_fd epoll_fd, handle_close os conn]"

section \<open>HTTPS\<close>

text \<open>A fixed-size buffer holding the bytes an answer delivered, zero after them.\<close>

definition filled :: "nat \<Rightarrow> string \<Rightarrow> string" where
  "filled cap bs = write_at (replicate cap NUL) 0 (take cap bs)"

definition ssl_error :: "'w kernel \<Rightarrow> int \<Rightarrow> int \<Rightarrow> string \<Rightarrow> (('w, 'a) worker_scheme, unit) prog" where
  "ssl_error os ssl n msg = bindP (sys os (Ssl (SSL_get_error ssl n))) (\<lambda>_. printf os msg)"

definition event_https_read :: "'w kernel \<Rightarrow> ptr \<Rightarrow> int \<Rightarrow> int \<Rightarrow> (('w, 'a) worker_scheme, unit) prog" where
  "event_https_read os conn client_fd epoll_fd = bindP (rget conn) (\<lambda>req.
     bindP (sys os (Ssl (SSL_read (r_ssl req) 512))) (\<lambda>a. blockP
       [whenP (rv a \<le> 0) (ssl_error os (r_ssl req) (rv a) ''SSL_read error.''),
        printf os ''read'']))"

definition event_https_write :: "'w kernel \<Rightarrow> ptr \<Rightarrow> int \<Rightarrow> int \<Rightarrow> (('w, 'a) worker_scheme, unit) prog" where
  "event_https_write os conn client_fd epoll_fd = bindP (rget conn) (\<lambda>req.
     bindP (sys os (Ssl (SSL_write (r_ssl req) (send_buf @ [NUL])))) (\<lambda>a.
       whenP (rv a \<le> 0) (ssl_error os (r_ssl req) (rv a) ''SSL_write error.'')))"

text \<open>
  A failed read is reported and not returned from: the second write is then asked for a negative length,
  which OpenSSL refuses without sending anything; here it is a write of no bytes.
\<close>

definition handle_https_read_write :: "'w kernel \<Rightarrow> ptr \<Rightarrow> int \<Rightarrow> int \<Rightarrow> (('w, 'a) worker_scheme, unit) prog" where
  "handle_https_read_write os conn client_fd epoll_fd = bindP (rget conn) (\<lambda>req.
     bindP (sys os (Ssl (SSL_read (r_ssl req) 1024))) (\<lambda>a. blockP
       [whenP (rv a < 0) (ssl_error os (r_ssl req) (rv a) ''SSL_read error.''),
        bindP (sys os (Ssl (SSL_write (r_ssl req) (https_response (rv a))))) (\<lambda>w.
          whenP (rv w \<le> 0) (ssl_error os (r_ssl req) (rv w) ''SSL_write error.'')),
        bindP (sys os (Ssl (SSL_write (r_ssl req) (take (nat (rv a)) (filled 1024 (data_in a)))))) (\<lambda>w.
          whenP (rv w \<le> 0) (ssl_error os (r_ssl req) (rv w) ''SSL_write error.''))]))"

section \<open>Reverse proxies\<close>

text \<open>
  One round trip to the back end: \<open>None\<close> when it cannot be reached, else the number of bytes
  received and the buffer holding them. A negative length handed to \<open>send\<close> becomes a huge
  \<open>size_t\<close>, so the kernel reads past the end of the buffer. In \<open>event_https_reverse\<close> a failed \<open>recv\<close> asks for a
  TLS write of negative length, which OpenSSL refuses; here it is a write of no bytes.
\<close>

definition backend_exchange ::
  "'w kernel \<Rightarrow> string \<Rightarrow> int \<Rightarrow> (('w, 'a) worker_scheme, (int \<times> string) option) prog" where
  "backend_exchange os buffer total_read = bindP (client_socket os) (\<lambda>cli_sock.
     if cli_sock = -1 then seqP (printf os ''reverse target no response'') (ret None)
     else if total_read < 0 \<or> total_read > int (length buffer) then fault OutOfBounds
     else bindP (sys os (Send cli_sock (take (nat total_read) buffer))) (\<lambda>send_len.
       seqP (whenP (rv send_len \<noteq> total_read) (printf os ''send length < to send length''))
      (bindP (sys os (Recv cli_sock 4096)) (\<lambda>recv.
       bindP (sys os (Close cli_sock)) (\<lambda>_.
         ret (Some (rv recv, if rv recv = -1 then replicate 4096 NUL else filled 4096 (data_in recv))))))))"

definition event_http_reverse :: "'w kernel \<Rightarrow> ptr \<Rightarrow> int \<Rightarrow> int \<Rightarrow> (('w, 'a) worker_scheme, unit) prog" where
  "event_http_reverse os conn client_fd epoll_fd =
     bindP (read_loop os client_fd 4096 (replicate 4096 NUL) 0) (\<lambda>res. case res of
         RdError e \<Rightarrow> perror os ''unknow read error''
       | RdClosed \<Rightarrow> handle_close os conn
       | RdAgain buffer total_read \<Rightarrow>
           bindP (backend_exchange os buffer (int total_read)) (\<lambda>reply. case reply of
               None \<Rightarrow> ret ()
             | Some (recv_len, buffer) \<Rightarrow>
                 bindP (write_loop os client_fd buffer recv_len recv_len) (\<lambda>w. case w of
                     WrError e \<Rightarrow> perror os ''unknow write error''
                   | WrDone _ \<Rightarrow> handle_close os conn)))"

definition event_https_reverse :: "'w kernel \<Rightarrow> ptr \<Rightarrow> int \<Rightarrow> int \<Rightarrow> (('w, 'a) worker_scheme, unit) prog" where
  "event_https_reverse os conn client_fd epoll_fd = bindP (rget conn) (\<lambda>req.
     bindP (sys os (Ssl (SSL_read (r_ssl req) 4096))) (\<lambda>a.
     seqP (whenP (rv a \<le> 0) (ssl_error os (r_ssl req) (rv a) ''SSL_read error.''))
    (bindP (backend_exchange os (filled 4096 (data_in a)) (rv a)) (\<lambda>reply. case reply of
         None \<Rightarrow> ret ()
       | Some (recv_len, buffer) \<Rightarrow>
           bindP (sys os (Ssl (SSL_write (r_ssl req) (take (nat recv_len) buffer)))) (\<lambda>w.
             whenP (rv w \<le> 0) (ssl_error os (r_ssl req) (rv w) ''SSL_write error.''))))))"

section \<open>Dispatch by connection type\<close>

definition handle_read :: "'w kernel \<Rightarrow> ptr \<Rightarrow> (('w, 'a) worker_scheme, unit) prog" where
  "handle_read os conn = bindP (rget conn) (\<lambda>req. case r_type req of
       HTTP \<Rightarrow> event_http_read os conn (r_fd req) (r_efd req)
     | HTTPS \<Rightarrow> handle_https_read_write os conn (r_fd req) (r_efd req)
     | HTTP_PROXY \<Rightarrow> event_http_reverse os conn (r_fd req) (r_efd req)
     | HTTPS_PROXY \<Rightarrow> event_https_reverse os conn (r_fd req) (r_efd req)
     | TCP_PROXY \<Rightarrow> ret ()
     | LIS_OTHER _ \<Rightarrow> ret ())"

definition handle_write :: "'w kernel \<Rightarrow> ptr \<Rightarrow> (('w, 'a) worker_scheme, unit) prog" where
  "handle_write os conn = bindP (rget conn) (\<lambda>req. case r_type req of
       HTTP \<Rightarrow> seqP (event_http_write os conn (r_fd req) (r_efd req)) (handle_close os conn)
     | HTTPS \<Rightarrow> ret ()
     | HTTP_PROXY \<Rightarrow> ret ()
     | TCP_PROXY \<Rightarrow> ret ()
     | _ \<Rightarrow> ret ())"

end
