(* ===== verification/Service.thy ===== *)
theory Service
  imports Prelude
begin

text \<open>
  Programs that serve for ever, and what makes one safe. A loop is safe when each turn returns and
  keeps an invariant; an event loop gets that from its parts: a poll that reports events of
  different sources, a handler that leaves the other sources' events pending, and a closing step.
\<close>

text \<open>\<open>for (;;) m\<close>.\<close>

partial_function (option) forever :: "('s \<Rightarrow> (unit res \<times> 's) option) \<Rightarrow> 's \<Rightarrow> (unit res \<times> 's) option" where
  "forever m s = seqP m (forever m) s"

text \<open>One turn of an event loop; a failed poll reports None and skips the rest of the turn.\<close>

definition event_turn ::
  "('s, 'e list option) prog \<Rightarrow> ('e \<Rightarrow> ('s, unit) prog) \<Rightarrow> ('s, unit) prog \<Rightarrow> ('s, unit) prog" where
  "event_turn poll handle tick = bindP poll (\<lambda>r. case r of None \<Rightarrow> ret () | Some es \<Rightarrow> seqP (forP es handle) tick)"

section \<open>A loop that keeps an invariant\<close>

locale service_loop =
  fixes turn :: "('s, unit) prog" and inv :: "'s \<Rightarrow> bool"
  assumes turn_keeps: "inv s \<Longrightarrow> wp turn (\<lambda>_. inv) s"
begin

lemma turns: "inv s \<Longrightarrow> wp (forP is (\<lambda>_. turn)) (\<lambda>_. inv) s"
  by (rule wp_forP [where I = inv]) (simp_all add: turn_keeps)

text \<open>Every approximation of the endless loop that returned would have left the invariant.\<close>

lemma never_ends:
  assumes "inv s"
  shows "forever turn s = None"
proof (rule ccontr)
  assume "forever turn s \<noteq> None"
  then obtain r where "forever turn s = Some r" by auto
  then have "\<not> (turn = turn \<and> inv s)"
  proof (rule forever.raw_induct [where P = "\<lambda>m s r. \<not> (m = turn \<and> inv s)", rotated])
    fix loop m s r
    assume IH: "\<And>m s r. loop m s = Some r \<Longrightarrow> \<not> (m = turn \<and> inv s)" and run: "seqP m (loop m) s = Some r"
    show "\<not> (m = turn \<and> inv s)"
    proof
      assume m: "m = turn \<and> inv s"
      then obtain s' where "turn s = Some (Ret (), s')" "inv s'" using turn_keeps [of s] by (auto simp: wp_iff)
      then show False using m run IH [of turn s' r] by (simp add: run_simps)
    qed
  qed
  then show False using assms by simp
qed

end

section \<open>A batch of events\<close>

text \<open>\<open>pending s k e\<close>: the event \<open>e\<close> of the source \<open>k\<close> can be served in \<open>s\<close>.\<close>

locale batch_service =
  fixes handle :: "'e \<Rightarrow> ('s, unit) prog"
    and inv :: "'s \<Rightarrow> bool"
    and pending :: "'s \<Rightarrow> 'k \<Rightarrow> 'e \<Rightarrow> bool"
  assumes handle_keeps: "inv s \<Longrightarrow> pending s k e \<Longrightarrow>
      wp (handle e) (\<lambda>_ s'. inv s' \<and> (\<forall>k' e'. k' \<noteq> k \<longrightarrow> pending s k' e' \<longrightarrow> pending s' k' e')) s"
begin

lemma handle_first:
  assumes "inv s" and "distinct (k # ks)" and "list_all2 (pending s) (k # ks) (e # es)"
  shows "wp (handle e) (\<lambda>_ s'. inv s' \<and> distinct ks \<and> list_all2 (pending s') ks es) s"
proof -
  from assms(3) have k: "pending s k e" "list_all2 (pending s) ks es" by simp_all
  show ?thesis
  proof (rule wp_mono [OF handle_keeps [OF assms(1) k(1)]])
    fix s'
    assume s': "inv s' \<and> (\<forall>k' e'. k' \<noteq> k \<longrightarrow> pending s k' e' \<longrightarrow> pending s' k' e')"
    then have "pending s' x y" if "x \<in> set ks" "pending s x y" for x y
      using that assms(2) by auto
    then show "inv s' \<and> distinct ks \<and> list_all2 (pending s') ks es"
      using s' k(2) assms(2) by (auto simp: list_all2_conv_all_nth)
  qed
qed

lemma batch: "inv s \<Longrightarrow> distinct ks \<Longrightarrow> list_all2 (pending s) ks es \<Longrightarrow> wp (forP es handle) (\<lambda>_. inv) s"
proof (induction es arbitrary: ks s)
  case Nil
  then show ?case by (simp add: wp_ret)
next
  case (Cons e es)
  then obtain k ks' where ks: "ks = k # ks'" by (auto simp: list_all2_Cons2)
  show ?case
    unfolding forP.simps wp_seqP
    by (rule wp_mono [OF handle_first [OF Cons.prems [unfolded ks]]]) (use Cons.IH in blast)
qed

end

section \<open>An event loop\<close>

locale event_service = batch_service handle inv pending
  for handle :: "'e \<Rightarrow> ('s, unit) prog" and inv :: "'s \<Rightarrow> bool" and pending :: "'s \<Rightarrow> 'k \<Rightarrow> 'e \<Rightarrow> bool" +
  fixes poll :: "('s, 'e list option) prog" and tick :: "('s, unit) prog"
  assumes poll_keeps: "inv s \<Longrightarrow>
      wp poll (\<lambda>r s'. inv s' \<and> (\<forall>es. r = Some es \<longrightarrow> (\<exists>ks. distinct ks \<and> list_all2 (pending s') ks es))) s"
    and tick_keeps: "inv s \<Longrightarrow> wp tick (\<lambda>_. inv) s"
begin

lemma event_turn_keeps: "inv s \<Longrightarrow> wp (event_turn poll handle tick) (\<lambda>_. inv) s"
  unfolding event_turn_def wp_bindP
proof (rule wp_mono [OF poll_keeps])
  fix r s'
  assume "inv s' \<and> (\<forall>es. r = Some es \<longrightarrow> (\<exists>ks. distinct ks \<and> list_all2 (pending s') ks es))"
  then show "wp (case r of None \<Rightarrow> ret () | Some es \<Rightarrow> seqP (forP es handle) tick) (\<lambda>_. inv) s'"
    using wp_mono [OF batch tick_keeps] by (cases r) (auto simp: wp_ret wp_seqP)
qed

end

sublocale event_service \<subseteq> loop: service_loop "event_turn poll handle tick" inv
  by unfold_locales (rule event_turn_keeps)

end
