(* ===== verification/DmServer.thy ===== *)
theory DmServer
  imports DmEvents Service
begin

text \<open>
  The worker's event loop of \<open>moudles/server/dm_server.c\<close>: registering the listeners, then, for
  ever, waiting for a batch of events, dispatching each by the connection object it carries,
  and running the due timers.
\<close>

definition EPOLL_MAX_EVENT_NUM :: nat where "EPOLL_MAX_EVENT_NUM = 40960"
definition EPOLL_WAIT_TIMEOUT :: int where "EPOLL_WAIT_TIMEOUT = 40"

text \<open>\<open>struct arg_t\<close>: the listener table and its announced length.\<close>

record arg_t =
  lis_infs :: "lis_inf_t list"
  lis_num :: int

definition lis_at :: "lis_inf_t list \<Rightarrow> int \<Rightarrow> ('s, lis_inf_t) prog" where
  "lis_at infs i = (if 0 \<le> i \<and> i < int (length infs) then ret (infs ! nat i) else fault OutOfBounds)"

text \<open>
  Registering listener \<open>k\<close>: its object keeps the index in \<open>fd\<close>; the other fields stay as
  \<open>malloc\<close> left them (\<open>junk\<close>), \<open>data\<close> excepted.
\<close>

definition register_listener ::
  "'w kernel \<Rightarrow> req_t \<times> Timer \<Rightarrow> arg_t \<Rightarrow> int \<Rightarrow> int \<Rightarrow> (('w, 'a) worker_scheme, unit) prog" where
  "register_listener os junk args epoll_fd k = bindP (malloc_req os junk) (\<lambda>first_req. blockP
     [rput first_req (\<lambda>r. r\<lparr>r_fd := k\<rparr>),
      rput first_req (\<lambda>r. r\<lparr>r_data := NULL\<rparr>),
      bindP (lis_at (lis_infs args) k) (\<lambda>l.
        bindP (sys os (Epoll_add epoll_fd (l_fd l)
            \<lparr>ev_events = or EPOLLIN EPOLLET, ev_data = DPtr (the first_req)\<rparr>)) (\<lambda>r.
          whenP (rv r = -1) (perror os ''epoll_ctl error'')))])"

text \<open>The part of \<open>server_make\<close> before the loop: the epoll descriptor and the shared counters.\<close>

definition server_setup ::
  "'w kernel \<Rightarrow> req_t \<times> Timer \<Rightarrow> arg_t \<Rightarrow> (('w, 'a) worker_scheme, int \<times> shm_ptr) prog" where
  "server_setup os junk args =
     bindP (sys os (Epoll_create 100)) (\<lambda>epoll_fd.
       seqP (forP [0..lis_num args - 1] (register_listener os junk args (rv epoll_fd)))
         (bindP (create_get_shm os 66666) (\<lambda>sd. ret (rv epoll_fd, sd))))"

definition has_event :: "32 word \<Rightarrow> 32 word \<Rightarrow> bool" where
  "has_event tempev m \<longleftrightarrow> and tempev m \<noteq> 0"

text \<open>One event of a batch.\<close>

definition dispatch ::
  "'w kernel \<Rightarrow> arg_t \<Rightarrow> int \<Rightarrow> shm_ptr \<Rightarrow> epoll_event \<Rightarrow> (('w, 'a) worker_scheme, unit) prog" where
  "dispatch os args epoll_fd sd ev = (case ev_data ev of
       DFd _ \<Rightarrow> fault BadPtr
     | DPtr a \<Rightarrow> bindP (rget (Some a)) (\<lambda>req_data.
         if r_fd req_data \<le> lis_num args
         then bindP (lis_at (lis_infs args) (r_fd req_data)) (\<lambda>l. handle_accept os l epoll_fd sd)
         else if has_event (ev_events ev) EPOLLIN then handle_read os (Some a)
         else if has_event (ev_events ev) EPOLLOUT then handle_write os (Some a)
         else if has_event (ev_events ev) EPOLLHUP \<or> has_event (ev_events ev) EPOLLERR
         then seqP (printf os ''error, handle close'') (handle_close os (Some a))
         else printf os ''unknow events''))"

text \<open>The only timer callback of the server, \<open>handle_timeout\<close>, has an empty body.\<close>

definition handle_timeout :: "nat \<Rightarrow> ('a timers_scheme, unit) prog" where
  "handle_timeout cb = ret ()"

text \<open>One turn of the \<open>for(;;)\<close>: a failed wait skips the timers.\<close>

definition server_turn ::
  "'w kernel \<Rightarrow> arg_t \<Rightarrow> int \<Rightarrow> shm_ptr \<Rightarrow> (('w, 'a) worker_scheme, unit) prog" where
  "server_turn os args epoll_fd sd =
     bindP (sys os (Epoll_wait epoll_fd EPOLL_MAX_EVENT_NUM EPOLL_WAIT_TIMEOUT)) (\<lambda>a.
       if rv a = -1 then perror os ''epoll wait''
       else blockP
         [forP (take (nat (rv a)) (events_in a)) (dispatch os args epoll_fd sd),
          bindP (sys os (Proc Time)) (\<lambda>now. executeTimers handle_timeout (rv now))])"

definition server_for ::
  "'w kernel \<Rightarrow> arg_t \<Rightarrow> int \<Rightarrow> shm_ptr \<Rightarrow> (('w, 'a) worker_scheme, unit) prog" where
  "server_for os args epoll_fd sd = forever (server_turn os args epoll_fd sd)"

definition server_make :: "'w kernel \<Rightarrow> req_t \<times> Timer \<Rightarrow> arg_t \<Rightarrow> (('w, 'a) worker_scheme, unit) prog" where
  "server_make os junk args = bindP (server_setup os junk args) (\<lambda>(epoll_fd, sd).
     seqP (server_for os args epoll_fd sd)
       (seqP (forP [0..lis_num args - 1] (\<lambda>k. bindP (lis_at (lis_infs args) k) (\<lambda>l.
            bindP (sys os (Close (l_fd l))) (\<lambda>_. ret ()))))
          (bindP (sys os (Close epoll_fd)) (\<lambda>_. ret ()))))"

definition start_server :: "'w kernel \<Rightarrow> req_t \<times> Timer \<Rightarrow> lis_inf_t list \<Rightarrow> int \<Rightarrow> (('w, 'a) worker_scheme, unit) prog" where
  "start_server os junk infs n = server_make os junk \<lparr>lis_infs = infs, lis_num = n\<rparr>"

definition dmf_server_show_info :: "'w kernel \<Rightarrow> (('w, 'a) process_scheme, unit) prog" where
  "dmf_server_show_info os = blockP
     [printf os (''Dmfserver Moule version:0.0.2'' @ [CHR 0x0A, CHR 0x0A]),
      printf os (''|--------SERVER CONFIGURE--------'' @ [CHR 0x0A]),
      printf os (''|MAX_EVENT:'' @ show_int EPOLL_WAIT_TIMEOUT @ [CHR 0x0A])]"

end
