(* ===== verification/WorkerCalm.thy ===== *)
theory WorkerCalm
  imports DmServer
begin

text \<open>
  What the handlers of \<open>moudles/server/dm_events.c\<close> do between their changes of state: calm
  programs touch no object, timer, counter or registration of the worker, and return. The
  transfer loops are calm, stay inside their buffers, and terminate whatever the kernel
  delivers.
\<close>

section \<open>Calm programs\<close>

text \<open>
  \<open>calm v efd s s'\<close>: from \<open>s\<close> to \<open>s'\<close> the process touched none of its objects, timers and
  counters, kept every descriptor open and every registration with \<open>efd\<close>, and no connection
  request was added.
\<close>

definition calm :: "'w kview \<Rightarrow> int \<Rightarrow> ('w, 'a) worker_scheme \<Rightarrow> ('w, 'a) worker_scheme \<Rightarrow> bool" where
  "calm v efd s s' \<longleftrightarrow> reqs s' = reqs s \<and> brk s' = brk s \<and> ssls s' = ssls s \<and> shm s' = shm s \<and>
     tmem s' = tmem s \<and> heap s' = heap s \<and> opened v (world s) \<subseteq> opened v (world s') \<and>
     watched v (world s') efd = watched v (world s) efd \<and> backlog v (world s') \<le> backlog v (world s)"

definition fds_ok :: "'w kview \<Rightarrow> int \<Rightarrow> ('w, 'a) worker_scheme \<Rightarrow> bool" where
  "fds_ok v efd s \<longleftrightarrow> dom (watched v (world s) efd) \<subseteq> opened v (world s)"

text \<open>\<open>calmly v efd m\<close>: the program \<open>m\<close> returns, without a fault, and is calm.\<close>

definition calmly :: "'w kview \<Rightarrow> int \<Rightarrow> (('w, 'a) worker_scheme, 'b) prog \<Rightarrow> bool" where
  "calmly v efd m \<longleftrightarrow> (\<forall>s. fds_ok v efd s \<longrightarrow> wp m (\<lambda>_. calm v efd s) s)"

lemma calm_refl [simp]: "calm v efd s s"
  by (simp add: calm_def)

lemma calm_trans: "calm v efd s s' \<Longrightarrow> calm v efd s' s'' \<Longrightarrow> calm v efd s s''"
  by (auto simp: calm_def)

lemma calm_fds_ok: "calm v efd s s' \<Longrightarrow> fds_ok v efd s \<Longrightarrow> fds_ok v efd s'"
  by (auto simp: calm_def fds_ok_def)

named_theorems calm_intros \<open>programs that are calm\<close>

lemma calmly_ret [calm_intros]: "calmly v efd (ret a)"
  by (simp add: calmly_def wp_simps)

lemma calmly_bindP [calm_intros]:
  assumes "calmly v efd m" and "\<And>a. calmly v efd (f a)"
  shows "calmly v efd (bindP m f)"
  unfolding calmly_def
proof (intro allI impI)
  fix s :: "('a, 'b) worker_scheme"
  assume s: "fds_ok v efd s"
  have "wp (f a) (\<lambda>_. calm v efd s) s'" if c: "calm v efd s s'" for a s'
  proof (rule wp_mono)
    show "wp (f a) (\<lambda>_. calm v efd s') s'"
      using assms(2) calm_fds_ok [OF c s] by (simp add: calmly_def)
  qed (rule calm_trans [OF c])
  then show "wp (bindP m f) (\<lambda>_. calm v efd s) s"
    using assms(1) s by (auto simp: calmly_def wp_simps elim!: wp_mono)
qed

lemma calmly_seqP [calm_intros]: "calmly v efd m \<Longrightarrow> calmly v efd k \<Longrightarrow> calmly v efd (seqP m k)"
  unfolding seqP_def by (intro calm_intros)

lemma calmly_if [calm_intros]:
  "calmly v efd m \<Longrightarrow> calmly v efd k \<Longrightarrow> calmly v efd (if b then m else k)"
  by simp

lemma calmly_whenP [calm_intros]: "calmly v efd m \<Longrightarrow> calmly v efd (whenP b m)"
  by (simp add: whenP_def ifP_def calmly_ret)

text \<open>\<open>quiet\<close> calls: by the contract, descriptors and registrations stay as they are.\<close>

fun quiet :: "call \<Rightarrow> bool" where
  "quiet (Accept _) = False"
| "quiet Socket = False"
| "quiet (Open _ _) = False"
| "quiet (Epoll_create _) = False"
| "quiet (Close _) = False"
| "quiet (Epoll_add _ _ _) = False"
| "quiet (Epoll_mod _ _ _) = False"
| "quiet (Epoll_del _ _) = False"
| "quiet (Stdio _) = False"
| "quiet _ = True"

lemma quiet_same:
  assumes "kernel_ok os v" and "quiet c"
  shows "same_fds v w (snd (os c w))"
proof (cases c)
  case (Ssl d)
  then show ?thesis using kernel_okD [OF assms(1), of c w] by (cases d) simp_all
qed (use kernel_okD [OF assms(1), of c w] assms(2) in simp_all)

lemma calmly_sys [calm_intros]: "kernel_ok os v \<Longrightarrow> quiet c \<Longrightarrow> calmly v efd (sys os c)"
  using quiet_same [of os v c] by (auto simp: calmly_def wp_simps calm_def same_fds_def)

lemma calmly_perror [calm_intros]: "kernel_ok os v \<Longrightarrow> calmly v efd (perror os msg)"
  unfolding perror_def by (intro calm_intros) simp_all

lemma calmly_printf [calm_intros]: "kernel_ok os v \<Longrightarrow> calmly v efd (printf os msg)"
  unfolding printf_def by (intro calm_intros) simp_all

lemma calmly_socket [calm_intros]: "kernel_ok os v \<Longrightarrow> calmly v efd (sys os Socket)"
  unfolding calmly_def
proof (intro allI impI)
  fix s :: "('a, 'b) worker_scheme"
  assume "kernel_ok os v"
  then have "call_ok v Socket (world s) (fst (os Socket (world s))) (snd (os Socket (world s)))"
    by (rule kernel_okD)
  then show "wp (sys os Socket) (\<lambda>_. calm v efd s) s"
    by (auto simp: wp_simps calm_def split: if_splits)
qed

lemma calmly_client_socket [calm_intros]: "kernel_ok os v \<Longrightarrow> calmly v efd (client_socket os)"
  unfolding client_socket_def by (intro calm_intros) simp_all

lemma calmly_set_non_blocking [calm_intros]: "kernel_ok os v \<Longrightarrow> calmly v efd (set_non_blocking os fd)"
  unfolding set_non_blocking_def by (intro calm_intros) simp_all

text \<open>Running a calm program, seen from a state \<open>s\<close> reached calmly before.\<close>

lemma wp_calm:
  assumes "calmly v efd m" and "fds_ok v efd s" and "calm v efd s s1" and "\<And>a s'. calm v efd s s' \<Longrightarrow> Q a s'"
  shows "wp m Q s1"
proof (rule wp_mono)
  show "wp m (\<lambda>_. calm v efd s1) s1"
    using assms(1) calm_fds_ok [OF assms(3,2)] by (simp add: calmly_def)
qed (rule assms(4), rule calm_trans [OF assms(3)])

section \<open>The transfer loops\<close>

lemma read_loop_unfold:
  "wp (read_loop os client_fd cap rbuf total_read) Q s =
     wp (bindP (sys os (Read client_fd (cap - total_read))) (\<lambda>a.
     ifP (rv a = -1)
       (ret (if err a = EAGAIN \<or> err a = EWOULDBLOCK then RdAgain rbuf total_read else RdError (err a)))
       (ifP (rv a = 0) (ret RdClosed)
         (ifP (total_read + length (data_in a) > cap) (fault OutOfBounds)
           (read_loop os client_fd cap (write_at rbuf total_read (data_in a)) (total_read + nat (rv a))))))) Q s"
  by (simp add: wp_def read_loop.simps [of os client_fd cap rbuf total_read])

text \<open>
  Whatever the kernel delivers, the read loop returns, stays inside its buffer, and hands
  over at most \<open>cap - 1\<close> bytes: a request that fills the buffer is never delivered.
\<close>

definition read_ok :: "nat \<Rightarrow> rd_result \<Rightarrow> bool" where
  "read_ok cap r \<longleftrightarrow> (case r of RdAgain b n \<Rightarrow> length b = cap \<and> n < cap | RdError e \<Rightarrow> e \<noteq> EAGAIN | RdClosed \<Rightarrow> True)"

lemma read_loop_spec:
  assumes ok: "kernel_ok os v"
  shows "length rbuf = cap \<Longrightarrow> n \<le> cap \<Longrightarrow> calm v efd s0 s \<Longrightarrow>
    wp (read_loop os fd cap rbuf n) (\<lambda>r s'. calm v efd s0 s' \<and> read_ok cap r) s"
proof (induction "cap - n" arbitrary: n rbuf s rule: less_induct)
  case less
  let ?a = "fst (os (Read fd (cap - n)) (world s))" and ?w = "snd (os (Read fd (cap - n)) (world s))"
  let ?s = "s\<lparr>world := ?w, calls := (Read fd (cap - n), ?a) # calls s\<rparr>"
  have c: "call_ok v (Read fd (cap - n)) (world s) ?a ?w" by (rule kernel_okD [OF ok])
  have "calm v efd s ?s" using c by (simp add: calm_def same_fds_def)
  then have calm: "calm v efd s0 ?s" by (rule calm_trans [OF less.prems(3)])
  have lt: "n < cap" if "rv ?a \<noteq> 0" using c that less.prems(2) by (cases "n = cap") simp_all
  have rest: "wp (read_loop os fd cap (write_at rbuf n (data_in ?a)) (n + nat (rv ?a)))
      (\<lambda>r s'. calm v efd s0 s' \<and> read_ok cap r) ?s" if "rv ?a \<noteq> 0" "rv ?a \<noteq> -1"
  proof (rule less.hyps)
    show "cap - (n + nat (rv ?a)) < cap - n" using lt [OF that(1)] c that by (intro diff_less_mono2) simp_all
    show "length (write_at rbuf n (data_in ?a)) = cap" "n + nat (rv ?a) \<le> cap"
      using c that less.prems by auto
  qed (rule calm)
  show ?case
    using c less.prems calm lt rest
    by (subst read_loop_unfold) (auto simp: wp_simps read_ok_def EAGAIN_def EWOULDBLOCK_def)
qed

lemma write_loop_unfold:
  "wp (write_loop os client_fd wbuf data_size n) Q s = wp (ifP (n > 0)
     (bindP (sys os (Write client_fd (take (nat n) (drop (nat (data_size - n)) wbuf)))) (\<lambda>nwrite.
       ifP (rv nwrite < n)
         (ifP (rv nwrite = -1 \<and> err nwrite \<noteq> EAGAIN) (ret (WrError (err nwrite))) (ret (WrDone n)))
         (write_loop os client_fd wbuf data_size (n - rv nwrite))))
     (ret (WrDone n))) Q s"
  by (simp add: wp_def write_loop.simps [of os client_fd wbuf data_size n])

text \<open>
  The write loop makes one call of \<open>write\<close> at most: a kernel that takes part of the bytes ends
  it, and one that takes them all leaves nothing to send.
\<close>

lemma write_loop_once:
  assumes ok: "kernel_ok os v" and n: "0 < n" "nat n \<le> length wbuf"
  shows "write_loop os fd wbuf n n s = (case os (Write fd (take (nat n) wbuf)) (world s) of (a, w) \<Rightarrow>
     Some (Ret (if rv a = n then WrDone 0 else if rv a = -1 \<and> err a \<noteq> EAGAIN then WrError (err a) else WrDone n),
       s\<lparr>world := w, calls := (Write fd (take (nat n) wbuf), a) # calls s\<rparr>))"
  using kernel_okD [OF ok, of "Write fd (take (nat n) wbuf)" "world s"] n
  by (subst write_loop.simps) (auto simp: run_simps write_loop.simps [of _ _ _ _ 0] split: prod.splits)

lemma calmly_write_loop [calm_intros]:
  assumes ok: "kernel_ok os v" and "nat n \<le> length wbuf"
  shows "calmly v efd (write_loop os fd wbuf n n)"
  unfolding calmly_def
proof (intro allI impI)
  fix s :: "('a, 'b) worker_scheme"
  show "wp (write_loop os fd wbuf n n) (\<lambda>_. calm v efd s) s"
  proof (cases "0 < n")
    case True
    then show ?thesis
      using quiet_same [OF ok, of "Write fd (take (nat n) wbuf)" "world s"]
      by (auto simp: wp_def write_loop_once [OF ok True assms(2)] calm_def same_fds_def split: prod.splits)
  next
    case False
    then show ?thesis
      by (auto simp: wp_def write_loop.simps [of _ _ _ _ n] run_simps)
  qed
qed

lemma length_filled [simp]: "length (filled cap bs) = cap"
  by (simp add: filled_def)

lemma client_socket_spec:
  assumes ok: "kernel_ok os v" and s: "fds_ok v efd s"
  shows "wp (client_socket os) (\<lambda>r s'. calm v efd s s' \<and> (r \<noteq> -1 \<longrightarrow> r \<notin> opened v (world s))) s"
proof -
  have "wp (client_socket os) (\<lambda>_. calm v efd s) s"
    using calmly_client_socket [OF ok] s by (rule wp_calm) simp_all
  moreover have "wp (client_socket os) (\<lambda>r s'. r \<noteq> -1 \<longrightarrow> r \<notin> opened v (world s)) s"
    using kernel_okD [OF ok, of Socket "world s"] by (auto simp: client_socket_def wp_simps)
  ultimately show ?thesis by (rule wp_conj)
qed

lemma close_fresh:
  assumes ok: "kernel_ok os v" and s: "fds_ok v efd s" and c: "calm v efd s s'" and fd: "fd \<notin> opened v (world s)"
  shows "wp (sys os (Close fd)) (\<lambda>_. calm v efd s) s'"
proof -
  have "watched v (world s) efd fd = None" using s fd by (auto simp: fds_ok_def)
  then have "unwatch fd (watched v (world s')) efd = watched v (world s) efd"
    using c by (auto simp: calm_def unwatch_def)
  then show ?thesis
    using kernel_okD [OF ok, of "Close fd" "world s'"] c fd by (auto simp: wp_simps calm_def split: if_splits)
qed

text \<open>A round trip to the back end opens one descriptor and closes it again; a failed connect leaks it.\<close>

lemma backend_exchange_spec:
  assumes ok: "kernel_ok os v" and s: "fds_ok v efd s" and n: "0 \<le> n" "n \<le> int (length buffer)"
  shows "wp (backend_exchange os buffer n) (\<lambda>r s'. calm v efd s s' \<and>
     (case r of None \<Rightarrow> True | Some (len, b) \<Rightarrow> length b = 4096 \<and> -1 \<le> len \<and> len \<le> 4096)) s"
  (is "wp _ ?Q s")
proof -
  have recv: "wp (bindP (sys os (Recv fd 4096)) (\<lambda>recv. bindP (sys os (Close fd)) (\<lambda>_.
         ret (Some (rv recv, if rv recv = -1 then replicate 4096 NUL else filled 4096 (data_in recv)))))) ?Q s'"
    if fd: "fd \<notin> opened v (world s)" and c: "calm v efd s s'" for s' fd
  proof -
    let ?c = "Recv fd 4096" and ?a = "fst (os (Recv fd 4096) (world s'))"
    let ?s = "s'\<lparr>world := snd (os ?c (world s')), calls := (?c, ?a) # calls s'\<rparr>"
    have "calm v efd s' ?s"
      using quiet_same [OF ok, of ?c "world s'"] by (simp add: calm_def same_fds_def)
    then have "wp (sys os (Close fd)) (\<lambda>_. calm v efd s) ?s"
      using close_fresh [OF ok s _ fd] calm_trans [OF c] by blast
    then show ?thesis
      unfolding wp_bindP wp_sys [of os ?c] using kernel_okD [OF ok, of ?c "world s'"]
      by (auto simp: wp_ret elim!: wp_mono)
  qed
  show ?thesis
    unfolding backend_exchange_def wp_bindP
  proof (rule wp_mono [OF client_socket_spec [OF ok s]])
    fix fd s'
    assume fd: "calm v efd s s' \<and> (fd \<noteq> -1 \<longrightarrow> fd \<notin> opened v (world s))"
    show "wp (if fd = -1 then seqP (printf os ''reverse target no response'') (ret None)
     else if n < 0 \<or> n > int (length buffer) then fault OutOfBounds
     else bindP (sys os (Send fd (take (nat n) buffer))) (\<lambda>send_len.
       seqP (whenP (rv send_len \<noteq> n) (printf os ''send length < to send length''))
      (bindP (sys os (Recv fd 4096)) (\<lambda>recv.
       bindP (sys os (Close fd)) (\<lambda>_.
         ret (Some (rv recv, if rv recv = -1 then replicate 4096 NUL else filled 4096 (data_in recv)))))))) ?Q s'"
    proof (cases "fd = -1")
      case True
      then show ?thesis
        using fd wp_calm [OF calmly_printf [OF ok] s] by (simp add: wp_seqP wp_ret)
    next
      case False
      have "wp (sys os (Send fd (take (nat n) buffer))) (\<lambda>a. wp
         (whenP (rv a \<noteq> n) (printf os ''send length < to send length''))
         (\<lambda>_. wp (bindP (sys os (Recv fd 4096)) (\<lambda>recv. bindP (sys os (Close fd)) (\<lambda>_.
           ret (Some (rv recv, if rv recv = -1 then replicate 4096 NUL else filled 4096 (data_in recv)))))) ?Q)) s'"
        using fd False ok s
        by (intro wp_calm [OF _ s] recv calmly_sys calmly_whenP calmly_printf) auto
      then show ?thesis using False n by (simp add: wp_bindP wp_seqP')
    qed
  qed
qed

end
