(* ===== verification/WorkerInv.thy ===== *)
theory WorkerInv
  imports WorkerCalm
begin

text \<open>
  The invariant of a worker that serves plain HTTP and HTTP-proxy listeners, and its
  preservation by every handler: every registration of the worker's epoll instance carries a
  live object, of a listener or of an open connection registered under its own descriptor, no
  two registrations share an object, the timer list is well formed, and the ledger of accepted
  and closed connections balances. Each preservation lemma is total: the handler also
  returns, and meets no undefined behaviour.
\<close>

section \<open>The invariant\<close>

text \<open>The object of a listener keeps the listener's index in \<open>fd\<close>, and is registered with its descriptor.\<close>

definition listener_req :: "lis_inf_t list \<Rightarrow> int \<Rightarrow> req_t \<Rightarrow> bool" where
  "listener_req infs fd r \<longleftrightarrow> 0 \<le> r_fd r \<and> r_fd r < int (length infs) \<and> l_fd (infs ! nat (r_fd r)) = fd"

definition client_req :: "int \<Rightarrow> lis_inf_t list \<Rightarrow> int \<Rightarrow> req_t \<Rightarrow> bool" where
  "client_req efd infs fd r \<longleftrightarrow> r_fd r = fd \<and> int (length infs) < fd \<and> r_efd r = efd \<and>
     r_type r \<in> {HTTP, HTTP_PROXY} \<and> r_data r = NULL \<and> r_ssl r = 0 \<and> r_sd r = ShmAt"

definition reg_ok :: "int \<Rightarrow> lis_inf_t list \<Rightarrow> (addr \<Rightarrow> req_t option) \<Rightarrow> int \<Rightarrow> epoll_data \<Rightarrow> bool" where
  "reg_ok efd infs R fd d \<longleftrightarrow>
     (\<exists>a r. d = DPtr a \<and> R a = Some r \<and> (listener_req infs fd r \<or> client_req efd infs fd r))"

definition conns_ok :: "int \<Rightarrow> lis_inf_t list \<Rightarrow> int set \<Rightarrow> (int \<Rightarrow> epoll_data option) \<Rightarrow> (addr \<Rightarrow> req_t option) \<Rightarrow> bool" where
  "conns_ok efd infs Opn W R \<longleftrightarrow> {0..int (length infs)} \<subseteq> Opn \<and> dom W \<subseteq> Opn \<and>
     (\<forall>fd d. W fd = Some d \<longrightarrow> reg_ok efd infs R fd d) \<and> inj_on W (dom W)"

definition heap_ok :: "addr \<Rightarrow> (addr \<Rightarrow> req_t option) \<Rightarrow> (addr \<Rightarrow> Timer option) \<Rightarrow> bool" where
  "heap_ok b R M \<longleftrightarrow> finite (dom R) \<and> dom M = dom R \<and> (\<forall>a\<ge>b. R a = None)"

text \<open>Accepted minus closed minus allocated objects, modulo the counters' width.\<close>

definition ledger :: "shm_data_t \<Rightarrow> (addr \<Rightarrow> req_t option) \<Rightarrow> 32 word" where
  "ledger sh R = accept_num sh - close_num sh - of_nat (card (dom R))"

definition winv :: "'w kview \<Rightarrow> int \<Rightarrow> lis_inf_t list \<Rightarrow> 32 word \<Rightarrow> ('w, 'a) worker_scheme \<Rightarrow> bool" where
  "winv v efd infs L s \<longleftrightarrow>
     conns_ok efd infs (opened v (world s)) (watched v (world s) efd) (reqs s) \<and>
     heap_ok (brk s) (reqs s) (tmem s) \<and> (\<exists>ts. timer_list s ts) \<and> ledger (shm s) (reqs s) = L"

text \<open>The registrations outside \<open>F\<close> that were there stay as they were.\<close>

definition keeps :: "'w kview \<Rightarrow> int \<Rightarrow> int set \<Rightarrow> ('w, 'a) worker_scheme \<Rightarrow> ('w, 'a) worker_scheme \<Rightarrow> bool" where
  "keeps v efd F s s' \<longleftrightarrow> (\<forall>g d. g \<notin> F \<longrightarrow> watched v (world s) efd g = Some d \<longrightarrow>
     watched v (world s') efd g = Some d)"

lemma keeps_refl [simp]: "keeps v efd F s s"
  by (simp add: keeps_def)

lemma keeps_trans: "keeps v efd F s s' \<Longrightarrow> keeps v efd F s' s'' \<Longrightarrow> keeps v efd F s s''"
  by (auto simp: keeps_def)

lemma keeps_calm: "calm v efd s s' \<Longrightarrow> keeps v efd F s s'"
  by (auto simp: keeps_def calm_def)

lemma winv_fds: "winv v efd infs L s \<Longrightarrow> fds_ok v efd s"
  by (simp add: winv_def conns_ok_def fds_ok_def)

lemma winv_calm: "winv v efd infs L s \<Longrightarrow> calm v efd s s' \<Longrightarrow> winv v efd infs L s'"
  by (auto simp: winv_def calm_def conns_ok_def timer_list_def)

text \<open>A connection under service: descriptor \<open>fd\<close>, object \<open>a\<close> with content \<open>r\<close>.\<close>

definition serving :: "'w kview \<Rightarrow> int \<Rightarrow> lis_inf_t list \<Rightarrow> 32 word \<Rightarrow> int \<Rightarrow> addr \<Rightarrow> req_t
    \<Rightarrow> ('w, 'a) worker_scheme \<Rightarrow> bool" where
  "serving v efd infs L fd a r s \<longleftrightarrow> winv v efd infs L s \<and> watched v (world s) efd fd = Some (DPtr a) \<and>
     reqs s a = Some r \<and> client_req efd infs fd r"

lemma serving_calm: "serving v efd infs L fd a r s \<Longrightarrow> calm v efd s s' \<Longrightarrow> serving v efd infs L fd a r s'"
  using winv_calm by (fastforce simp: serving_def calm_def)

lemma serving_fds: "serving v efd infs L fd a r s \<Longrightarrow> fds_ok v efd s"
  by (auto simp: serving_def intro: winv_fds)

text \<open>What a handler of the registrations \<open>F\<close> guarantees of the state it leaves.\<close>

definition handled :: "'w kview \<Rightarrow> int \<Rightarrow> lis_inf_t list \<Rightarrow> 32 word \<Rightarrow> int set
    \<Rightarrow> ('w, 'a) worker_scheme \<Rightarrow> ('w, 'a) worker_scheme \<Rightarrow> bool" where
  "handled v efd infs L F s s' \<longleftrightarrow> winv v efd infs L s' \<and> keeps v efd F s s'"

lemma handled_refl: "winv v efd infs L s \<Longrightarrow> handled v efd infs L F s s"
  by (simp add: handled_def)

lemma handled_calm: "winv v efd infs L s \<Longrightarrow> calm v efd s s' \<Longrightarrow> handled v efd infs L F s s'"
  by (simp add: handled_def winv_calm keeps_calm)

lemma handled_trans: "handled v efd infs L F s s' \<Longrightarrow> handled v efd infs L F s' s'' \<Longrightarrow> handled v efd infs L F s s''"
  by (auto simp: handled_def intro: keeps_trans)

lemma handled_winv: "handled v efd infs L F s s' \<Longrightarrow> winv v efd infs L s'"
  by (simp add: handled_def)

lemma handled_fds: "handled v efd infs L F s s' \<Longrightarrow> fds_ok v efd s'"
  by (rule winv_fds [OF handled_winv])

lemma handled_then_calm: "handled v efd infs L F s s' \<Longrightarrow> calm v efd s' s'' \<Longrightarrow> handled v efd infs L F s s''"
  by (rule handled_trans [OF _ handled_calm [OF handled_winv]])

text \<open>A calm program after a handler, and a handler after another.\<close>

lemma wp_handled_calm:
  assumes "calmly v efd m" and "handled v efd infs L F s s1" and "\<And>a s'. handled v efd infs L F s s' \<Longrightarrow> Q a s'"
  shows "wp m Q s1"
  by (rule wp_calm [OF assms(1) handled_fds [OF assms(2)] calm_refl])
    (rule assms(3), rule handled_then_calm [OF assms(2)])

lemma handled_mono: "handled v efd infs L F s s' \<Longrightarrow> F \<subseteq> G \<Longrightarrow> handled v efd infs L G s s'"
  by (auto simp: handled_def keeps_def)

section \<open>Closing\<close>

lemma relinked_worker:
  fixes s :: "('w, 'a) worker_scheme"
  assumes "timers.more s' = timers.more s"
  shows "reqs s' = reqs s" "brk s' = brk s" "shm s' = shm s" "world s' = world s" "calls s' = calls s"
  using assms by (cases s; cases s'; simp)+

lemma relinked_dom: "relinked s s' \<Longrightarrow> dom (tmem s') = dom (tmem s)"
  unfolding relinked_def by (auto simp: dom_def) (metis map_option_is_None not_None_eq)+

lemma deleteTimer_frame:
  assumes "timer_list s ts"
  shows "wp (deleteTimer (Some a)) (\<lambda>_ s'. timers.more s' = timers.more s \<and> dom (tmem s') = dom (tmem s) \<and>
     (\<exists>ts'. timer_list s' ts' \<and> a \<notin> set ts')) s"
proof (rule wp_mono [OF deleteTimer_spec [OF assms]])
  fix s' :: "'a timers_scheme"
  assume "relinked s s' \<and> timer_list s' (delete_list (expire_of s) a ts)"
  moreover have "a \<notin> set (delete_list (expire_of s) a ts)"
    using assms by (simp add: delete_list_def timer_list_def)
  ultimately show "timers.more s' = timers.more s \<and> dom (tmem s') = dom (tmem s) \<and>
     (\<exists>ts'. timer_list s' ts' \<and> a \<notin> set ts')"
    by (auto simp: relinked_dom relinked_more)
qed

lemma card_release:
  assumes "finite (dom R)" and "R a = Some r"
  shows "of_nat (card (dom R)) = (1 :: 32 word) + of_nat (card (dom (R(a := None))))"
  using card.remove [OF assms(1), of a] assms(2) by (simp add: domI)

text \<open>The state that \<open>handle_close\<close> leaves: the object, its descriptor and its registration are gone.\<close>

lemma winv_closed:
  assumes inv: "serving v efd infs L fd a r s"
    and s': "reqs s' = (reqs s)(a := None)" "brk s' = brk s" "dom (tmem s') = dom (tmem s) - {a}"
      "shm s' = close_num_update (\<lambda>n. n + 1) (shm s)" "opened v (world s') = opened v (world s) - {fd}"
      "watched v (world s') efd = (watched v (world s) efd)(fd := None)" "timer_list s' ts"
  shows "handled v efd infs L {fd} s s'"
proof -
  let ?W = "watched v (world s) efd"
  from inv have i: "conns_ok efd infs (opened v (world s)) ?W (reqs s)" "heap_ok (brk s) (reqs s) (tmem s)"
      "ledger (shm s) (reqs s) = L" and a: "?W fd = Some (DPtr a)" "reqs s a = Some r" and c: "client_req efd infs fd r"
    by (auto simp: serving_def winv_def)
  have other: "d \<noteq> DPtr a" if "?W g = Some d" "g \<noteq> fd" for g d
    using i(1) that a(1) by (auto simp: conns_ok_def inj_on_def domI)
  have "reg_ok efd infs ((reqs s)(a := None)) g d" if "?W g = Some d" "g \<noteq> fd" for g d
    using i(1) that other [OF that] by (fastforce simp: conns_ok_def reg_ok_def)
  then have "conns_ok efd infs (opened v (world s) - {fd}) (?W(fd := None)) ((reqs s)(a := None))"
    using i(1) c by (auto simp: conns_ok_def client_req_def inj_on_def)
  moreover have "heap_ok (brk s) ((reqs s)(a := None)) (tmem s')"
    using i(2) s'(3) by (auto simp: heap_ok_def)
  moreover have "ledger (shm s') ((reqs s)(a := None)) = L"
    using i(2,3) card_release [of "reqs s" a r] a(2) s'(4) by (auto simp: ledger_def heap_ok_def)
  ultimately show ?thesis
    using s' by (auto simp: handled_def winv_def keeps_def)
qed

lemma perror_fds:
  assumes "kernel_ok os v"
  shows "opened v (snd (os (Perror m) w)) = opened v w" "watched v (snd (os (Perror m) w)) = watched v w"
    "opened v (snd (os (Printf m) w)) = opened v w" "watched v (snd (os (Printf m) w)) = watched v w"
  using quiet_same [OF assms, of "Perror m" w] quiet_same [OF assms, of "Printf m" w] by (auto simp: same_fds_def)

text \<open>The first two statements: the registration goes with the descriptor even when \<open>EPOLL_CTL_DEL\<close> fails.\<close>

lemma close_fd:
  assumes ok: "kernel_ok os v" and fd: "fd \<in> opened v (world s)"
  shows "wp (seqP (bindP (sys os (Epoll_del efd fd)) (\<lambda>r. whenP (rv r = -1) (perror os e)))
        (bindP (sys os (Close fd)) (\<lambda>r. whenP (rv r = -1) (perror os e')))) (\<lambda>_ s'.
     s' = s\<lparr>world := world s', calls := calls s'\<rparr> \<and> opened v (world s') = opened v (world s) - {fd} \<and>
     watched v (world s') efd = (watched v (world s) efd)(fd := None)) s"
proof -
  let ?c = "Epoll_del efd fd"
  let ?w = "snd (os ?c (world s))"
  have del: "call_ok v ?c (world s) (fst (os ?c (world s))) ?w" by (rule kernel_okD [OF ok])
  have close: "rv (fst (os (Close fd) w)) = 0" "opened v (snd (os (Close fd) w)) = opened v (world s) - {fd}"
      "watched v (snd (os (Close fd) w)) efd = (watched v w efd)(fd := None)"
    if "opened v w = opened v (world s)" for w
    using kernel_okD [OF ok, of "Close fd" w] that fd by (auto simp: unwatch_def split: if_splits)
  have "opened v ?w = opened v (world s)" "(watched v ?w efd)(fd := None) = (watched v (world s) efd)(fd := None)"
    using del by auto
  then show ?thesis
    by (simp add: wp_simps perror_fds [OF ok] close)
qed

lemma handle_close_spec:
  assumes ok: "kernel_ok os v" and inv: "serving v efd infs L fd a r s"
  shows "wp (handle_close os (Some a)) (\<lambda>_ s'. handled v efd infs L {fd} s s' \<and> reqs s' a = None \<and>
     watched v (world s') efd fd = None \<and> fd \<notin> opened v (world s')) s"
  (is "wp _ ?Q s")
proof -
  have a: "reqs s a = Some r" and r: "client_req efd infs fd r" and fd: "fd \<in> opened v (world s)"
    using inv by (auto simp: serving_def winv_def conns_ok_def)
  have rest: "wp (deleteTimer (Some a)) (\<lambda>_. wp (free_conn os (Some a)) ?Q)
      (s\<lparr>world := w, calls := cs, shm := close_num_update (\<lambda>n. n + 1) (shm s)\<rparr>)"
    if w: "opened v w = opened v (world s) - {fd}" "watched v w efd = (watched v (world s) efd)(fd := None)" for w cs
  proof -
    let ?s = "s\<lparr>world := w, calls := cs, shm := close_num_update (\<lambda>n. n + 1) (shm s)\<rparr>"
    obtain ts where "timer_list ?s ts" using inv by (auto simp: serving_def winv_def timer_list_def)
    then show ?thesis
    proof (rule wp_mono [OF deleteTimer_frame [of _ _ a]])
      fix s' :: "('a, 'b) worker_scheme"
      assume s': "timers.more s' = timers.more ?s \<and> dom (tmem s') = dom (tmem ?s) \<and> (\<exists>ts'. timer_list s' ts' \<and> a \<notin> set ts')"
      then obtain ts' where ts': "timer_list s' ts'" "a \<notin> set ts'" by blast
      note rel = relinked_worker [OF conjunct1 [OF s'], simplified]
      let ?f = "s'\<lparr>reqs := (reqs s)(a := None), tmem := (tmem s')(a := None)\<rparr>"
      have "timer_list ?f ts'" using ts' by (simp add: timer_list_def)
      have "handled v efd infs L {fd} s ?f"
        by (rule winv_closed [OF inv]) (use rel s' w \<open>timer_list ?f ts'\<close> in auto)
      then show "wp (free_conn os (Some a)) ?Q s'"
        using rel a r w by (simp add: free_conn_def wp_simps client_req_def)
    qed
  qed
  have start: "wp (handle_close os (Some a)) Q s = wp (seqP (bindP (sys os (Epoll_del efd fd)) (\<lambda>r. whenP (rv r = -1) (perror os ''epoll del error'')))
        (bindP (sys os (Close fd)) (\<lambda>r. whenP (rv r = -1) (perror os ''client close error''))))
      (\<lambda>_. wp (bindP (rget (Some a)) (\<lambda>req. count close_num_update (r_sd req))) (\<lambda>_. wp (deleteTimer (Some a)) (\<lambda>_. wp (free_conn os (Some a)) Q))) s" for Q
    using a r by (simp add: handle_close_def wp_rget wp_seqP' wp_ret' wp_bindP [of "rget _"] client_req_def)
  show ?thesis
    unfolding start
  proof (rule wp_mono [OF close_fd [OF ok fd, of efd]])
    fix s'
    assume s': "s' = s\<lparr>world := world s', calls := calls s'\<rparr> \<and> opened v (world s') = opened v (world s) - {fd} \<and>
      watched v (world s') efd = (watched v (world s) efd)(fd := None)"
    have "reqs s' = reqs s" "shm s' = shm s"
      by (subst conjunct1 [OF s'], simp)+
    moreover have "s'\<lparr>shm := x\<rparr> = s\<lparr>world := world s', calls := calls s', shm := x\<rparr>" for x
      by (subst conjunct1 [OF s'], simp)
    ultimately show "wp (bindP (rget (Some a)) (\<lambda>req. count close_num_update (r_sd req))) (\<lambda>_. wp (deleteTimer (Some a)) (\<lambda>_. wp (free_conn os (Some a)) ?Q)) s'"
      using rest [of "world s'" "calls s'"] s' a r by (simp add: wp_rget wp_bindP wp_count client_req_def)
  qed
qed

section \<open>Accepting\<close>

text \<open>A new object at \<open>brk s\<close>, registered under \<open>fd\<close> or not registered at all.\<close>

lemma winv_accepted:
  assumes inv: "winv v efd infs L s" and fd: "watched v (world s) efd fd = None" "int (length infs) < fd"
    and r: "client_req efd infs fd r"
    and s': "reqs s' = (reqs s)(brk s := Some r)" "tmem s' = (tmem s)(brk s := Some t)" "brk s' = Suc (brk s)"
      "shm s' = accept_num_update (\<lambda>n. n + 1) (shm s)" "heap s' = heap s"
    and w: "watched v (world s') efd = (watched v (world s) efd)(fd := Some (DPtr (brk s))) \<and>
        opened v (world s') = opened v (world s) \<and> fd \<in> opened v (world s) \<or>
      watched v (world s') efd = watched v (world s) efd \<and> opened v (world s) - {fd} \<subseteq> opened v (world s')"
  shows "handled v efd infs L {} s s'"
proof -
  let ?W = "watched v (world s) efd" and ?R = "(reqs s)(brk s := Some r)"
  from inv obtain ts where i: "conns_ok efd infs (opened v (world s)) ?W (reqs s)" "heap_ok (brk s) (reqs s) (tmem s)"
      "ledger (shm s) (reqs s) = L" "timer_list s ts"
    by (auto simp: winv_def)
  have new: "reqs s (brk s) = None" using i(2) by (auto simp: heap_ok_def)
  have keep: "reg_ok efd infs ?R g d" "d \<noteq> DPtr (brk s)" if "?W g = Some d" for g d
    using i(1) that new by (fastforce simp: conns_ok_def reg_ok_def)+
  have "conns_ok efd infs (opened v (world s')) (watched v (world s') efd) ?R"
    using w
  proof
    assume "watched v (world s') efd = ?W(fd := Some (DPtr (brk s))) \<and>
        opened v (world s') = opened v (world s) \<and> fd \<in> opened v (world s)"
    moreover have "inj_on (?W(fd := Some (DPtr (brk s)))) (insert fd (dom ?W))"
      using i(1) fd(1) by (auto simp: conns_ok_def inj_on_def dest: keep(2))
    moreover have "reg_ok efd infs ?R fd (DPtr (brk s))" using r by (auto simp: reg_ok_def)
    ultimately show ?thesis using i(1) keep(1) by (auto simp: conns_ok_def)
  next
    assume w: "watched v (world s') efd = ?W \<and> opened v (world s) - {fd} \<subseteq> opened v (world s')"
    moreover have "fd \<notin> dom ?W" "fd \<notin> {0..int (length infs)}" using fd by auto
    ultimately have "dom ?W \<subseteq> opened v (world s')" "{0..int (length infs)} \<subseteq> opened v (world s')"
      using i(1) unfolding conns_ok_def by blast+
    then show ?thesis using i(1) keep(1) w by (simp add: conns_ok_def)
  qed
  moreover have "heap_ok (Suc (brk s)) ?R ((tmem s)(brk s := Some t))"
    using i(2) by (auto simp: heap_ok_def)
  moreover have "ledger (accept_num_update (\<lambda>n. n + 1) (shm s)) ?R = L"
    using i(2,3) new by (auto simp: ledger_def heap_ok_def domIff)
  moreover have "tmem s (brk s) = None" using i(2) new by (metis heap_ok_def domIff)
  then have "brk s \<notin> set ts"
    using i(4) linked_alloc [of "tmem s" "heap s" ts NULL "brk s"] by (auto simp: timer_list_def)
  then have "timer_list s' ts"
    using i(4) s'(2,5)
    by (auto simp: timer_list_def)
  ultimately show ?thesis
    using s' w fd(1) by (auto simp: handled_def winv_def keeps_def)
qed

lemma accept_http_one_spec:
  assumes ok: "kernel_ok os v" "memory_ok os" and inv: "winv v efd infs L s"
    and fd: "watched v (world s) efd fd = None" "int (length infs) < fd" "fd \<in> opened v (world s)"
    and type: "type \<in> {HTTP, HTTP_PROXY}"
  shows "wp (accept_http_one os type efd ShmAt fd) (\<lambda>_ s'. handled v efd infs L {} s s' \<and>
     backlog v (world s') \<le> backlog v (world s)) s"
proof -
  let ?r = "zero_req\<lparr>r_fd := fd, r_efd := efd, r_type := type, r_sd := ShmAt\<rparr>"
  let ?c = "Epoll_add efd fd \<lparr>ev_events = or EPOLLIN EPOLLET, ev_data = DPtr (brk s)\<rparr>"
  let ?m = "Malloc ''req_t''"
  let ?w = "snd (os ?m (world s))"
  have r: "client_req efd infs fd ?r" using fd type by (auto simp: client_req_def zero_req_def)
  have m: "rv (fst (os ?m (world s))) \<noteq> 0" using ok(2) by (simp add: memory_ok_def)
  have w: "same_fds v (world s) ?w" by (rule quiet_same [OF ok(1)]) simp
  have c: "call_ok v ?c ?w (fst (os ?c ?w)) (snd (os ?c ?w))" by (rule kernel_okD [OF ok(1)])
  have cl: "opened v w - {fd} \<subseteq> opened v (snd (os (Close fd) w))" "backlog v (snd (os (Close fd) w)) \<le> backlog v w"
      "watched v w efd fd = None \<Longrightarrow> watched v (snd (os (Close fd) w)) efd = watched v w efd" for w
    using kernel_okD [OF ok(1), of "Close fd" w] by (auto simp: unwatch_def fun_eq_iff split: if_splits)
  have pe: "backlog v (snd (os (Perror e) w)) \<le> backlog v w" for e w
    using quiet_same [OF ok(1), of "Perror e" w] by (simp add: same_fds_def)
  have new: "handled v efd infs L {} s (s\<lparr>brk := Suc (brk s), tmem := (tmem s)(brk s := Some zero_timer),
      reqs := (reqs s)(brk s := Some ?r), shm := accept_num_update (\<lambda>n. n + 1) (shm s), world := w', calls := cs\<rparr>)"
    if "watched v w' efd = (watched v (world s) efd)(fd := Some (DPtr (brk s))) \<and>
        opened v w' = opened v (world s) \<and> fd \<in> opened v (world s) \<or>
      watched v w' efd = watched v (world s) efd \<and> opened v (world s) - {fd} \<subseteq> opened v w'" for w' cs
    by (rule winv_accepted [OF inv fd(1,2) r]) (use that in simp_all)
  let ?we = "snd (os ?c ?w)"
  let ?wp = "snd (os (Perror ''epoll_ctl add'') ?we)"
  let ?wc = "snd (os (Close fd) ?wp)"
  have failed: "watched v ?wc efd = watched v (world s) efd \<and> opened v (world s) - {fd} \<subseteq> opened v ?wc"
    if "rv (fst (os ?c ?w)) = -1"
  proof -
    have "watched v ?wp efd = watched v (world s) efd \<and> opened v ?wp = opened v (world s)"
      using c w that by (simp add: same_fds_def perror_fds [OF ok(1)])
    then show ?thesis using cl(1) [of ?wp] cl(3) [of ?wp] fd(1) by simp
  qed
  have added: "watched v ?we efd = (watched v (world s) efd)(fd := Some (DPtr (brk s))) \<and> opened v ?we = opened v (world s)"
    if "rv (fst (os ?c ?w)) \<noteq> -1"
    using c w that by (simp add: same_fds_def)
  have log: "backlog v ?we \<le> backlog v (world s)" using c w by (simp add: same_fds_def)
  have "backlog v ?wc \<le> backlog v (world s)"
    using cl(2) [of ?wp] pe [of "''epoll_ctl add''" ?we] log by (meson le_trans)
  with new failed added log show ?thesis
    unfolding accept_http_one_def memset_req_def malloc_req_def
    using m fd(3) by (simp add: wp_simps)
qed

lemma accept_http_loop_unfold:
  "wp (accept_http_loop os type serfd epoll_fd sd) Q s = wp (bindP (sys os (Accept serfd)) (\<lambda>a.
     ifP (rv a > 0)
       (bindP (set_non_blocking os (rv a)) (\<lambda>nb.
         ifP (nb = -1) (seqP (perror os ''set_non_blocking2'') (ret None))
           (seqP (accept_http_one os type epoll_fd sd (rv a))
             (accept_http_loop os type serfd epoll_fd sd))))
       (ret (Some a)))) Q s"
  by (simp add: wp_def accept_http_loop.simps [of os type serfd epoll_fd sd])

text \<open>The accept loop ends because every connection it takes was waiting.\<close>

lemma accept_http_loop_spec:
  assumes ok: "kernel_ok os v" "memory_ok os" and type: "type \<in> {HTTP, HTTP_PROXY}"
  shows "winv v efd infs L s \<Longrightarrow> wp (accept_http_loop os type serfd efd ShmAt) (\<lambda>_. handled v efd infs L {} s) s"
proof (induction "backlog v (world s)" arbitrary: s rule: less_induct)
  case less
  let ?a = "fst (os (Accept serfd) (world s))" and ?w = "snd (os (Accept serfd) (world s))"
  let ?s = "s\<lparr>world := ?w, calls := (Accept serfd, ?a) # calls s\<rparr>"
  have c: "call_ok v (Accept serfd) (world s) ?a ?w" by (rule kernel_okD [OF ok(1)])
  have calm: "calm v efd s ?s" using c by (auto simp: calm_def split: if_splits)
  note inv = winv_calm [OF less.prems calm] and first = handled_calm [OF less.prems calm]
  have one: "wp (accept_http_one os type efd ShmAt (rv ?a))
      (\<lambda>_. wp (accept_http_loop os type serfd efd ShmAt) (\<lambda>_. handled v efd infs L {} s)) s1"
    if s1: "calm v efd ?s s1" and pos: "rv ?a > 0" for s1
  proof -
    have i1: "winv v efd infs L s1" using winv_calm [OF inv s1] .
    have "rv ?a \<notin> opened v (world s)" "opened v ?w = insert (rv ?a) (opened v (world s))"
      "backlog v ?w < backlog v (world s)" using c pos by (auto split: if_splits)
    moreover have "dom (watched v (world s) efd) \<subseteq> opened v (world s)" "{0..int (length infs)} \<subseteq> opened v (world s)"
      using less.prems by (auto simp: winv_def conns_ok_def)
    ultimately have "rv ?a \<notin> dom (watched v (world s) efd)" "rv ?a \<notin> {0..int (length infs)}" by blast+
    then have fresh: "watched v (world s1) efd (rv ?a) = None" "int (length infs) < rv ?a" "rv ?a \<in> opened v (world s1)"
      and bl: "backlog v (world s1) < backlog v (world s)"
      using calm_trans [OF calm s1] s1 c pos unfolding calm_def by (auto simp: domIff split: if_splits)
    show ?thesis
    proof (rule wp_mono [OF accept_http_one_spec [OF ok i1 fresh type]])
      fix s2
      assume s2: "handled v efd infs L {} s1 s2 \<and> backlog v (world s2) \<le> backlog v (world s1)"
      have "handled v efd infs L {} s s2"
          using handled_trans [OF handled_then_calm [OF first s1]] s2 by blast
      moreover have "wp (accept_http_loop os type serfd efd ShmAt) (\<lambda>_. handled v efd infs L {} s2) s2"
        using less.hyps [of s2] s2 bl by (simp add: handled_def)
      ultimately show "wp (accept_http_loop os type serfd efd ShmAt) (\<lambda>_. handled v efd infs L {} s) s2"
        using handled_trans by (auto elim!: wp_mono)
    qed
  qed
  have failed: "wp (perror os ''set_non_blocking2'') (\<lambda>_. handled v efd infs L {} s) s1" if "calm v efd ?s s1" for s1
    by (rule wp_calm [OF calmly_perror [OF ok(1)] winv_fds [OF less.prems] calm_trans [OF calm that]])
      (rule handled_calm [OF less.prems])
  have "wp (set_non_blocking os (rv ?a)) (\<lambda>nb. wp (ifP (nb = -1) (seqP (perror os ''set_non_blocking2'') (ret None))
           (seqP (accept_http_one os type efd ShmAt (rv ?a)) (accept_http_loop os type serfd efd ShmAt)))
         (\<lambda>_. handled v efd infs L {} s)) ?s" if "rv ?a > 0"
    by (rule wp_calm [OF calmly_set_non_blocking [OF ok(1)] winv_fds [OF inv] calm_refl])
      (use one failed that in \<open>simp add: wp_simps\<close>)
  then show ?case
    using first by (subst accept_http_loop_unfold) (simp add: wp_bindP wp_sys wp_ifP wp_ret)
qed

lemma event_accept_http_spec:
  assumes ok: "kernel_ok os v" "memory_ok os" and type: "type \<in> {HTTP, HTTP_PROXY}"
    and inv: "winv v efd infs L s"
  shows "wp (event_accept_http os type serfd efd ShmAt) (\<lambda>_. handled v efd infs L {} s) s"
proof -
  have "wp (whenP b (printf os m)) (\<lambda>_. handled v efd infs L {} s) s'" if h: "handled v efd infs L {} s s'" for b m s'
    by (rule wp_handled_calm [OF calmly_whenP [OF calmly_printf [OF ok(1)]] h])
  then show ?thesis
    unfolding event_accept_http_def wp_bindP
    by (intro wp_mono [OF accept_http_loop_spec [OF ok type inv]]) (simp add: wp_ret split: option.split)
qed

section \<open>Reading, answering, proxying\<close>

lemma serving_count:
  assumes "serving v efd infs L fd a r s" and "accept_num sh = accept_num (shm s)" "close_num sh = close_num (shm s)"
  shows "serving v efd infs L fd a r (s\<lparr>shm := sh\<rparr>)"
  using assms by (auto simp: serving_def winv_def ledger_def timer_list_def)

lemma serving_handled: "serving v efd infs L fd a r s \<Longrightarrow> handled v efd infs L F s s"
  by (simp add: serving_def handled_refl)

lemma keeps_shm [simp]: "keeps v efd F (s\<lparr>shm := sh\<rparr>) s' = keeps v efd F s s'"
  by (simp add: keeps_def)

lemma handled_shm [simp]: "handled v efd infs L F (s\<lparr>shm := sh\<rparr>) s' = handled v efd infs L F s s'"
  by (simp add: handled_def)

text \<open>A connection is closed after a calm run.\<close>

lemma close_after:
  assumes ok: "kernel_ok os v" and inv: "serving v efd infs L fd a r s" and "calm v efd s s1"
  shows "wp (handle_close os (Some a)) (\<lambda>_. handled v efd infs L {fd} s) s1"
proof (rule wp_mono [OF handle_close_spec [OF ok serving_calm [OF inv assms(3)]]])
  have "handled v efd infs L {fd} s s1" using inv assms(3) by (auto simp: serving_def intro: handled_calm)
  then show "handled v efd infs L {fd} s s'" if "handled v efd infs L {fd} s1 s' \<and> reqs s' a = None \<and>
     watched v (world s') efd fd = None \<and> fd \<notin> opened v (world s')" for s'
    using handled_trans that by blast
qed

text \<open>Registering a connection anew, under the same object, changes nothing.\<close>

lemma rearm_spec:
  assumes ok: "kernel_ok os v" and inv: "serving v efd infs L fd a r s"
  shows "wp (bindP (sys os (Epoll_mod efd fd \<lparr>ev_events = e, ev_data = DPtr a\<rparr>)) (\<lambda>r.
     whenP (rv r = -1) (perror os m))) (\<lambda>_. handled v efd infs L {fd} s) s"
proof -
  let ?c = "Epoll_mod efd fd \<lparr>ev_events = e, ev_data = DPtr a\<rparr>"
  let ?s = "s\<lparr>world := snd (os ?c (world s)), calls := (?c, fst (os ?c (world s))) # calls s\<rparr>"
  have "calm v efd s ?s"
    using kernel_okD [OF ok, of ?c "world s"] inv by (auto simp: calm_def serving_def fun_eq_iff)
  then show ?thesis
    unfolding wp_bindP wp_sys
    by (intro wp_handled_calm [OF calmly_whenP [OF calmly_perror [OF ok]]])
      (use inv in \<open>auto simp: serving_def intro: handled_calm\<close>)
qed

lemma event_http_read_spec:
  assumes ok: "kernel_ok os v" and inv: "serving v efd infs L fd a r s"
  shows "wp (event_http_read os (Some a) fd efd) (\<lambda>_. handled v efd infs L {fd} s) s"
  unfolding event_http_read_def wp_bindP
proof (rule wp_mono [OF read_loop_spec [OF ok, where cap = 1024 and n = 0 and efd = efd and ?s0.0 = s]])
  fix res s1
  assume res: "calm v efd s s1 \<and> read_ok 1024 res"
  then have s1: "serving v efd infs L fd a r s1" and h: "handled v efd infs L {fd} s s1"
    using inv serving_calm [OF inv] by (auto simp: serving_def intro: handled_calm)
  have r: "reqs s1 a = Some r" "r_sd r = ShmAt" using s1 by (auto simp: serving_def client_req_def)
  let ?s = "s1\<lparr>shm := read_num_update (\<lambda>n. n + 1) (shm s1)\<rparr>"
  have s2: "serving v efd infs L fd a r ?s" by (rule serving_count [OF s1]) simp_all
  have close: "wp (handle_close os (Some a)) (\<lambda>_. handled v efd infs L {fd} s) ?s"
    by (rule wp_mono [OF close_after [OF ok s2 calm_refl]]) (use handled_trans [OF h] in simp)
  have arm: "wp (bindP (sys os (Epoll_mod efd fd \<lparr>ev_events = e, ev_data = DPtr a\<rparr>)) (\<lambda>r.
     whenP (rv r = -1) (perror os m))) (\<lambda>_. handled v efd infs L {fd} s) s3" if "calm v efd ?s s3" for e m s3
    by (rule wp_mono [OF rearm_spec [OF ok serving_calm [OF s2 that]]])
      (use handled_trans [OF h] handled_trans [OF handled_calm [OF _ that]] s2 in \<open>auto simp: serving_def\<close>)
  have print: "wp (printf os m) (\<lambda>_. wp (bindP (sys os (Epoll_mod efd fd \<lparr>ev_events = e, ev_data = DPtr a\<rparr>)) (\<lambda>r.
     whenP (rv r = -1) (perror os m'))) (\<lambda>_. handled v efd infs L {fd} s)) ?s" for m m' e
    by (rule wp_calm [OF calmly_printf [OF ok] serving_fds [OF s2] calm_refl]) (rule arm)
  show "wp (case res of
         RdError e \<Rightarrow>
           if e = ECONNRESET
           then seqP (bindP (rget (Some a)) (\<lambda>req. count read_num_update (r_sd req))) (handle_close os (Some a))
           else perror os ''unknow read error''
       | RdClosed \<Rightarrow> handle_close os (Some a)
       | RdAgain rbuf total_read \<Rightarrow> blockP
           [bindP (rget (Some a)) (\<lambda>req. count read_num_update (r_sd req)),
            whenP (c_str rbuf = [CHR 0x0A])
              (bindP (rget (Some a)) (\<lambda>req. bindP (the_shm (r_sd req)) (\<lambda>sd. printf os (stats_text sd)))),
            bindP (sys os (Epoll_mod efd fd
                \<lparr>ev_events = or EPOLLOUT EPOLLET, ev_data = DPtr (the (Some a))\<rparr>)) (\<lambda>r.
              whenP (rv r = -1) (perror os ''epoll_ctl error''))]) (\<lambda>_. handled v efd infs L {fd} s) s1"
  proof (cases res)
    case (RdAgain b n)
    then show ?thesis
      using r print arm [OF calm_refl] by (simp add: wp_seqP' wp_bindP [of "rget _"] wp_bindP [of "the_shm _"]
        wp_rget wp_count wp_the_shm wp_whenP wp_ret')
  next
    case (RdError e)
    then show ?thesis
      using r close wp_handled_calm [OF calmly_perror [OF ok] h]
      by (simp add: wp_seqP wp_bindP [of "rget _"] wp_rget wp_count)
  next
    case RdClosed
    then show ?thesis using close_after [OF ok inv] res by simp
  qed
qed simp_all

lemma event_http_write_spec:
  assumes ok: "kernel_ok os v" and inv: "serving v efd infs L fd a r s"
  shows "wp (event_http_write os (Some a) fd efd) (\<lambda>_ s'. serving v efd infs L fd a r s' \<and> handled v efd infs L {fd} s s') s"
  unfolding event_http_write_def wp_bindP
proof (rule wp_calm [OF calmly_write_loop [OF ok] serving_fds [OF inv] calm_refl])
  fix res s1
  assume c: "calm v efd s s1"
  have s1: "serving v efd infs L fd a r s1" using serving_calm [OF inv c] .
  then have r: "reqs s1 a = Some r" "r_sd r = ShmAt" by (auto simp: serving_def client_req_def)
  have h: "handled v efd infs L {fd} s s'" if "calm v efd s s'" for s'
    using inv that by (auto simp: serving_def intro: handled_calm)
  let ?s = "s1\<lparr>shm := write_num_update (\<lambda>n. n + 1) (shm s1)\<rparr>"
  have "serving v efd infs L fd a r ?s" by (rule serving_count [OF s1]) simp_all
  moreover from this have "handled v efd infs L {fd} s ?s"
    using h [OF c] by (auto simp: serving_def handled_def keeps_def)
  moreover have "wp (perror os m) (\<lambda>_ s'. serving v efd infs L fd a r s' \<and> handled v efd infs L {fd} s s') s1" for m
    by (rule wp_calm [OF calmly_perror [OF ok] serving_fds [OF inv] c]) (simp add: serving_calm [OF inv] h)
  ultimately show "wp (case res of
         WrError e \<Rightarrow> if e = EPIPE then perror os ''peer closed'' else perror os ''unknow write error''
       | WrDone _ \<Rightarrow> bindP (rget (Some a)) (\<lambda>req. count write_num_update (r_sd req)))
     (\<lambda>_ s'. serving v efd infs L fd a r s' \<and> handled v efd infs L {fd} s s') s1"
    using r by (simp add: wp_simps split: wr_result.split)
qed simp

lemma event_http_reverse_spec:
  assumes ok: "kernel_ok os v" and inv: "serving v efd infs L fd a r s"
  shows "wp (event_http_reverse os (Some a) fd efd) (\<lambda>_. handled v efd infs L {fd} s) s"
  unfolding event_http_reverse_def wp_bindP
proof (rule wp_mono [OF read_loop_spec [OF ok, where cap = 4096 and n = 0 and efd = efd and ?s0.0 = s]])
  fix res s1
  assume res: "calm v efd s s1 \<and> read_ok 4096 res"
  then have s1: "fds_ok v efd s1" using serving_fds [OF serving_calm [OF inv]] by blast
  have h: "handled v efd infs L {fd} s s'" if "calm v efd s s'" for s'
    using inv that by (auto simp: serving_def intro: handled_calm)
  have answer: "wp (write_loop os fd buf len len) (\<lambda>w. wp (case w of
           WrError e \<Rightarrow> perror os ''unknow write error''
         | WrDone _ \<Rightarrow> handle_close os (Some a)) (\<lambda>_. handled v efd infs L {fd} s)) s2"
    if "calm v efd s s2" "length buf = 4096" "len \<le> 4096" for s2 buf len
  proof (rule wp_calm [OF calmly_write_loop [OF ok] serving_fds [OF inv] that(1)])
    fix w s3
    assume s3: "calm v efd s s3"
    have "wp (perror os ''unknow write error'') (\<lambda>_. handled v efd infs L {fd} s) s3"
      by (rule wp_calm [OF calmly_perror [OF ok] serving_fds [OF inv] s3]) (rule h)
    then show "wp (case w of
           WrError e \<Rightarrow> perror os ''unknow write error''
         | WrDone _ \<Rightarrow> handle_close os (Some a)) (\<lambda>_. handled v efd infs L {fd} s) s3"
      using close_after [OF ok inv s3] by (cases w) simp_all
  qed (use that in simp)
  show "wp (case res of
         RdError e \<Rightarrow> perror os ''unknow read error''
       | RdClosed \<Rightarrow> handle_close os (Some a)
       | RdAgain buffer total_read \<Rightarrow>
           bindP (backend_exchange os buffer (int total_read)) (\<lambda>reply. case reply of
               None \<Rightarrow> ret ()
             | Some (recv_len, buffer) \<Rightarrow>
                 bindP (write_loop os fd buffer recv_len recv_len) (\<lambda>w. case w of
                     WrError e \<Rightarrow> perror os ''unknow write error''
                   | WrDone _ \<Rightarrow> handle_close os (Some a)))) (\<lambda>_. handled v efd infs L {fd} s) s1"
  proof (cases res)
    case (RdAgain buf n)
    have "wp (backend_exchange os buf (int n)) (\<lambda>reply. wp (case reply of
               None \<Rightarrow> ret ()
             | Some (recv_len, buffer) \<Rightarrow>
                 bindP (write_loop os fd buffer recv_len recv_len) (\<lambda>w. case w of
                     WrError e \<Rightarrow> perror os ''unknow write error''
                   | WrDone _ \<Rightarrow> handle_close os (Some a))) (\<lambda>_. handled v efd infs L {fd} s)) s1"
      by (rule wp_mono [OF backend_exchange_spec [OF ok s1]])
        (use res RdAgain in \<open>auto simp: read_ok_def wp_ret wp_bindP split: option.split
           intro: answer h calm_trans\<close>)
    then show ?thesis using RdAgain by (simp add: wp_bindP)
  next
    case (RdError e)
    then show ?thesis
      using wp_calm [OF calmly_perror [OF ok] serving_fds [OF inv], of s1] res h by simp
  next
    case RdClosed
    then show ?thesis using close_after [OF ok inv] res by simp
  qed
qed simp_all

section \<open>Dispatching\<close>

lemma handle_read_spec:
  assumes ok: "kernel_ok os v" and inv: "serving v efd infs L fd a r s"
  shows "wp (handle_read os (Some a)) (\<lambda>_. handled v efd infs L {fd} s) s"
  using event_http_read_spec [OF assms] event_http_reverse_spec [OF assms] inv
  by (auto simp: handle_read_def wp_simps serving_def client_req_def)

lemma handle_write_spec:
  assumes ok: "kernel_ok os v" and inv: "serving v efd infs L fd a r s"
  shows "wp (handle_write os (Some a)) (\<lambda>_. handled v efd infs L {fd} s) s"
proof -
  have "wp (handle_close os (Some a)) (\<lambda>_. handled v efd infs L {fd} s) s1"
    if "serving v efd infs L fd a r s1" "handled v efd infs L {fd} s s1" for s1
    by (rule wp_mono [OF close_after [OF ok that(1) calm_refl]]) (rule handled_trans [OF that(2)])
  then have "wp (event_http_write os (Some a) fd efd) (\<lambda>_. wp (handle_close os (Some a)) (\<lambda>_. handled v efd infs L {fd} s)) s"
    by (intro wp_mono [OF event_http_write_spec [OF assms]]) blast
  then show ?thesis
    using inv serving_handled [OF inv]
    by (auto simp: handle_write_def wp_simps serving_def client_req_def)
qed

text \<open>
  The TLS handlers do not keep this invariant. The descriptors of the TLS listeners of a table, and a
  kernel that has nothing to report of them, because no client connects to a TLS port: the batch is
  one of events of other descriptors. A table without TLS listeners needs no such kernel.
\<close>

definition tls_fds :: "lis_inf_t list \<Rightarrow> int set" where
  "tls_fds infs = set (map l_fd (filter (\<lambda>l. l_type l \<notin> {HTTP, HTTP_PROXY, TCP_PROXY}) infs))"

definition tls_idle :: "'w kernel \<Rightarrow> 'w kview \<Rightarrow> lis_inf_t list \<Rightarrow> bool" where
  "tls_idle os v infs \<longleftrightarrow> (\<forall>efd n t w. case os (Epoll_wait efd n t) w of (a, w') \<Rightarrow> rv a \<noteq> -1 \<longrightarrow>
     (\<exists>fds. distinct fds \<and> set fds \<inter> tls_fds infs = {} \<and>
       map (\<lambda>f. watched v w efd f) fds = map (\<lambda>e. Some (ev_data e)) (events_in a)))"

lemma tls_idleD:
  assumes "tls_idle os v infs" and "rv (fst (os (Epoll_wait efd n t) w)) \<noteq> -1"
  shows "\<exists>fds. distinct fds \<and> set fds \<inter> tls_fds infs = {} \<and>
    map (\<lambda>f. watched v w efd f) fds = map (\<lambda>e. Some (ev_data e)) (events_in (fst (os (Epoll_wait efd n t) w)))"
  using assms unfolding tls_idle_def case_prod_beta by blast

lemma tls_idle_plain:
  assumes "kernel_ok os v" and "tls_fds infs = {}"
  shows "tls_idle os v infs"
  unfolding tls_idle_def case_prod_beta
proof (intro allI impI)
  fix efd n t w
  assume "rv (fst (os (Epoll_wait efd n t) w)) \<noteq> -1"
  then show "\<exists>fds. distinct fds \<and> set fds \<inter> tls_fds infs = {} \<and>
     map (\<lambda>f. watched v w efd f) fds = map (\<lambda>e. Some (ev_data e)) (events_in (fst (os (Epoll_wait efd n t) w)))"
    using kernel_okD [OF assms(1), of "Epoll_wait efd n t" w] assms(2) by auto
qed

lemma handle_accept_spec:
  assumes "kernel_ok os v" "memory_ok os" and inv: "winv v efd infs L s" and "l_type l \<in> {HTTP, HTTP_PROXY, TCP_PROXY}"
  shows "wp (handle_accept os l efd ShmAt) (\<lambda>_. handled v efd infs L {} s) s"
  using event_accept_http_spec [OF assms(1,2) _ inv] handled_refl [OF inv] assms(4)
  by (auto simp: handle_accept_def wp_ret)

lemma dispatch_spec:
  assumes ok: "kernel_ok os v" "memory_ok os" and inv: "winv v efd infs L s" and plain: "fd \<notin> tls_fds infs"
    and reg: "watched v (world s) efd fd = Some (ev_data ev)"
  shows "wp (dispatch os \<lparr>lis_infs = infs, lis_num = int (length infs)\<rparr> efd ShmAt ev) (\<lambda>_. handled v efd infs L {fd} s) s"
proof -
  from inv reg have "reg_ok efd infs (reqs s) fd (ev_data ev)" by (auto simp: winv_def conns_ok_def)
  then obtain a r where a: "ev_data ev = DPtr a" "reqs s a = Some r"
    and kind: "listener_req infs fd r \<or> client_req efd infs fd r"
    by (auto simp: reg_ok_def)
  from kind show ?thesis
  proof
    assume r: "listener_req infs fd r"
    then have "infs ! nat (r_fd r) \<in> set infs" by (auto simp: listener_req_def intro: nth_mem)
    then have "wp (handle_accept os (infs ! nat (r_fd r)) efd ShmAt) (\<lambda>_. handled v efd infs L {} s) s"
      using handle_accept_spec [OF ok inv] plain r by (auto simp: tls_fds_def listener_req_def)
    then have "wp (handle_accept os (infs ! nat (r_fd r)) efd ShmAt) (\<lambda>_. handled v efd infs L {fd} s) s"
      by (rule wp_mono) (erule handled_mono, simp)
    then show ?thesis
      using a r by (simp add: dispatch_def wp_simps lis_at_def listener_req_def)
  next
    assume r: "client_req efd infs fd r"
    then have srv: "serving v efd infs L fd a r s" using inv reg a by (simp add: serving_def)
    have err: "wp (printf os m) (\<lambda>_. wp (handle_close os (Some a)) (\<lambda>_. handled v efd infs L {fd} s)) s" for m
      by (rule wp_calm [OF calmly_printf [OF ok(1)] serving_fds [OF srv] calm_refl]) (rule close_after [OF ok(1) srv])
    have unk: "wp (printf os m) (\<lambda>_. handled v efd infs L {fd} s) s" for m
      by (rule wp_handled_calm [OF calmly_printf [OF ok(1)] serving_handled [OF srv]])
    show ?thesis
      using a r handle_read_spec [OF ok(1) srv] handle_write_spec [OF ok(1) srv] err unk
      by (simp add: dispatch_def wp_bindP wp_rget wp_seqP client_req_def)
  qed
qed

section \<open>A turn of the loop\<close>

lemma silent_timeout: "silent handle_timeout (\<lambda>_ x. x)"
  by (simp add: silent_def handle_timeout_def ret_def)

lemma timers_spec:
  assumes inv: "winv v efd infs L s"
  shows "wp (executeTimers handle_timeout now) (\<lambda>_. winv v efd infs L) s"
proof -
  obtain ts where ts: "timer_list s ts" using inv by (auto simp: winv_def)
  have same: "fold (\<lambda>_ x. x) ys x = x" for ys x by (induction ys) simp_all
  show ?thesis
    unfolding executeTimers_def
  proof (rule wp_mono [OF execute_loop_spec [OF ts silent_timeout]])
    fix s'
    assume s': "timer_list s' (dropWhile (\<lambda>a. expire_of s a \<le> now) ts) \<and> tmem s' = tmem s \<and>
      timers.more s' = fold (\<lambda>_ x. x) (map (callback_of s) (takeWhile (\<lambda>a. expire_of s a \<le> now) ts)) (timers.more s)"
    then have "timers.more s' = timers.more s" by (simp add: same)
    then show "winv v efd infs L s'"
      using inv s' by (auto simp: winv_def relinked_worker [of s' s])
  qed
qed

text \<open>The parts of a turn: waiting for a batch, serving its events, running the timers.\<close>

definition worker_poll :: "'w kernel \<Rightarrow> int \<Rightarrow> (('w, 'a) worker_scheme, epoll_event list option) prog" where
  "worker_poll os epoll_fd = bindP (sys os (Epoll_wait epoll_fd EPOLL_MAX_EVENT_NUM EPOLL_WAIT_TIMEOUT)) (\<lambda>a.
     if rv a = -1 then seqP (perror os ''epoll wait'') (ret None) else ret (Some (take (nat (rv a)) (events_in a))))"

definition worker_tick :: "'w kernel \<Rightarrow> (('w, 'a) worker_scheme, unit) prog" where
  "worker_tick os = bindP (sys os (Proc Time)) (\<lambda>now. executeTimers handle_timeout (rv now))"

lemma server_turn_event:
  "server_turn os args efd sd = event_turn (worker_poll os efd) (dispatch os args efd sd) (worker_tick os)"
  by (rule ext) (simp add: server_turn_def event_turn_def worker_poll_def worker_tick_def perror_def sys_def run_simps
    split: prod.split option.split res.split)

definition args_of :: "lis_inf_t list \<Rightarrow> arg_t" where
  "args_of infs = \<lparr>lis_infs = infs, lis_num = int (length infs)\<rparr>"

lemma args_of_simps [simp]: "lis_infs (args_of infs) = infs" "lis_num (args_of infs) = int (length infs)"
  by (simp_all add: args_of_def)

text \<open>An event that can be served: the data of a registered descriptor, not that of a TLS listener.\<close>

definition due_event :: "'w kview \<Rightarrow> int \<Rightarrow> lis_inf_t list \<Rightarrow> ('w, 'a) worker_scheme \<Rightarrow> int \<Rightarrow> epoll_event \<Rightarrow> bool" where
  "due_event v efd infs s fd e \<longleftrightarrow> watched v (world s) efd fd = Some (ev_data e) \<and> fd \<notin> tls_fds infs"

text \<open>What a worker relies on: the kernel and its allocator, idle TLS ports, and its own invariant.\<close>

definition worker_inv ::
  "'w kernel \<Rightarrow> 'w kview \<Rightarrow> int \<Rightarrow> lis_inf_t list \<Rightarrow> 32 word \<Rightarrow> ('w, 'a) worker_scheme \<Rightarrow> bool" where
  "worker_inv os v efd infs L s \<longleftrightarrow> kernel_ok os v \<and> memory_ok os \<and> tls_idle os v infs \<and> winv v efd infs L s"

lemma dispatch_keeps:
  assumes "worker_inv os v efd infs L s" and "due_event v efd infs s fd ev"
  shows "wp (dispatch os (args_of infs) efd ShmAt ev) (\<lambda>_ s'. worker_inv os v efd infs L s' \<and>
     (\<forall>g e. g \<noteq> fd \<longrightarrow> due_event v efd infs s g e \<longrightarrow> due_event v efd infs s' g e)) s"
proof -
  from assms(1) have ok: "kernel_ok os v" "memory_ok os" "winv v efd infs L s" and idle: "tls_idle os v infs" by (simp_all add: worker_inv_def)
  have e: "fd \<notin> tls_fds infs" "watched v (world s) efd fd = Some (ev_data ev)" using assms(2) by (simp_all add: due_event_def)
  show ?thesis
    unfolding args_of_def
    by (rule wp_mono [OF dispatch_spec [OF ok e]]) (use ok idle in \<open>auto simp: worker_inv_def handled_def keeps_def due_event_def\<close>)
qed

text \<open>The batch that \<open>epoll_wait\<close> reports has at most one event per registered descriptor.\<close>

lemma worker_poll_spec:
  assumes "worker_inv os v efd infs L s"
  shows "wp (worker_poll os efd) (\<lambda>r s'. worker_inv os v efd infs L s' \<and> (\<forall>es. r = Some es \<longrightarrow>
     (\<exists>fds. distinct fds \<and> list_all2 (due_event v efd infs s') fds es))) s"
proof -
  let ?c = "Epoll_wait efd EPOLL_MAX_EVENT_NUM EPOLL_WAIT_TIMEOUT"
  let ?a = "fst (os ?c (world s))" and ?w = "snd (os ?c (world s))"
  let ?s = "s\<lparr>world := ?w, calls := (?c, ?a) # calls s\<rparr>"
  have ok: "kernel_ok os v" and inv: "winv v efd infs L s" and idle: "tls_idle os v infs" using assms by (simp_all add: worker_inv_def)
  have c: "call_ok v ?c (world s) ?a ?w" by (rule kernel_okD [OF ok])
  then have inv': "winv v efd infs L ?s" by (intro winv_calm [OF inv]) (simp add: calm_def same_fds_def)
  have fds: "\<exists>fds. distinct fds \<and> list_all2 (due_event v efd infs ?s) fds (take (nat (rv ?a)) (events_in ?a))"
    if good: "rv ?a \<noteq> -1"
  proof -
    obtain fds where fds: "distinct fds" "map (watched v ?w efd) fds = map (\<lambda>e. Some (ev_data e)) (events_in ?a)"
        "set fds \<inter> tls_fds infs = {}"
      using tls_idleD [OF idle good] c by (auto simp: same_fds_def)
    have n: "rv ?a = int (length (events_in ?a))" using c good by simp
    have len: "length fds = length (events_in ?a)" using fds(2) map_eq_imp_length_eq by blast
    have "watched v ?w efd (fds ! i) = Some (ev_data (events_in ?a ! i))" if "i < length fds" for i
      using arg_cong [OF fds(2), of "\<lambda>xs. xs ! i"] that len by simp
    moreover have "fds ! i \<notin> tls_fds infs" if "i < length fds" for i using fds(3) nth_mem [OF that] by blast
    ultimately show ?thesis using fds(1) n len by (intro exI [of _ fds]) (simp add: list_all2_conv_all_nth due_event_def)
  qed
  have safe: "worker_inv os v efd infs L ?s" using assms inv' by (simp add: worker_inv_def)
  have err: "wp (perror os m) (\<lambda>_. worker_inv os v efd infs L) ?s" for m
    by (rule wp_calm [OF calmly_perror [OF ok] winv_fds [OF inv'] calm_refl])
      (use assms winv_calm [OF inv'] in \<open>simp add: worker_inv_def\<close>)
  show ?thesis
  proof (cases "rv ?a = -1")
    case True
    show ?thesis
      unfolding worker_poll_def wp_bindP wp_sys [of os ?c] if_P [OF True] wp_seqP
    proof (rule wp_mono [OF err])
      show "wp (ret None) (\<lambda>r s'. worker_inv os v efd infs L s' \<and> (\<forall>es. r = Some es \<longrightarrow>
         (\<exists>fds. distinct fds \<and> list_all2 (due_event v efd infs s') fds es))) s'"
        if "worker_inv os v efd infs L s'" for s'
        unfolding wp_ret using that by simp
    qed
  next
    case False
    show ?thesis
      unfolding worker_poll_def wp_bindP wp_sys [of os ?c] if_not_P [OF False] wp_ret
      using safe fds [OF False] by simp
  qed
qed

lemma worker_tick_spec:
  assumes "worker_inv os v efd infs L s"
  shows "wp (worker_tick os) (\<lambda>_. worker_inv os v efd infs L) s"
proof -
  have ok: "kernel_ok os v" and inv: "winv v efd infs L s" using assms by (simp_all add: worker_inv_def)
  have "wp (sys os (Proc Time)) (\<lambda>now. wp (executeTimers handle_timeout (rv now)) (\<lambda>_. winv v efd infs L)) s"
    by (rule wp_calm [OF calmly_sys [OF ok] winv_fds [OF inv] calm_refl]) (auto intro: timers_spec winv_calm [OF inv])
  then have "wp (worker_tick os) (\<lambda>_. winv v efd infs L) s" by (simp add: worker_tick_def wp_bindP)
  then show ?thesis by (rule wp_mono) (use assms in \<open>simp add: worker_inv_def\<close>)
qed

text \<open>The worker is an event loop in the sense of \<open>Service\<close>.\<close>

interpretation wk: event_service "dispatch os (args_of infs) efd ShmAt" "worker_inv os v efd infs L"
  "due_event v efd infs" "worker_poll os efd" "worker_tick os" for os v efd infs L
  by unfold_locales (fact dispatch_keeps worker_poll_spec worker_tick_spec)+

end
