(* ===== verification/WorkerProps.thy ===== *)
theory WorkerProps
  imports WorkerInv
begin

text \<open>
  Properties of a worker process as a whole: \<open>server_setup\<close> establishes the invariant, every
  turn of the event loop keeps it, and the loop neither faults nor ends.
\<close>

section \<open>Setting up\<close>

text \<open>A listener's object at \<open>brk s\<close>, registered under the listener's descriptor or not at all.\<close>

lemma winv_registered:
  assumes inv: "winv v efd infs L s" and r: "listener_req infs fd r"
    and s': "reqs s' = (reqs s)(brk s := Some r)" "tmem s' = (tmem s)(brk s := Some t)" "brk s' = Suc (brk s)"
      "shm s' = shm s" "heap s' = heap s" "opened v (world s') = opened v (world s)"
    and w: "watched v (world s') efd = watched v (world s) efd \<or> watched v (world s) efd fd = None \<and>
      fd \<in> opened v (world s) \<and> watched v (world s') efd = (watched v (world s) efd)(fd := Some (DPtr (brk s)))"
  shows "winv v efd infs (L - 1) s'"
proof -
  let ?W = "watched v (world s) efd" and ?R = "(reqs s)(brk s := Some r)"
  from inv obtain ts where i: "conns_ok efd infs (opened v (world s)) ?W (reqs s)" "heap_ok (brk s) (reqs s) (tmem s)"
      "ledger (shm s) (reqs s) = L" "timer_list s ts"
    by (auto simp: winv_def)
  have new: "reqs s (brk s) = None" using i(2) by (auto simp: heap_ok_def)
  have keep: "reg_ok efd infs ?R g d" "d \<noteq> DPtr (brk s)" if "?W g = Some d" for g d
    using i(1) that new by (fastforce simp: conns_ok_def reg_ok_def)+
  have "conns_ok efd infs (opened v (world s)) (watched v (world s') efd) ?R"
    using w
  proof
    assume "watched v (world s') efd = ?W"
    then show ?thesis using i(1) keep(1) by (simp add: conns_ok_def)
  next
    assume w: "?W fd = None \<and> fd \<in> opened v (world s) \<and> watched v (world s') efd = ?W(fd := Some (DPtr (brk s)))"
    moreover have "inj_on (?W(fd := Some (DPtr (brk s)))) (insert fd (dom ?W))"
      using i(1) w by (auto simp: conns_ok_def inj_on_def dest: keep(2))
    moreover have "reg_ok efd infs ?R fd (DPtr (brk s))" using r by (auto simp: reg_ok_def)
    ultimately show ?thesis using i(1) keep(1) by (auto simp: conns_ok_def)
  qed
  moreover have "heap_ok (Suc (brk s)) ?R ((tmem s)(brk s := Some t))"
    using i(2) by (auto simp: heap_ok_def)
  moreover have "ledger (shm s) ?R = L - 1"
    using i(2,3) new by (auto simp: ledger_def heap_ok_def domIff)
  moreover have "tmem s (brk s) = None" using i(2) new by (metis heap_ok_def domIff)
  then have "brk s \<notin> set ts"
    using i(4) linked_alloc [of "tmem s" "heap s" ts NULL "brk s"] by (auto simp: timer_list_def)
  then have "timer_list s' ts"
    using i(4) s'(2,5) by (auto simp: timer_list_def)
  ultimately show ?thesis
    using s' by (auto simp: winv_def)
qed

lemma register_listener_spec:
  assumes ok: "kernel_ok os v" "memory_ok os" and inv: "winv v efd infs L s" and k: "0 \<le> k" "k < int (length infs)"
  shows "wp (register_listener os junk (args_of infs) efd k) (\<lambda>_. winv v efd infs (L - 1)) s"
proof -
  let ?m = "Malloc ''req_t''" and ?fd = "l_fd (infs ! nat k)" and ?r = "(fst junk)\<lparr>r_fd := k, r_data := NULL\<rparr>"
  let ?c = "Epoll_add efd ?fd \<lparr>ev_events = or EPOLLIN EPOLLET, ev_data = DPtr (brk s)\<rparr>"
  let ?w = "snd (os ?m (world s))"
  have m: "rv (fst (os ?m (world s))) \<noteq> 0" using ok(2) by (simp add: memory_ok_def)
  have w: "same_fds v (world s) ?w" by (rule quiet_same [OF ok(1)]) simp
  have c: "call_ok v ?c ?w (fst (os ?c ?w)) (snd (os ?c ?w))" by (rule kernel_okD [OF ok(1)])
  have r: "listener_req infs ?fd ?r" using k by (simp add: listener_req_def)
  have new: "winv v efd infs (L - 1) (s\<lparr>brk := Suc (brk s), tmem := (tmem s)(brk s := Some (snd junk)),
      reqs := (reqs s)(brk s := Some ?r), world := w', calls := cs\<rparr>)"
    if "opened v w' = opened v (world s)" "watched v w' efd = watched v (world s) efd \<or> watched v (world s) efd ?fd = None \<and>
      ?fd \<in> opened v (world s) \<and> watched v w' efd = (watched v (world s) efd)(?fd := Some (DPtr (brk s)))" for w' cs
    by (rule winv_registered [OF inv r]) (use that in simp_all)
  have reg: "opened v (snd (os ?c ?w)) = opened v (world s)"
    "watched v (snd (os ?c ?w)) efd = watched v (world s) efd \<or> watched v (world s) efd ?fd = None \<and>
      ?fd \<in> opened v (world s) \<and> watched v (snd (os ?c ?w)) efd = (watched v (world s) efd)(?fd := Some (DPtr (brk s)))"
    using c w by (auto simp: same_fds_def)
  show ?thesis
    unfolding register_listener_def malloc_req_def
    using m k reg new by (simp add: wp_simps lis_at_def args_of_def perror_fds [OF ok(1)])
qed

text \<open>A process about to serve: nothing registered, its memory consistent, its timer list well formed.\<close>

definition ready :: "'w kview \<Rightarrow> lis_inf_t list \<Rightarrow> ('w, 'a) worker_scheme \<Rightarrow> bool" where
  "ready v infs s \<longleftrightarrow> {0..int (length infs)} \<subseteq> opened v (world s) \<and>
     heap_ok (brk s) (reqs s) (tmem s) \<and> (\<exists>ts. timer_list s ts)"

lemma register_all_spec:
  assumes ok: "kernel_ok os v" "memory_ok os" and ks: "set ks \<subseteq> {0..<int (length infs)}"
  shows "winv v efd infs L s \<Longrightarrow>
    wp (forP ks (register_listener os junk (args_of infs) efd)) (\<lambda>_. winv v efd infs (L - of_nat (length ks))) s"
  using ks
proof (induction ks arbitrary: s L)
  case Nil
  then show ?case by (simp add: wp_ret)
next
  case (Cons k ks)
  have "wp (forP ks (register_listener os junk (args_of infs) efd)) (\<lambda>_. winv v efd infs (L - of_nat (length (k # ks)))) s'"
    if "winv v efd infs (L - 1) s'" for s' :: "('a, 'b) worker_scheme"
    using Cons.IH [OF that] Cons.prems(2) by (simp add: algebra_simps)
  then show ?case
    using Cons.prems by (simp add: wp_seqP) (rule wp_mono [OF register_listener_spec [OF ok]], auto)
qed

lemma server_setup_spec:
  assumes ok: "kernel_ok os v" "memory_ok os" and s: "ready v infs s"
    and efd: "rv (fst (os (Epoll_create 100) (world s))) \<noteq> -1"
  shows "wp (server_setup os junk (args_of infs)) (\<lambda>(efd, sd) s'.
     winv v efd infs (ledger (shm s) (reqs s) - of_nat (length infs)) s') s"
proof -
  let ?c = "Epoll_create 100"
  let ?e = "rv (fst (os ?c (world s)))" and ?w = "snd (os ?c (world s))"
  let ?s = "s\<lparr>world := ?w, calls := (?c, fst (os ?c (world s))) # calls s\<rparr>"
  let ?L = "ledger (shm s) (reqs s)"
  have c: "call_ok v ?c (world s) (fst (os ?c (world s))) ?w" by (rule kernel_okD [OF ok(1)])
  have inv: "winv v ?e infs ?L ?s"
    using c efd s by (auto simp: winv_def ready_def conns_ok_def timer_list_def)
  have shm: "calmly v ?e (create_get_shm os 66666 :: ('a, 'b) worker_scheme \<Rightarrow> _)"
    unfolding create_get_shm_def using ok(1) by (intro calm_intros) simp_all
  have fin: "wp (create_get_shm os 66666) (\<lambda>sd. wp (ret (?e, sd)) (\<lambda>(efd, sd) s'. winv v efd infs L s')) s'"
    if "winv v ?e infs L s'" for s' :: "('a, 'b) worker_scheme" and L
    by (rule wp_calm [OF shm winv_fds [OF that] calm_refl]) (simp add: wp_ret winv_calm [OF that])
  have "wp (forP [0..int (length infs) - 1] (register_listener os junk (args_of infs) ?e))
     (\<lambda>_. winv v ?e infs (?L - of_nat (length [0..int (length infs) - 1]))) ?s"
    by (rule register_all_spec [OF ok _ inv]) auto
  then have "wp (forP [0..int (length infs) - 1] (register_listener os junk (args_of infs) ?e))
     (\<lambda>_. wp (create_get_shm os 66666) (\<lambda>sd. wp (ret (?e, sd)) (\<lambda>(efd, sd) s'. winv v efd infs (?L - of_nat (length infs)) s'))) ?s"
    by (rule wp_mono) (auto intro: fin)
  then show ?thesis
    by (simp add: server_setup_def wp_bindP' wp_sys [of os ?c] wp_seqP')
qed

lemma setup_attached:
  assumes "server_setup os junk args s = Some (Ret (efd, sd), s')"
    and "\<And>x w. rv (fst (os (Proc (Shmat x)) w)) \<notin> {0, -1}"
  shows "sd = ShmAt"
  using assms(1) assms(2)
  by (auto simp: server_setup_def run_simps create_get_shm_def perror_def split: option.splits prod.splits res.splits if_splits)

section \<open>Running\<close>

lemma turns_spec:
  assumes "kernel_ok os v" "memory_ok os" "tls_idle os v infs" "winv v efd infs L s"
  shows "wp (forP (replicate n ()) (\<lambda>_. server_turn os (args_of infs) efd ShmAt)) (\<lambda>_. winv v efd infs L) s"
  unfolding server_turn_event
  by (rule wp_mono [OF wk.loop.turns [of os v efd infs L]]) (use assms in \<open>auto simp: worker_inv_def\<close>)

lemma server_for_never_ends:
  assumes "kernel_ok os v" "memory_ok os" "tls_idle os v infs" "winv v efd infs L s"
  shows "server_for os (args_of infs) efd ShmAt s = None"
  unfolding server_for_def server_turn_event
  by (rule wk.loop.never_ends [of os v efd infs L]) (use assms in \<open>simp add: worker_inv_def\<close>)

section \<open>A concrete worker\<close>

text \<open>Two listeners on descriptors 3 and 4, on the kernel of \<open>sim_os\<close>, with two clients waiting.\<close>

definition ex_infs :: "lis_inf_t list" where
  "ex_infs = [\<lparr>l_ip = ''0.0.0.0'', l_port = 8080, l_fd = 3, l_type = HTTP\<rparr>,
     \<lparr>l_ip = ''0.0.0.0'', l_port = 8081, l_fd = 4, l_type = HTTP_PROXY\<rparr>]"

definition ex_world :: sim where
  "ex_world = \<lparr>sim_open = [0, 1, 2, 3, 4], sim_watch = (\<lambda>_ _. None), sim_waiting = 2,
     sim_chunks = [''GET / HTTP/1.1'', CRLF @ CRLF], sim_batches = [[(EPOLLIN, 3)], [(EPOLLIN, 6), (EPOLLIN, 7)], [(EPOLLOUT, 6)]]\<rparr>"

definition ex_worker :: "(sim, unit) worker_scheme" where
  "ex_worker = \<lparr>heap = NULL, tmem = (\<lambda>_. None), world = ex_world, calls = [], reqs = (\<lambda>_. None), brk = 100,
     ssls = {}, shm = \<lparr>accept_mutex = 0, accept_num = 0, read_num = 0, write_num = 0, close_num = 0\<rparr>, g_ctx = 0\<rparr>"

lemma ex_ready: "ready sim_view ex_infs ex_worker"
  by (auto simp: ready_def ex_infs_def ex_worker_def ex_world_def sim_view_def heap_ok_def timer_list_def)

lemma ex_plain: "tls_fds ex_infs = {}"
  by (auto simp: tls_fds_def ex_infs_def)

lemma ex_idle: "tls_idle sim_os sim_view ex_infs"
  by (rule tls_idle_plain [OF sim_kernel_ok ex_plain])

text \<open>
  The table that \<open>main\<close> makes, with its two TLS listeners, here on descriptors 3 to 7; and a kernel that never
  reports anything of the descriptors \<open>F\<close>.
\<close>

definition main_table :: "lis_inf_t list" where
  "main_table = map (\<lambda>(fd, t). \<lparr>l_ip = [], l_port = 0, l_fd = fd, l_type = t\<rparr>)
     [(3, HTTP), (4, HTTPS), (5, HTTP_PROXY), (6, HTTPS_PROXY), (7, TCP_PROXY)]"

definition deaf :: "int set \<Rightarrow> sim kernel" where
  "deaf F c w = sim_os c (w\<lparr>sim_batches := map (filter (\<lambda>(_, f). f \<notin> F)) (sim_batches w)\<rparr>)"

lemma deaf_ok: "kernel_ok (deaf F) sim_view"
  unfolding kernel_ok_def
proof (intro allI)
  fix c :: call and w :: sim
  let ?w = "w\<lparr>sim_batches := map (filter (\<lambda>(_, f). f \<notin> F)) (sim_batches w)\<rparr>"
  have "call_ok sim_view c ?w (fst (deaf F c w)) (snd (deaf F c w))"
    unfolding deaf_def by (rule kernel_okD [OF sim_kernel_ok])
  moreover have "call_ok sim_view c ?w a w' = call_ok sim_view c w a w'" for a w'
    by (induction sim_view c w a w' rule: call_ok.induct) (simp_all add: sim_view_def same_fds_def)
  ultimately show "call_ok sim_view c w (fst (deaf F c w)) (snd (deaf F c w))" by blast
qed

lemma deaf_memory_ok: "memory_ok (deaf F)"
  by (simp add: memory_ok_def deaf_def reply_def)

lemma deaf_idle: "tls_idle (deaf (tls_fds infs)) sim_view infs"
  unfolding tls_idle_def case_prod_beta
proof (intro allI impI)
  fix efd n t and w :: sim
  let ?c = "Epoll_wait efd n t"
  let ?bs = "map (filter (\<lambda>(_, f). f \<notin> tls_fds infs)) (sim_batches w)"
  show "\<exists>fds. distinct fds \<and> set fds \<inter> tls_fds infs = {} \<and>
     map (\<lambda>f. watched sim_view w efd f) fds = map (\<lambda>e. Some (ev_data e)) (events_in (fst (deaf (tls_fds infs) ?c w)))"
  proof (cases ?bs)
    case Nil
    then show ?thesis by (intro exI [of _ "[]"]) (simp add: deaf_def reply_def)
  next
    case (Cons b bs)
    then have "snd ` set b \<inter> tls_fds infs = {}" by (auto simp: map_eq_Cons_conv)
    moreover obtain fds where "distinct fds" "set fds \<subseteq> snd ` set b"
        "map (sim_watch w efd) fds = map (\<lambda>e. Some (ev_data e)) (sim_events (sim_watch w efd) n [] b)"
      using sim_events_ok [of "sim_watch w efd" n "[]" b] by auto
    ultimately show ?thesis
      using Cons by (intro exI [of _ fds]) (auto simp: deaf_def Let_def sim_view_def)
  qed
qed

lemma main_table_tls: "tls_fds main_table = {4, 6}"
  by (auto simp: tls_fds_def main_table_def)

lemma main_idle: "tls_idle (deaf {4, 6}) sim_view main_table"
  using deaf_idle [of main_table] by (simp add: main_table_tls)

definition ex_main_worker :: "(sim, unit) worker_scheme" where
  "ex_main_worker = ex_worker\<lparr>world := ex_world\<lparr>sim_open := [0, 1, 2, 3, 4, 5, 6, 7]\<rparr>\<rparr>"

lemma ex_main_ready: "ready sim_view main_table ex_main_worker"
  by (auto simp: ready_def main_table_def ex_main_worker_def ex_worker_def ex_world_def sim_view_def heap_ok_def timer_list_def)

section \<open>Properties\<close>

text \<open>
  C1: A worker whose descriptors \<open>0..n\<close> (\<open>n\<close> listeners) are open, \<open>epoll_create\<close> succeeding, sets up and then,
  with the counter segment attached and as long as no client connects to a TLS port (the kernel
  reports nothing of the TLS listeners the table may hold), serves for ever: set-up returns with the invariant established, any number of turns of
  the event loop returns and keeps it - whatever the kernel answers within its contract, no
  turn dereferences a bad pointer, frees twice, leaves an array or hangs - and so
  \<open>server_make\<close> neither returns nor faults.
\<close>

theorem server_make_serves_forever:
  assumes "kernel_ok os v" and "memory_ok os" and "tls_idle os v infs" and "ready v infs s"
    and "rv (fst (os (Epoll_create 100) (world s))) \<noteq> -1"
  shows "\<exists>efd sd s' L. server_setup os junk (args_of infs) s = Some (Ret (efd, sd), s') \<and> winv v efd infs L s' \<and>
     (sd = ShmAt \<longrightarrow>
       (\<forall>n. \<exists>s''. forP (replicate n ()) (\<lambda>_. server_turn os (args_of infs) efd sd) s' = Some (Ret (), s'') \<and>
          winv v efd infs L s'') \<and>
       server_make os junk (args_of infs) s = None)"
proof -
  from server_setup_spec [OF assms(1,2,4,5), of junk] obtain efd sd s' L
    where run: "server_setup os junk (args_of infs) s = Some (Ret (efd, sd), s')" and inv: "winv v efd infs L s'"
    by (auto simp: wp_iff)
  have "server_make os junk (args_of infs) s = None" if "sd = ShmAt"
    using run that server_for_never_ends [OF assms(1-3) inv] by (simp add: server_make_def run_simps)
  moreover have "\<exists>s''. forP (replicate n ()) (\<lambda>_. server_turn os (args_of infs) efd ShmAt) s' = Some (Ret (), s'') \<and>
      winv v efd infs L s''" for n
    using turns_spec [OF assms(1-3) inv, of n] by (auto simp: wp_iff)
  ultimately show ?thesis using run inv by blast
qed

theorem server_make_serves_forever_witness:
  "server_make (deaf {4, 6}) (zero_req, zero_timer) (args_of main_table) ex_main_worker = None"
proof -
  obtain efd sd s' L where run: "server_setup (deaf {4, 6}) (zero_req, zero_timer) (args_of main_table) ex_main_worker = Some (Ret (efd, sd), s')"
    and never: "sd = ShmAt \<Longrightarrow> server_make (deaf {4, 6}) (zero_req, zero_timer) (args_of main_table) ex_main_worker = None"
    using server_make_serves_forever [OF deaf_ok deaf_memory_ok main_idle ex_main_ready, of "(zero_req, zero_timer)"]
    by (auto simp: deaf_def reply_def sim_fresh_def ex_main_worker_def ex_worker_def ex_world_def)
  have "sd = ShmAt"
    by (rule setup_attached [OF run]) (simp add: deaf_def reply_def)
  with never show ?thesis by simp
qed

text \<open>A worker in the middle of its run: the two listeners and one client, descriptor 7, registered with instance 5.\<close>

definition ex_client :: req_t where
  "ex_client = zero_req\<lparr>r_fd := 7, r_efd := 5, r_type := HTTP, r_sd := ShmAt\<rparr>"

definition ex_serving :: "(sim, unit) worker_scheme" where
  "ex_serving = ex_worker\<lparr>world := ex_world\<lparr>sim_open := [7, 5, 0, 1, 2, 3, 4],
       sim_watch := (\<lambda>_ _. None)(5 := [3 \<mapsto> DPtr 100, 4 \<mapsto> DPtr 101, 7 \<mapsto> DPtr 102])\<rparr>,
     reqs := [100 \<mapsto> zero_req\<lparr>r_fd := 0\<rparr>, 101 \<mapsto> zero_req\<lparr>r_fd := 1\<rparr>, 102 \<mapsto> ex_client],
     tmem := [100 \<mapsto> zero_timer, 101 \<mapsto> zero_timer, 102 \<mapsto> zero_timer], brk := 103\<rparr>"

lemma ex_serving_inv: "serving sim_view 5 ex_infs (- 3) 7 102 ex_client ex_serving"
proof -
  have "dom [100 \<mapsto> zero_req\<lparr>r_fd := 0\<rparr>, 101 \<mapsto> zero_req\<lparr>r_fd := 1\<rparr>, 102 \<mapsto> ex_client] = {100, 101, 102 :: addr}" by auto
  then show ?thesis
    by (auto simp: serving_def winv_def conns_ok_def reg_ok_def heap_ok_def timer_list_def ledger_def inj_on_def
      listener_req_def client_req_def ex_serving_def ex_worker_def ex_world_def ex_infs_def ex_client_def sim_view_def zero_req_def
      split: if_splits)
qed

text \<open>
  C2: Serving one reported event, of a connection (plain or proxied, the only ones that the worker's
  invariant knows) or of any listener that is not a TLS one, returns without a fault, keeps the
  invariant, and leaves every other registration as it was: the events that follow
  in the batch still carry live objects (no use after free within a batch).
\<close>

theorem dispatch_keeps_batch:
  assumes "kernel_ok os v" and "memory_ok os" and "winv v efd infs L s"
    and "watched v (world s) efd fd = Some (ev_data ev)" and "fd \<notin> tls_fds infs"
  shows "\<exists>s'. dispatch os (args_of infs) efd ShmAt ev s = Some (Ret (), s') \<and> winv v efd infs L s' \<and>
     (\<forall>g d. g \<noteq> fd \<longrightarrow> watched v (world s) efd g = Some d \<longrightarrow> watched v (world s') efd g = Some d)"
  using dispatch_spec [OF assms(1,2,3,5,4)] by (simp add: wp_iff args_of_def handled_def keeps_def)

theorem dispatch_keeps_batch_witness:
  "\<exists>s'. dispatch sim_os (args_of ex_infs) 5 ShmAt \<lparr>ev_events = EPOLLIN, ev_data = DPtr 102\<rparr> ex_serving = Some (Ret (), s') \<and>
     winv sim_view 5 ex_infs (- 3) s' \<and> sim_watch (world s') 5 3 = Some (DPtr 100)"
  using dispatch_keeps_batch [OF sim_kernel_ok sim_memory_ok, of 5 ex_infs "- 3" ex_serving 7 "\<lparr>ev_events = EPOLLIN, ev_data = DPtr 102\<rparr>"]
    ex_serving_inv ex_plain
  by (auto simp: serving_def sim_view_def ex_serving_def)

text \<open>
  C9: The books balance, as long as no client connects to a TLS port (the kernel reports nothing of TLS
  listeners): over any number of turns the difference of the accept and close counters
  (at their 32 bits) moves by exactly the number of connection objects gained, so no object is
  freed without its close being counted, nor counted as closed while it lives.
\<close>

theorem connection_ledger:
  assumes "kernel_ok os v" and "memory_ok os" and "tls_idle os v infs" and "winv v efd infs L s"
    and "forP (replicate n ()) (\<lambda>_. server_turn os (args_of infs) efd ShmAt) s = Some (Ret (), s')"
  shows "accept_num (shm s') - close_num (shm s') =
     accept_num (shm s) - close_num (shm s) + of_nat (card (dom (reqs s'))) - of_nat (card (dom (reqs s)))"
proof -
  have "winv v efd infs L s'"
    using turns_spec [OF assms(1-4), of n] assms(5) by (simp add: wp_iff)
  with assms(4) show ?thesis by (simp add: winv_def ledger_def algebra_simps)
qed

theorem connection_ledger_witness:
  "\<exists>s'. forP (replicate 4 ()) (\<lambda>_. server_turn sim_os (args_of ex_infs) 5 ShmAt) ex_serving = Some (Ret (), s') \<and>
     accept_num (shm s') - close_num (shm s') = of_nat (card (dom (reqs s'))) - 3"
proof -
  have inv: "winv sim_view 5 ex_infs (- 3) ex_serving" using ex_serving_inv by (simp add: serving_def)
  obtain s' where s': "forP (replicate 4 ()) (\<lambda>_. server_turn sim_os (args_of ex_infs) 5 ShmAt) ex_serving = Some (Ret (), s')"
    using turns_spec [OF sim_kernel_ok sim_memory_ok ex_idle inv, of 4] by (auto simp: wp_iff)
  have "ledger (shm ex_serving) (reqs ex_serving) = - 3" using inv by (simp add: winv_def)
  then have "accept_num (shm ex_serving) - close_num (shm ex_serving) - of_nat (card (dom (reqs ex_serving))) = (- 3 :: 32 word)"
    by (simp add: ledger_def)
  moreover have "accept_num (shm s') - close_num (shm s') = (accept_num (shm ex_serving) - close_num (shm ex_serving)
      - of_nat (card (dom (reqs ex_serving)))) + of_nat (card (dom (reqs s')))"
    using connection_ledger [OF sim_kernel_ok sim_memory_ok ex_idle inv s'] by (simp only: diff_add_eq add_diff_eq diff_diff_eq2)
  ultimately have "accept_num (shm s') - close_num (shm s') = - 3 + of_nat (card (dom (reqs s')))" by (simp only:)
  with s' show ?thesis by simp
qed

text \<open>
  C12: Closing a plain connection returns and releases everything it holds: its object is freed,
  its descriptor closed, its registration and its timer gone; the invariant holds of what is left.
\<close>

theorem handle_close_releases:
  assumes "kernel_ok os v" and "serving v efd infs L fd a r s"
  shows "\<exists>s' ts. handle_close os (Some a) s = Some (Ret (), s') \<and> winv v efd infs L s' \<and>
     reqs s' a = None \<and> tmem s' a = None \<and> fd \<notin> opened v (world s') \<and> watched v (world s') efd fd = None \<and>
     timer_list s' ts \<and> a \<notin> set ts"
proof -
  obtain s' where s': "handle_close os (Some a) s = Some (Ret (), s')" "winv v efd infs L s'" "reqs s' a = None"
    "watched v (world s') efd fd = None" "fd \<notin> opened v (world s')"
    using handle_close_spec [OF assms] by (auto simp: wp_iff handled_def)
  moreover from s'(2,3) obtain ts where "timer_list s' ts" and "tmem s' a = None"
    by (auto simp: winv_def heap_ok_def domIff)
  moreover from this have "a \<notin> set ts"
    using linked_alloc [of "tmem s'" "heap s'" ts NULL a] by (auto simp: timer_list_def)
  ultimately show ?thesis by blast
qed

theorem handle_close_releases_witness:
  "\<exists>s'. handle_close sim_os (Some 102) ex_serving = Some (Ret (), s') \<and> reqs s' 102 = None \<and> 7 \<notin> set (sim_open (world s'))"
  using handle_close_releases [OF sim_kernel_ok ex_serving_inv] by (auto simp: sim_view_def)

text \<open>
  The listener test of the loop is off by one: an event of a connection whose descriptor equals
  the number of listeners is taken for a listener's, and the table is read past its end.
\<close>

theorem dispatch_off_by_one:
  assumes "reqs s a = Some r" and "r_fd r = int (length infs)" and "ev_data ev = DPtr a"
  shows "dispatch os (args_of infs) efd sd ev s = Some (Fault OutOfBounds, s)"
  using assms by (simp add: dispatch_def run_simps rget_def lis_at_def)

theorem dispatch_off_by_one_witness:
  "dispatch sim_os (args_of ex_infs) 5 ShmAt \<lparr>ev_events = EPOLLIN, ev_data = DPtr 102\<rparr>
     (ex_serving\<lparr>reqs := [102 \<mapsto> ex_client\<lparr>r_fd := 2\<rparr>]\<rparr>) =
   Some (Fault OutOfBounds, ex_serving\<lparr>reqs := [102 \<mapsto> ex_client\<lparr>r_fd := 2\<rparr>]\<rparr>)"
  by (rule dispatch_off_by_one [where r = "ex_client\<lparr>r_fd := 2\<rparr>"]) (simp_all add: ex_infs_def)

end
