(* ===== verification/EventProps.thy ===== *)
theory EventProps
  imports WorkerProps
begin

text \<open>
  Properties of the single handlers of \<open>moudles/server/dm_events.c\<close>: what they deliver, what they
  answer, and where they leave the language's rules.
\<close>

section \<open>Responses\<close>

lemma show_nat_629: "show_nat 629 = ''629''"
  by code_simp

text \<open>
  The fixed HTTP response is well formed: its \<open>Content-length\<close> is the length of the body that
  follows the blank line, and it holds no NUL, so \<open>strlen\<close> measures all of it.
\<close>

theorem send_buf_content_length:
  "\<exists>body. send_buf = ''HTTP/1.1 200 OK'' @ CRLF @ ''Content-type: text/html'' @ CRLF @ ''Content-length: ''
       @ show_nat (length body) @ CRLF @ ''Connection: close'' @ CRLF @ CRLF @ body \<and> c_str send_buf = send_buf"
proof (intro exI conjI)
  let ?body = "concat (replicate 9 (send_line @ [CHR 0x0A])) @ send_line"
  have "length send_line = 62" by (simp add: send_line_def)
  then have len: "length ?body = 629" by (simp add: length_concat map_replicate_const [symmetric] sum_list_replicate)
  have "send_header @ b = ''HTTP/1.1 200 OK'' @ CRLF @ ''Content-type: text/html'' @ CRLF @ ''Content-length: ''
       @ ''629'' @ CRLF @ ''Connection: close'' @ CRLF @ CRLF @ b" for b
    by (simp add: send_header_def)
  then show "send_buf = ''HTTP/1.1 200 OK'' @ CRLF @ ''Content-type: text/html'' @ CRLF @ ''Content-length: ''
       @ show_nat (length ?body) @ CRLF @ ''Connection: close'' @ CRLF @ CRLF @ ?body"
    unfolding len show_nat_629 send_buf_def .
  have "\<forall>c \<in> set send_header. c \<noteq> NUL" "\<forall>c \<in> set send_line. c \<noteq> NUL"
    by (simp_all add: send_header_def send_line_def CRLF_def)
  then show "c_str send_buf = send_buf"
    unfolding c_str_def takeWhile_eq_all_conv send_buf_def by auto
qed

section \<open>Reading a request\<close>

text \<open>The bytes delivered by the reads logged since \<open>s\<close>.\<close>

definition delivered :: "(call \<times> answer) list \<Rightarrow> string" where
  "delivered log = concat (map (\<lambda>(c, a). case c of Read _ _ \<Rightarrow> if rv a = -1 then [] else data_in a | _ \<Rightarrow> []) (rev log))"

lemma delivered_Cons: "delivered ((Read fd n, a) # log) = delivered log @ (if rv a = -1 then [] else data_in a)"
  by (simp add: delivered_def)

lemma write_at_end:
  "length (xs @ ys) \<le> cap \<Longrightarrow> write_at (xs @ replicate (cap - length xs) c) (length xs) ys = (xs @ ys) @ replicate (cap - length (xs @ ys)) c"
  by (simp add: write_at_def)

lemma read_loop_delivers:
  assumes ok: "kernel_ok os v"
  shows "length (delivered log) \<le> cap \<Longrightarrow> calls s = log @ calls s0 \<Longrightarrow>
    \<forall>c \<in> fst ` set log. \<exists>n. c = Read fd n \<Longrightarrow>
    wp (read_loop os fd cap (delivered log @ replicate (cap - length (delivered log)) NUL) (length (delivered log))) (\<lambda>r s'.
      \<exists>log. calls s' = log @ calls s0 \<and> (\<forall>c \<in> fst ` set log. \<exists>n. c = Read fd n) \<and>
        (\<forall>b n. r = RdAgain b n \<longrightarrow> n = length (delivered log) \<and> b = delivered log @ replicate (cap - n) NUL)) s"
proof (induction "cap - length (delivered log)" arbitrary: log s rule: less_induct)
  case less
  let ?d = "delivered log"
  let ?c = "Read fd (cap - length ?d)"
  let ?a = "fst (os ?c (world s))" and ?w = "snd (os ?c (world s))"
  let ?s = "s\<lparr>world := ?w, calls := (?c, ?a) # calls s\<rparr>" and ?log = "(?c, ?a) # log"
  have c: "call_ok v ?c (world s) ?a ?w" by (rule kernel_okD [OF ok])
  have logs: "calls ?s = ?log @ calls s0" "\<forall>c \<in> fst ` set ?log. \<exists>n. c = Read fd n"
    using less.prems by auto
  have rest: "wp (read_loop os fd cap (write_at (?d @ replicate (cap - length ?d) NUL) (length ?d) (data_in ?a))
        (length ?d + nat (rv ?a))) (\<lambda>r s'.
      \<exists>log. calls s' = log @ calls s0 \<and> (\<forall>c \<in> fst ` set log. \<exists>n. c = Read fd n) \<and>
        (\<forall>b n. r = RdAgain b n \<longrightarrow> n = length (delivered log) \<and> b = delivered log @ replicate (cap - n) NUL)) ?s"
    if "rv ?a \<noteq> -1" "rv ?a \<noteq> 0"
  proof -
    have d: "delivered ?log = ?d @ data_in ?a" and len: "length (data_in ?a) = nat (rv ?a)"
      using that c by (auto simp: delivered_Cons)
    have pos: "0 < nat (rv ?a)" and fits: "length ?d + nat (rv ?a) \<le> cap" using that c less.prems(1) by auto
    then have "cap - length (delivered ?log) < cap - length ?d" unfolding d by (simp add: len)
    then show ?thesis
      using less.hyps [of ?log ?s] logs fits len write_at_end [of ?d "data_in ?a" cap NUL] d by simp
  qed
  consider "rv ?a = -1" | "rv ?a = 0" | "rv ?a \<noteq> -1" "rv ?a \<noteq> 0" by blast
  then show ?case
  proof cases
    case 1
    then have "delivered ?log = ?d" by (simp add: delivered_Cons)
    with 1 logs show ?thesis
      by (subst read_loop_unfold) (auto simp: wp_simps intro!: exI [of _ ?log])
  next
    case 2
    with logs show ?thesis by (subst read_loop_unfold) (auto simp: wp_simps intro!: exI [of _ ?log])
  next
    case 3
    then have "length ?d + length (data_in ?a) \<le> cap" using c less.prems(1) by auto
    with 3 rest show ?thesis by (subst read_loop_unfold) (simp add: wp_simps)
  qed
qed

text \<open>
  C17: The read loop of both HTTP handlers is total and stays in its buffer whatever the kernel
  delivers: it returns, and a request it hands over is exactly the bytes the reads delivered,
  in order, zero-filled to the buffer's size, and strictly shorter than the buffer.
\<close>

theorem read_loop_collects:
  assumes "kernel_ok os v"
  shows "\<exists>r s' log. read_loop os fd cap (replicate cap NUL) 0 s = Some (Ret r, s') \<and> calls s' = log @ calls s \<and>
     (\<forall>c \<in> fst ` set log. \<exists>n. c = Read fd n) \<and>
     (\<forall>b n. r = RdAgain b n \<longrightarrow> n < cap \<and> n = length (delivered log) \<and> b = delivered log @ replicate (cap - n) NUL)"
proof -
  have d: "delivered [] = []" by (simp add: delivered_def)
  have "wp (read_loop os fd cap (replicate cap NUL) 0) (\<lambda>r s'. \<exists>log. calls s' = log @ calls s \<and>
      (\<forall>c \<in> fst ` set log. \<exists>n. c = Read fd n) \<and>
      (\<forall>b n. r = RdAgain b n \<longrightarrow> n = length (delivered log) \<and> b = delivered log @ replicate (cap - n) NUL)) s"
    using read_loop_delivers [OF assms, of "[]" cap s s fd] by (simp add: d)
  then have "wp (read_loop os fd cap (replicate cap NUL) 0) (\<lambda>r s'. (\<exists>log. calls s' = log @ calls s \<and>
      (\<forall>c \<in> fst ` set log. \<exists>n. c = Read fd n) \<and>
      (\<forall>b n. r = RdAgain b n \<longrightarrow> n = length (delivered log) \<and> b = delivered log @ replicate (cap - n) NUL)) \<and>
      calm v 0 s s' \<and> read_ok cap r) s"
    by (rule wp_conj) (rule read_loop_spec [OF assms], simp_all)
  then obtain r s' log where "read_loop os fd cap (replicate cap NUL) 0 s = Some (Ret r, s')" "calls s' = log @ calls s"
      "\<forall>c \<in> fst ` set log. \<exists>n. c = Read fd n" "read_ok cap r"
      "\<forall>b n. r = RdAgain b n \<longrightarrow> n = length (delivered log) \<and> b = delivered log @ replicate (cap - n) NUL"
    by (elim wpE) blast
  moreover from this have "\<forall>b n. r = RdAgain b n \<longrightarrow> n < cap" by (auto simp: read_ok_def)
  ultimately show ?thesis by blast
qed

theorem read_loop_collects_witness:
  "\<exists>r s' log. read_loop sim_os 7 1024 (replicate 1024 NUL) 0 ex_serving = Some (Ret r, s') \<and> calls s' = log @ calls ex_serving \<and>
     (\<forall>b n. r = RdAgain b n \<longrightarrow> n < 1024 \<and> n = length (delivered log) \<and> b = delivered log @ replicate (1024 - n) NUL)"
  using read_loop_collects [OF sim_kernel_ok, of 7 1024 ex_serving] by blast

text \<open>
  C36: A request that fills the 1024-byte buffer is never answered: the next read is asked for zero
  bytes, its answer 0 is taken for the client's close, and the connection is closed.
\<close>

theorem full_buffer_closes:
  assumes "kernel_ok os v" and "rv (fst (os (Read fd 1024) (world s))) = 1024"
  shows "\<exists>s' a. event_http_read os conn fd efd s = handle_close os conn s' \<and> reqs s' = reqs s \<and> shm s' = shm s \<and>
     calls s' = [(Read fd 0, a), (Read fd 1024, fst (os (Read fd 1024) (world s)))] @ calls s"
proof -
  have len: "length (data_in (fst (os (Read fd 1024) (world s)))) = 1024"
    using kernel_okD [OF assms(1), of "Read fd 1024" "world s"] assms(2) by simp
  have none: "rv (fst (os (Read fd 0) w)) = 0" for w
    using kernel_okD [OF assms(1), of "Read fd 0" w] by simp
  let ?w = "snd (os (Read fd 1024) (world s))"
  let ?s = "s\<lparr>world := snd (os (Read fd 0) ?w), calls := [(Read fd 0, fst (os (Read fd 0) ?w)),
    (Read fd 1024, fst (os (Read fd 1024) (world s)))] @ calls s\<rparr>"
  show ?thesis
    using assms(2) len none
    by (intro exI [of _ ?s]) (simp add: event_http_read_def run_simps read_loop.simps [of _ _ _ _ 0] read_loop.simps [of _ _ _ _ 1024])
qed

theorem full_buffer_closes_witness:
  "\<exists>s' a. event_http_read sim_os (Some 102) 7 5 (ex_serving\<lparr>world := ex_world\<lparr>sim_chunks := [replicate 1024 CHR ''x'']\<rparr>\<rparr>) =
       handle_close sim_os (Some 102) s' \<and> hd (calls s') = (Read 7 0, a)"
  using full_buffer_closes [OF sim_kernel_ok, of 7 "ex_serving\<lparr>world := ex_world\<lparr>sim_chunks := [replicate 1024 CHR ''x'']\<rparr>\<rparr>" "Some 102" 5]
  by (auto simp: sim_read_def ex_world_def)

text \<open>
  A request shorter than the buffer, delivered whole before the socket runs dry, is counted and
  the connection armed for writing with the same object; nothing else of the worker changes.
\<close>

theorem short_request_armed:
  assumes "reqs s a = Some r" and "r_sd r = ShmAt"
    and "os (Read fd 1024) (world s) = (a1, w1)" and "rv a1 = int (length (data_in a1))" and "0 < length (data_in a1)" "length (data_in a1) < 1024"
    and "os (Read fd (1024 - length (data_in a1))) w1 = (a2, w2)" and "rv a2 = -1" and "err a2 = EAGAIN"
    and "hd (data_in a1) \<noteq> CHR 0x0A"
  shows "\<exists>s' log e. event_http_read os (Some a) fd efd s = Some (Ret (), s') \<and>
     calls s' = log @ [(Epoll_mod efd fd \<lparr>ev_events = or EPOLLOUT EPOLLET, ev_data = DPtr a\<rparr>, e),
       (Read fd (1024 - length (data_in a1)), a2), (Read fd 1024, a1)] @ calls s \<and>
     (\<forall>c \<in> fst ` set log. \<exists>m. c = Perror m) \<and>
     reqs s' = reqs s \<and> tmem s' = tmem s \<and> shm s' = read_num_update (\<lambda>n. n + 1) (shm s)"
proof -
  let ?d = "data_in a1"
  obtain x xs where d: "?d = x # xs" "x \<noteq> CHR 0x0A" using assms(5,10) by (cases ?d) auto
  have "c_str (write_at (replicate 1024 NUL) 0 ?d) \<noteq> [CHR 0x0A]"
    by (simp add: c_str_def write_at_def d)
  then show ?thesis
    using assms(1-9) by (simp add: event_http_read_def run_simps read_loop.simps [of _ _ _ _ 0]
      read_loop.simps [of _ _ _ _ "length ?d"] rget_def count_def the_shm_def perror_def)
qed

theorem short_request_armed_witness:
  "\<exists>s'. event_http_read sim_os (Some 102) 7 5 (ex_serving\<lparr>world := ex_world\<lparr>sim_chunks := [''GET /'']\<rparr>\<rparr>) = Some (Ret (), s') \<and>
     shm s' = read_num_update (\<lambda>n. n + 1) (shm ex_serving)"
  using short_request_armed [of "ex_serving\<lparr>world := ex_world\<lparr>sim_chunks := [''GET /'']\<rparr>\<rparr>" 102 ex_client sim_os 7
    "\<lparr>rv = 5, err = 0, data_in = ''GET /'', events_in = []\<rparr>" "ex_world\<lparr>sim_chunks := []\<rparr>" "reply (-1) EAGAIN" "ex_world\<lparr>sim_chunks := []\<rparr>" 5]
  by (auto simp: ex_serving_def ex_client_def ex_world_def sim_read_def reply_def zero_req_def)

section \<open>Answering\<close>

lemma response_once:
  assumes "kernel_ok os v" and "reqs s a = Some r" and "r_sd r = ShmAt" and "os (Write fd send_buf) (world s) = (w, w1)"
  shows "\<exists>s' log. event_http_write os (Some a) fd efd s = Some (Ret (), s') \<and>
     calls s' = log @ (Write fd send_buf, w) # calls s \<and> (\<forall>c \<in> fst ` set log. \<exists>m. c = Perror m) \<and>
     shm s' = (if rv w = -1 \<and> err w \<noteq> EAGAIN then shm s else write_num_update (\<lambda>n. n + 1) (shm s))"
proof -
  have pos: "0 < int (length send_buf)" by (simp add: send_buf_def send_header_def)
  have "rv w \<noteq> int (length send_buf)" if "rv w = -1" using that pos by simp
  then show ?thesis
    using assms(2-4) write_loop_once [OF assms(1) pos, of send_buf fd s]
    by (auto simp: event_http_write_def run_simps rget_def count_def perror_def)
qed

text \<open>
  The response is offered to the kernel in a single \<open>write\<close>: the handler returns after one call,
  and counts the answer as written unless that call failed with an error other than \<open>EAGAIN\<close> -
  also when the kernel took only part of the bytes or none (they are never sent).
\<close>

theorem response_single_write:
  assumes "kernel_ok os v" and "reqs s a = Some r" and "r_sd r = ShmAt" and "os (Write fd send_buf) (world s) = (w, w1)"
  shows "\<exists>s' log. event_http_write os (Some a) fd efd s = Some (Ret (), s') \<and>
     calls s' = log @ (Write fd send_buf, w) # calls s \<and> (\<forall>c \<in> fst ` set log. \<exists>m. c = Perror m) \<and>
     shm s' = (if rv w = -1 \<and> err w \<noteq> EAGAIN then shm s else write_num_update (\<lambda>n. n + 1) (shm s))"
  using response_once [OF assms] .

theorem response_single_write_witness:
  "\<exists>s' log. event_http_write sim_os (Some 102) 7 5 ex_serving = Some (Ret (), s') \<and>
     calls s' = log @ (Write 7 send_buf, reply (int (length send_buf)) 0) # calls ex_serving \<and> write_num (shm s') = 1"
  using response_single_write [OF sim_kernel_ok, of ex_serving 102 ex_client 7 "reply (int (length send_buf)) 0" "world ex_serving" 5]
  by (auto simp: ex_serving_def ex_worker_def ex_client_def reply_def zero_req_def)

section \<open>TLS connections\<close>

text \<open>
  Closing a TLS connection dereferences NULL: the accept path for TLS never sets the object's
  \<open>sd\<close>, and \<open>handle_close\<close> counts the close through it, after the descriptor has been closed and
  before anything is freed.
\<close>

theorem tls_close_null_deref:
  assumes "reqs s a = Some r" and "r_sd r = ShmNull"
  shows "\<exists>s'. handle_close os (Some a) s = Some (Fault NullDeref, s') \<and> reqs s' = reqs s \<and>
     Close (r_fd r) \<in> fst ` set (calls s')"
  using assms by (auto simp: handle_close_def run_simps rget_def count_def perror_def)

theorem tls_close_null_deref_witness:
  "\<exists>s'. handle_close sim_os (Some 102) (ex_serving\<lparr>reqs := [102 \<mapsto> ex_client\<lparr>r_sd := ShmNull\<rparr>]\<rparr>) = Some (Fault NullDeref, s')"
  using tls_close_null_deref [of "ex_serving\<lparr>reqs := [102 \<mapsto> ex_client\<lparr>r_sd := ShmNull\<rparr>]\<rparr>" 102 "ex_client\<lparr>r_sd := ShmNull\<rparr>" sim_os]
  by auto

text \<open>
  Were the counters attached, closing a connection with a TLS object would free that object
  twice: once by \<open>SSL_free\<close>, once by the \<open>free\<close> after it.
\<close>

theorem tls_close_double_free:
  assumes "reqs s a = Some r" and "r_data r = NULL" and "r_ssl r \<noteq> 0" and "r_ssl r \<in> ssls s"
  shows "\<exists>s'. free_conn os (Some a) s = Some (Fault DoubleFree, s')"
  using assms by (simp add: free_conn_def run_simps rget_def free_req_def release_ssl_def)

theorem tls_close_double_free_witness:
  "\<exists>s'. free_conn sim_os (Some 102) (ex_serving\<lparr>reqs := [102 \<mapsto> ex_client\<lparr>r_ssl := 77\<rparr>], ssls := {77}\<rparr>) = Some (Fault DoubleFree, s')"
  by (rule tls_close_double_free [where r = "ex_client\<lparr>r_ssl := 77\<rparr>"]) (simp_all add: ex_client_def zero_req_def)

lemma ssl_accept_loop_unfold:
  "wp (ssl_accept_loop os ssl retryTimes) Q s = wp (bindP (sys os (Ssl (SSL_accept ssl))) (\<lambda>code.
     ifP (rv code \<le> 0 \<and> retryTimes < 100)
       (bindP (sys os (Ssl (SSL_get_error ssl (rv code)))) (\<lambda>e.
         ifP (rv e \<noteq> SSL_ERROR_WANT_READ)
           (bindP (sys os (Ssl (SSL_get_error ssl (rv code)))) (\<lambda>_.
             seqP (printf os ''ssl accept error'') (ret (rv code, retryTimes + 1))))
           (bindP (sys os (Proc Sleep)) (\<lambda>_. ssl_accept_loop os ssl (retryTimes + 1)))))
       (ret (rv code, if rv code \<le> 0 then retryTimes + 1 else retryTimes)))) Q s"
  by (simp add: wp_def ssl_accept_loop.simps [of os ssl retryTimes])

definition handshakes :: "(call \<times> answer) list \<Rightarrow> nat" where
  "handshakes log = length (filter (\<lambda>(c, a). case c of Ssl (SSL_accept _) \<Rightarrow> True | _ \<Rightarrow> False) log)"

lemma handshakes_Cons [simp]:
  "handshakes ((Ssl (SSL_accept p), a) # log) = Suc (handshakes log)"
  "handshakes ((Ssl (SSL_get_error p e), a) # log) = handshakes log"
  "handshakes ((Proc q, a) # log) = handshakes log"
  "handshakes ((Printf m, a) # log) = handshakes log"
  by (simp_all add: handshakes_def)

lemma ssl_accept_loop_spec:
  "0 \<le> r \<Longrightarrow> r \<le> 101 \<Longrightarrow> wp (ssl_accept_loop os ssl r) (\<lambda>(code, r') s'.
     r \<le> r' \<and> r' \<le> max 101 (r + 1) \<and> int (handshakes (calls s')) \<le> int (handshakes (calls s)) + max 1 (101 - r) \<and>
     reqs s' = reqs s \<and> ssls s' = ssls s \<and> brk s' = brk s \<and> tmem s' = tmem s) s"
proof (induction "nat (101 - r)" arbitrary: r s rule: less_induct)
  case less
  let ?c = "Ssl (SSL_accept ssl)"
  let ?w = "snd (os ?c (world s))" and ?code = "rv (fst (os ?c (world s)))"
  let ?e = "Ssl (SSL_get_error ssl ?code)"
  let ?s = "s\<lparr>world := snd (os (Proc Sleep) (snd (os ?e ?w))), calls := (Proc Sleep, fst (os (Proc Sleep) (snd (os ?e ?w)))) #
    (?e, fst (os ?e ?w)) # (?c, fst (os ?c (world s))) # calls s\<rparr>"
  have again: "wp (ssl_accept_loop os ssl (r + 1)) (\<lambda>(code, r') s'.
     r \<le> r' \<and> r' \<le> max 101 (r + 1) \<and> int (handshakes (calls s')) \<le> int (handshakes (calls s)) + max 1 (101 - r) \<and>
     reqs s' = reqs s \<and> ssls s' = ssls s \<and> brk s' = brk s \<and> tmem s' = tmem s) ?s" if "r < 100"
    by (rule wp_mono [OF less.hyps]) (use that less.prems in \<open>auto simp: split: prod.splits\<close>)
  show ?case
    using less.prems again by (subst ssl_accept_loop_unfold) (auto simp: wp_simps)
qed

text \<open>
  C34: The TLS handshake loop is bounded: from \<open>r\<close> retries on, it returns after at most \<open>101 - r\<close>
  handshake attempts (at least one), with at most 101 retries counted, and touches no object.
\<close>

theorem tls_handshake_bounded:
  assumes "0 \<le> r" and "r \<le> 100"
  shows "\<exists>code r' s'. ssl_accept_loop os ssl r s = Some (Ret (code, r'), s') \<and> r \<le> r' \<and> r' \<le> 101 \<and>
     int (handshakes (calls s')) \<le> int (handshakes (calls s)) + (101 - r) \<and> reqs s' = reqs s"
  using ssl_accept_loop_spec [of r os ssl s] assms by (auto simp: wp_iff)

theorem tls_handshake_bounded_witness:
  "\<exists>code r' s'. ssl_accept_loop sim_os 77 0 ex_serving = Some (Ret (code, r'), s') \<and> r' \<le> 101 \<and>
     int (handshakes (calls s')) \<le> int (handshakes (calls ex_serving)) + 101"
  using tls_handshake_bounded [of 0 sim_os 77 ex_serving] by auto

text \<open>
  All TLS connections accepted in one turn share one connection object: with two clients
  waiting, both descriptors are registered with the same object, which holds the second
  descriptor, no counters (\<open>sd\<close> is NULL) and no epoll descriptor (\<open>efd\<close> is 0).
\<close>

theorem tls_accept_shares_object:
  "\<exists>s' r. event_accept_https sim_os HTTPS 3 5 (ex_serving\<lparr>world := ex_world\<lparr>sim_open := [7, 5, 0, 1, 2, 3, 4],
         sim_watch := (\<lambda>_ _. None), sim_waiting := 2\<rparr>\<rparr>) = Some (Ret (), s') \<and>
     sim_watch (world s') 5 8 = Some (DPtr 103) \<and> sim_watch (world s') 5 9 = Some (DPtr 103) \<and>
     reqs s' 103 = Some r \<and> r_fd r = 9 \<and> r_sd r = ShmNull \<and> r_efd r = 0"
  by (simp add: event_accept_https_def malloc_req_def memset_req_def run_simps rget_def rput_def tput_def
    ex_serving_def ex_worker_def ex_world_def reply_def accept_https_loop.simps [of _ _ _ _ 0] ssl_accept_loop.simps [of _ _ 0]
    sim_fresh_def set_non_blocking_def printf_def zero_req_def)

text \<open>The data handed to \<open>SSL_write\<close> by the calls of a log, in order.\<close>

definition tls_writes :: "(call \<times> answer) list \<Rightarrow> string list" where
  "tls_writes log = rev (concat (map (\<lambda>(c, a). case c of Ssl (SSL_write _ bs) \<Rightarrow> [bs] | _ \<Rightarrow> []) log))"

lemma tls_writes_Cons:
  "tls_writes ((c, a) # log) = tls_writes log @ (case c of Ssl (SSL_write _ bs) \<Rightarrow> [bs] | _ \<Rightarrow> [])"
  by (simp add: tls_writes_def split: call.split ssl_call.split)

text \<open>
  C33: The HTTPS handler answers a request of \<open>n\<close> bytes with a header announcing \<open>Content-Length: n\<close>
  followed by exactly the bytes it read, in two TLS writes.
\<close>

theorem https_echoes:
  assumes "reqs s a = Some r" and "os (Ssl (SSL_read (r_ssl r) 1024)) (world s) = (x, w)"
    and "rv x = int (length (data_in x))" and "length (data_in x) \<le> 1024"
  shows "\<exists>s'. handle_https_read_write os (Some a) fd efd s = Some (Ret (), s') \<and>
     tls_writes (calls s') = tls_writes (calls s) @ [https_response (int (length (data_in x))), data_in x]"
proof -
  have "take (length (data_in x)) (filled 1024 (data_in x)) = data_in x"
    using assms(4) by (simp add: filled_def write_at_def)
  then show ?thesis
    using assms by (auto simp: handle_https_read_write_def run_simps rget_def ssl_error_def printf_def tls_writes_Cons)
qed

theorem https_echoes_witness:
  "\<exists>s'. handle_https_read_write sim_os (Some 102) 7 5 (ex_serving\<lparr>world := ex_world\<lparr>sim_chunks := [''hello'']\<rparr>\<rparr>) = Some (Ret (), s') \<and>
     tls_writes (calls s') = [https_response 5, ''hello'']"
  using https_echoes [of "ex_serving\<lparr>world := ex_world\<lparr>sim_chunks := [''hello'']\<rparr>\<rparr>" 102 ex_client sim_os
    "\<lparr>rv = 5, err = 0, data_in = ''hello'', events_in = []\<rparr>" "ex_world\<lparr>sim_chunks := []\<rparr>" 7 5]
  by (auto simp: ex_serving_def ex_worker_def ex_client_def ex_world_def sim_read_def tls_writes_def zero_req_def)

text \<open>
  The TLS proxy trusts a failed read: when \<open>SSL_read\<close> answers a negative count and the back end
  is reachable, the count is handed to \<open>send\<close> as a length, far past the end of the buffer.
\<close>

theorem tls_proxy_out_of_bounds:
  assumes "reqs s a = Some r" and "rv (fst (os (Ssl (SSL_read (r_ssl r) 4096)) (world s))) < 0"
    and "\<forall>w. rv (fst (os Socket w)) \<noteq> -1" and "\<forall>fd w. rv (fst (os (Connect fd ''127.0.0.1'' (htons 80)) w)) \<noteq> -1"
  shows "\<exists>s'. event_https_reverse os (Some a) fd efd s = Some (Fault OutOfBounds, s')"
  using assms
  by (simp add: event_https_reverse_def backend_exchange_def client_socket_def run_simps rget_def ssl_error_def printf_def)

theorem tls_proxy_out_of_bounds_witness:
  "\<exists>s'. event_https_reverse sim_os (Some 102) 7 5 (ex_serving\<lparr>world := ex_world\<lparr>sim_chunks := []\<rparr>\<rparr>) = Some (Fault OutOfBounds, s')"
proof (rule tls_proxy_out_of_bounds [of _ _ ex_client])
  have "rv (fst (sim_os Socket w)) \<noteq> -1" for w using sim_fresh_ge [of w] by (simp add: reply_def)
  then show "\<forall>w. rv (fst (sim_os Socket w)) \<noteq> -1" by blast
qed (simp_all add: ex_serving_def ex_world_def sim_read_def reply_def)

section \<open>The proxy's round trip\<close>

text \<open>
  With the back end reachable, a round trip sends it the request's bytes and nothing more, over a
  fresh connection, hands back the bytes received (at most 4096), and closes that connection.
\<close>

theorem backend_round_trip:
  assumes "os Socket (world s) = (k, w1)" and "rv k \<noteq> -1"
    and "os (Connect (rv k) ''127.0.0.1'' (htons 80)) w1 = (c, w2)" and "rv c \<noteq> -1"
    and "n \<le> length buffer" and "os (Send (rv k) (take n buffer)) w2 = (d, w3)" and "rv d = int n"
    and "os (Recv (rv k) 4096) w3 = (x, w4)" and "rv x = int (length (data_in x))" and "length (data_in x) \<le> 4096"
  shows "\<exists>s' z buf. backend_exchange os buffer (int n) s = Some (Ret (Some (int (length (data_in x)), buf)), s') \<and>
     take (length (data_in x)) buf = data_in x \<and>
     calls s' = [(Close (rv k), z), (Recv (rv k) 4096, x), (Send (rv k) (take n buffer), d),
       (Connect (rv k) ''127.0.0.1'' (htons 80), c), (Socket, k)] @ calls s"
  using assms by (simp add: backend_exchange_def client_socket_def run_simps filled_def write_at_def)

theorem backend_round_trip_witness:
  "\<exists>s' buf. backend_exchange sim_os (''GET /'' @ [NUL]) 5 (ex_serving\<lparr>world := ex_world\<lparr>sim_chunks := [''pong'']\<rparr>\<rparr>) = Some (Ret (Some (4, buf)), s') \<and>
     take (length ''pong'') buf = ''pong''"
proof -
  let ?w = "ex_world\<lparr>sim_chunks := [''pong'']\<rparr>"
  let ?w1 = "?w\<lparr>sim_open := 5 # sim_open ?w\<rparr>"
  show ?thesis
    using backend_round_trip [of sim_os "ex_serving\<lparr>world := ?w\<rparr>" "reply 5 0" ?w1 "reply 0 0" ?w1 5 "''GET /'' @ [NUL]"
      "reply 5 0" ?w1 "\<lparr>rv = 4, err = 0, data_in = ''pong'', events_in = []\<rparr>" "?w1\<lparr>sim_chunks := []\<rparr>"]
    by (auto simp: ex_world_def sim_fresh_def sim_read_def reply_def ex_serving_def)
qed

end
