(* ===== verification/Lifecycle.thy ===== *)
theory Lifecycle
  imports EventProps
begin

text \<open>
  One connection through its life: the event that brings its request, the event that says it can be
  written to, the answer, the close; and a proxied connection, whose request goes to the back end and
  whose answer comes from there. The handlers are composed as the event loop composes them.
\<close>

section \<open>The traffic of one descriptor\<close>

text \<open>The calls of a log that transfer over, connect or close a descriptor, in the order they were made.\<close>

fun on_fd :: "int \<Rightarrow> call \<Rightarrow> bool" where
  "on_fd fd (Read g n) = (g = fd)"
| "on_fd fd (Write g bs) = (g = fd)"
| "on_fd fd (Recv g n) = (g = fd)"
| "on_fd fd (Send g bs) = (g = fd)"
| "on_fd fd (Connect g ip port) = (g = fd)"
| "on_fd fd (Close g) = (g = fd)"
| "on_fd fd _ = False"

definition io_of :: "int \<Rightarrow> (call \<times> answer) list \<Rightarrow> call list" where
  "io_of fd log = filter (on_fd fd) (map fst (rev log))"

lemma io_of_simps [simp]:
  "io_of fd [] = []"
  "io_of fd ((c, a) # log) = io_of fd log @ (if on_fd fd c then [c] else [])"
  "io_of fd (log @ log') = io_of fd log' @ io_of fd log"
  by (simp_all add: io_of_def)

text \<open>
  \<open>traffic fd cs s s'\<close>: from the first state to the second exactly the calls \<open>cs\<close> were made on
  \<open>fd\<close> (the log only grows).
\<close>

definition traffic :: "int \<Rightarrow> call list \<Rightarrow> ('w, 'a) process_scheme \<Rightarrow> ('w, 'a) process_scheme \<Rightarrow> bool" where
  "traffic fd cs s s' \<longleftrightarrow> io_of fd (calls s') = io_of fd (calls s) @ cs"

lemma traffic_trans: "traffic fd cs s s' \<Longrightarrow> traffic fd cs' s' s'' \<Longrightarrow> traffic fd (cs @ cs') s s''"
  by (simp add: traffic_def)

text \<open>... and no other descriptor had any.\<close>

abbreviation only_traffic :: "int \<Rightarrow> call list \<Rightarrow> ('w, 'a) process_scheme \<Rightarrow> ('w, 'a) process_scheme \<Rightarrow> bool" where
  "only_traffic fd cs s s' \<equiv> \<forall>g. traffic g (if g = fd then cs else []) s s'"

lemma only_trafficD: "only_traffic fd cs s s' \<Longrightarrow> traffic fd cs s s'"
  by (drule spec [of _ fd]) simp

lemma only_traffic_other: "only_traffic fd cs s s' \<Longrightarrow> g \<noteq> fd \<Longrightarrow> traffic g [] s s'"
  by (drule spec [of _ g]) simp

section \<open>The request\<close>

text \<open>
  A descriptor that delivers its request in the pieces \<open>ds\<close>, which together leave room in a buffer of
  \<open>cap\<close> bytes, and then runs dry, leaving the kernel at \<open>w'\<close>; and the reads that collect it.
\<close>

fun delivers :: "'w kernel \<Rightarrow> int \<Rightarrow> nat \<Rightarrow> string list \<Rightarrow> 'w \<Rightarrow> 'w \<Rightarrow> bool" where
  "delivers os fd cap [] w w' = (let (a, w1) = os (Read fd cap) w in rv a = -1 \<and> err a = EAGAIN \<and> w' = w1)"
| "delivers os fd cap (d # ds) w w' = (let (a, w1) = os (Read fd cap) w in
     d \<noteq> [] \<and> length d < cap \<and> rv a = int (length d) \<and> data_in a = d \<and> delivers os fd (cap - length d) ds w1 w')"

fun reads :: "int \<Rightarrow> nat \<Rightarrow> string list \<Rightarrow> call list" where
  "reads fd cap [] = [Read fd cap]"
| "reads fd cap (d # ds) = Read fd cap # reads fd (cap - length d) ds"

lemma read_loop_chunks:
  "delivers os fd (cap - length b) ds (world s) w' \<Longrightarrow> length b \<le> cap \<Longrightarrow>
    \<exists>log. read_loop os fd cap (b @ replicate (cap - length b) NUL) (length b) s =
      Some (Ret (RdAgain (b @ concat ds @ replicate (cap - length (b @ concat ds)) NUL) (length (b @ concat ds))),
        s\<lparr>world := w', calls := log @ calls s\<rparr>) \<and> (\<forall>g. io_of g log = (if g = fd then reads fd (cap - length b) ds else [])) \<and> length (b @ concat ds) \<le> cap"
proof (induction ds arbitrary: b s)
  case Nil
  then show ?case
    by (subst read_loop.simps) (auto simp: run_simps split: prod.splits intro!: exI [of _ "[(_, _)]"])
next
  case (Cons d ds)
  let ?c = "Read fd (cap - length b)"
  obtain a w1 where a: "os ?c (world s) = (a, w1)" by fastforce
  let ?s = "s\<lparr>world := w1, calls := (?c, a) # calls s\<rparr>"
  have d: "d \<noteq> []" "length d < cap - length b" "rv a = int (length d)" "data_in a = d"
      "delivers os fd (cap - length (b @ d)) ds (world ?s) w'"
    using Cons.prems(1) a by auto
  have len: "length (b @ d) \<le> cap" using d(2) by simp
  from Cons.IH [OF d(5) len] obtain log where log:
      "read_loop os fd cap ((b @ d) @ replicate (cap - length (b @ d)) NUL) (length (b @ d)) ?s =
      Some (Ret (RdAgain ((b @ d) @ concat ds @ replicate (cap - length ((b @ d) @ concat ds)) NUL) (length ((b @ d) @ concat ds))),
        ?s\<lparr>world := w', calls := log @ calls ?s\<rparr>)" "\<forall>g. io_of g log = (if g = fd then reads fd (cap - length (b @ d)) ds else [])"
      "length ((b @ d) @ concat ds) \<le> cap" by blast
  have "read_loop os fd cap (b @ replicate (cap - length b) NUL) (length b) s =
      read_loop os fd cap ((b @ d) @ replicate (cap - length (b @ d)) NUL) (length (b @ d)) ?s"
    using d a len write_at_end [OF len, of NUL] by (subst read_loop.simps) (simp add: run_simps)
  then show ?case
    using log by (intro exI [of _ "log @ [(?c, a)]"]) simp
qed

text \<open>Both HTTP handlers start by collecting the request.\<close>

lemma collects:
  assumes ok: "kernel_ok os v" and d: "delivers os fd cap ds (world s) w'"
  shows "wp (read_loop os fd cap (replicate cap NUL) 0) (\<lambda>r s'. r = RdAgain (concat ds @ replicate (cap - length (concat ds)) NUL) (length (concat ds)) \<and>
     length (concat ds) \<le> cap \<and> world s' = w' \<and> calm v efd s s' \<and> only_traffic fd (reads fd cap ds) s s') s"
proof -
  have "wp (read_loop os fd cap (replicate cap NUL) 0) (\<lambda>r s'. r = RdAgain (concat ds @ replicate (cap - length (concat ds)) NUL) (length (concat ds)) \<and>
     length (concat ds) \<le> cap \<and> world s' = w' \<and> only_traffic fd (reads fd cap ds) s s') s"
    using read_loop_chunks [of os fd cap "[]" ds s w'] d by (auto simp: wp_def traffic_def)
  from wp_conj [OF this read_loop_spec [OF ok, where cap = cap and n = 0 and efd = efd and ?s0.0 = s]] show ?thesis
    by (rule wp_mono) auto
qed

lemma request_arms:
  assumes ok: "kernel_ok os v" and inv: "serving v efd infs L fd a r s" and d: "delivers os fd 1024 ds (world s) w'"
  shows "wp (event_http_read os (Some a) fd efd) (\<lambda>_ s'. serving v efd infs L fd a r s' \<and>
     traffic fd (reads fd 1024 ds) s s' \<and> shm s' = read_num_update (\<lambda>n. n + 1) (shm s)) s"
proof -
  have r: "reqs s a = Some r" "r_sd r = ShmAt" "client_req efd infs fd r" "watched v (world s) efd fd = Some (DPtr a)"
    using inv by (auto simp: serving_def client_req_def)
  have arm: "watched v (snd (os (Epoll_mod efd fd \<lparr>ev_events = e, ev_data = DPtr a\<rparr>) w)) efd fd = Some (DPtr a)"
    if "watched v w efd = watched v (world s) efd" for e w
    using kernel_okD [OF ok, of "Epoll_mod efd fd \<lparr>ev_events = e, ev_data = DPtr a\<rparr>" w] that r(4) by auto
  have "wp (event_http_read os (Some a) fd efd) (\<lambda>_ s'. watched v (world s') efd fd = Some (DPtr a) \<and> reqs s' = reqs s \<and>
     traffic fd (reads fd 1024 ds) s s' \<and> shm s' = read_num_update (\<lambda>n. n + 1) (shm s)) s"
    unfolding event_http_read_def wp_bindP
    by (rule wp_mono [OF collects [OF ok d, of efd]])
      (use r(1,2) arm perror_fds [OF ok] in \<open>auto simp: calm_def traffic_def wp_simps rget_def count_def the_shm_def perror_def printf_def\<close>)
  from wp_conj [OF this event_http_read_spec [OF ok inv]] show ?thesis
    by (rule wp_mono) (use r in \<open>auto simp: serving_def handled_def\<close>)
qed

section \<open>The answer and the close\<close>

lemma close_traffic:
  assumes ok: "kernel_ok os v" and inv: "serving v efd infs L fd a r s"
  shows "wp (handle_close os (Some a)) (\<lambda>_ s'. only_traffic fd [Close fd] s s' \<and> shm s' = close_num_update (\<lambda>n. n + 1) (shm s)) s"
proof -
  have r: "reqs s a = Some r" "client_req efd infs fd r" and ts: "\<exists>ts. timer_list s ts" and dom: "dom (tmem s) = dom (reqs s)"
    using inv by (auto simp: serving_def winv_def heap_ok_def)
  have rest: "wp (deleteTimer (Some a)) (\<lambda>_. wp (free_conn os (Some a)) (\<lambda>_ s'. only_traffic fd [Close fd] s s' \<and>
      shm s' = close_num_update (\<lambda>n. n + 1) (shm s))) (s\<lparr>world := w, calls := cs, shm := close_num_update (\<lambda>n. n + 1) (shm s)\<rparr>)"
    if log: "\<forall>g. io_of g cs = io_of g (calls s) @ (if g = fd then [Close fd] else [])" for w cs
  proof -
    let ?s = "s\<lparr>world := w, calls := cs, shm := close_num_update (\<lambda>n. n + 1) (shm s)\<rparr>"
    obtain ts where "timer_list ?s ts" using ts by (auto simp: timer_list_def)
    then show ?thesis
    proof (rule wp_mono [OF deleteTimer_frame [of _ _ a]])
      fix s' :: "('a, 'b) worker_scheme"
      assume s': "timers.more s' = timers.more ?s \<and> dom (tmem s') = dom (tmem ?s) \<and> (\<exists>ts'. timer_list s' ts' \<and> a \<notin> set ts')"
      note rel = relinked_worker [OF conjunct1 [OF s'], simplified]
      show "wp (free_conn os (Some a)) (\<lambda>_ s'. only_traffic fd [Close fd] s s' \<and> shm s' = close_num_update (\<lambda>n. n + 1) (shm s)) s'"
        using rel r log by (simp add: free_conn_def wp_simps client_req_def traffic_def)
    qed
  qed
  show ?thesis
    using r by (simp add: handle_close_def wp_bindP' wp_rget wp_bindP wp_sys wp_seqP' wp_blockP wp_whenP client_req_def perror_def
      wp_ret wp_ret' wp_count rest)
qed

lemma answer_closes:
  assumes ok: "kernel_ok os v" and inv: "serving v efd infs L fd a r s"
  shows "wp (seqP (event_http_write os (Some a) fd efd) (handle_close os (Some a))) (\<lambda>_ s'. winv v efd infs L s' \<and> reqs s' a = None \<and>
     watched v (world s') efd fd = None \<and> fd \<notin> opened v (world s') \<and> traffic fd [Write fd send_buf, Close fd] s s' \<and>
     (rv (fst (os (Write fd send_buf) (world s))) = int (length send_buf) \<longrightarrow>
       shm s' = close_num_update (\<lambda>n. n + 1) (write_num_update (\<lambda>n. n + 1) (shm s)))) s"
proof -
  let ?a = "fst (os (Write fd send_buf) (world s))"
  have r: "reqs s a = Some r" "r_sd r = ShmAt" using inv by (auto simp: serving_def client_req_def)
  obtain s1 log where s1: "event_http_write os (Some a) fd efd s = Some (Ret (), s1)" "calls s1 = log @ (Write fd send_buf, ?a) # calls s"
      "\<forall>c \<in> fst ` set log. \<exists>m. c = Perror m"
      "shm s1 = (if rv ?a = -1 \<and> err ?a \<noteq> EAGAIN then shm s else write_num_update (\<lambda>n. n + 1) (shm s))"
    using response_once [OF ok r, of fd ?a "snd (os (Write fd send_buf) (world s))" efd] by auto
  have "io_of fd log = []" using s1(3) by (fastforce simp: io_of_def filter_empty_conv)
  then have t: "traffic fd [Write fd send_buf] s s1"
    by (simp add: traffic_def s1(2))
  have "serving v efd infs L fd a r s1" using event_http_write_spec [OF ok inv] s1(1) by (simp add: wp_def)
  from wp_conj [OF handle_close_spec [OF ok this] close_traffic [OF ok this]]
  have "wp (handle_close os (Some a)) (\<lambda>_ s'. winv v efd infs L s' \<and> reqs s' a = None \<and> watched v (world s') efd fd = None \<and>
     fd \<notin> opened v (world s') \<and> traffic fd [Write fd send_buf, Close fd] s s' \<and>
     (rv ?a = int (length send_buf) \<longrightarrow> shm s' = close_num_update (\<lambda>n. n + 1) (write_num_update (\<lambda>n. n + 1) (shm s)))) s1"
    by (rule wp_mono) (use s1(4) traffic_trans [OF t, of "[Close fd]"] in \<open>auto simp: handled_def dest!: only_trafficD\<close>)
  then show ?thesis using s1(1) by (simp add: wp_seqP wp_def [of "event_http_write _ _ _ _"])
qed

section \<open>A proxied request\<close>

text \<open>
  A back end that takes the connection \<open>k\<close> and the request \<open>req\<close> and has the answer \<open>rep\<close> ready, seen from
  a kernel at \<open>w\<close>; after the connection is closed the kernel is at \<open>w'\<close>.
\<close>

definition backend_answers :: "'w kernel \<Rightarrow> int \<Rightarrow> string \<Rightarrow> string \<Rightarrow> 'w \<Rightarrow> 'w \<Rightarrow> bool" where
  "backend_answers os k req rep w w' \<longleftrightarrow> (let (a, w1) = os Socket w; (b, w2) = os (Connect k ''127.0.0.1'' (htons 80)) w1;
       (c, w3) = os (Send k req) w2; (x, w4) = os (Recv k 4096) w3
     in rv a = k \<and> k \<noteq> -1 \<and> rv b \<noteq> -1 \<and> rv c = int (length req) \<and> rv x = int (length rep) \<and> data_in x = rep \<and>
       length rep \<le> 4096 \<and> w' = snd (os (Close k) w4))"

abbreviation exchange_calls :: "int \<Rightarrow> string \<Rightarrow> call list" where
  "exchange_calls k req \<equiv> [Connect k ''127.0.0.1'' (htons 80), Send k req, Recv k 4096, Close k]"

lemma backend_answers_exchange:
  assumes "backend_answers os k req rep (world s) w'"
  shows "wp (backend_exchange os (req @ pad) (int (length req))) (\<lambda>r s'. r = Some (int (length rep), rep @ replicate (4096 - length rep) NUL) \<and>
     world s' = w' \<and> only_traffic k (exchange_calls k req) s s') s"
  using assms by (auto simp: backend_answers_def Let_def backend_exchange_def client_socket_def wp_simps traffic_def filled_def write_at_def
      split: prod.splits)

lemma fresh_socket:
  assumes "kernel_ok os v" and "backend_answers os k req rep w w'"
  shows "k \<notin> opened v w"
  using kernel_okD [OF assms(1), of Socket w] assms(2) by (auto simp: backend_answers_def Let_def split: prod.splits)

lemma proxy_replies:
  assumes ok: "kernel_ok os v" and inv: "serving v efd infs L fd a r s" and rep: "rep \<noteq> []" "length rep \<le> 4096"
    and w: "rv (fst (os (Write fd rep) (world s))) = int (length rep)"
  shows "wp (write_loop os fd (rep @ replicate (4096 - length rep) NUL) (int (length rep)) (int (length rep)))
     (\<lambda>x. wp (case x of WrError e \<Rightarrow> perror os ''unknow write error'' | WrDone _ \<Rightarrow> handle_close os (Some a))
       (\<lambda>_ s'. winv v efd infs L s' \<and> reqs s' a = None \<and> watched v (world s') efd fd = None \<and> fd \<notin> opened v (world s') \<and>
         only_traffic fd [Write fd rep, Close fd] s s' \<and> shm s' = close_num_update (\<lambda>n. n + 1) (shm s))) s"
proof -
  let ?c = "Write fd rep"
  let ?s = "s\<lparr>world := snd (os ?c (world s)), calls := (?c, fst (os ?c (world s))) # calls s\<rparr>"
  have n: "0 < int (length rep)" "nat (int (length rep)) \<le> length (rep @ replicate (4096 - length rep) NUL)" using rep by auto
  have once: "write_loop os fd (rep @ replicate (4096 - length rep) NUL) (int (length rep)) (int (length rep)) s = Some (Ret (WrDone 0), ?s)"
    using w rep by (simp add: write_loop_once [OF ok n] case_prod_beta)
  have "calm v efd s ?s" using quiet_same [OF ok, of ?c "world s"] by (simp add: calm_def same_fds_def)
  from serving_calm [OF inv this] have s1: "serving v efd infs L fd a r ?s" .
  have "wp (handle_close os (Some a)) (\<lambda>_ s'. winv v efd infs L s' \<and> reqs s' a = None \<and> watched v (world s') efd fd = None \<and>
       fd \<notin> opened v (world s') \<and> only_traffic fd [Write fd rep, Close fd] s s' \<and>
       shm s' = close_num_update (\<lambda>n. n + 1) (shm s)) ?s"
    by (rule wp_mono [OF wp_conj [OF handle_close_spec [OF ok s1] close_traffic [OF ok s1]]])
      (auto simp: handled_def traffic_def)
  then show ?thesis by (simp add: wp_def [of "write_loop _ _ _ _ _"] once)
qed

lemma proxies:
  assumes ok: "kernel_ok os v" and inv: "serving v efd infs L fd a r s" and d: "delivers os fd 4096 ds (world s) w1"
    and b: "backend_answers os k (concat ds) rep w1 w2"
    and w: "rep \<noteq> []" "rv (fst (os (Write fd rep) w2)) = int (length rep)"
  shows "wp (event_http_reverse os (Some a) fd efd) (\<lambda>_ s'. winv v efd infs L s' \<and> reqs s' a = None \<and>
     watched v (world s') efd fd = None \<and> fd \<notin> opened v (world s') \<and> k \<noteq> fd \<and>
     traffic fd (reads fd 4096 ds @ [Write fd rep, Close fd]) s s' \<and> traffic k (exchange_calls k (concat ds)) s s' \<and>
     shm s' = close_num_update (\<lambda>n. n + 1) (shm s)) s"
proof -
  let ?req = "concat ds" and ?pad = "replicate (4096 - length (concat ds)) NUL"
  let ?Q = "\<lambda>s'. winv v efd infs L s' \<and> reqs s' a = None \<and> watched v (world s') efd fd = None \<and> fd \<notin> opened v (world s') \<and> k \<noteq> fd \<and>
     traffic fd (reads fd 4096 ds @ [Write fd rep, Close fd]) s s' \<and> traffic k (exchange_calls k ?req) s s' \<and>
     shm s' = close_num_update (\<lambda>n. n + 1) (shm s)"
  have exch: "wp (backend_exchange os (?req @ ?pad) (int (length ?req))) (\<lambda>reply. wp (case reply of
               None \<Rightarrow> ret ()
             | Some (recv_len, buffer) \<Rightarrow>
                 bindP (write_loop os fd buffer recv_len recv_len) (\<lambda>w. case w of
                     WrError e \<Rightarrow> perror os ''unknow write error''
                   | WrDone _ \<Rightarrow> handle_close os (Some a))) (\<lambda>_. ?Q)) s1"
    if s1: "length ?req \<le> 4096" "world s1 = w1" "calm v efd s s1" "only_traffic fd (reads fd 4096 ds) s s1" for s1
  proof -
    have b1: "backend_answers os k ?req rep (world s1) w2" using b s1(2) by simp
    have inv1: "serving v efd infs L fd a r s1" by (rule serving_calm [OF inv s1(3)])
    have "fd \<in> opened v (world s1)" using inv1 by (auto simp: serving_def winv_def conns_ok_def)
    then have k: "k \<noteq> fd" using fresh_socket [OF ok b1] by blast
    have n: "0 \<le> int (length ?req)" "int (length ?req) \<le> int (length (?req @ ?pad))" by simp_all
    show ?thesis
    proof (rule wp_mono [OF wp_conj [OF backend_answers_exchange [OF b1] backend_exchange_spec [OF ok serving_fds [OF inv1] n]]], elim conjE)
      fix reply s2
      assume s2: "reply = Some (int (length rep), rep @ replicate (4096 - length rep) NUL)" "world s2 = w2"
        "only_traffic k (exchange_calls k ?req) s1 s2" "calm v efd s1 s2"
      have inv2: "serving v efd infs L fd a r s2" by (rule serving_calm [OF inv1 s2(4)])
      have len: "length rep \<le> 4096" using b by (auto simp: backend_answers_def Let_def split: prod.splits)
      have fin: "?Q s'" if "winv v efd infs L s' \<and> reqs s' a = None \<and> watched v (world s') efd fd = None \<and> fd \<notin> opened v (world s') \<and>
         only_traffic fd [Write fd rep, Close fd] s2 s' \<and> shm s' = close_num_update (\<lambda>n. n + 1) (shm s2)" for s'
        using that k only_trafficD [OF s1(4)] only_traffic_other [OF s1(4) k] only_trafficD [OF s2(3)] only_traffic_other [OF s2(3) k [symmetric]]
          only_traffic_other [OF _ k] only_trafficD [of fd _ s2 s'] s1(3) s2(4) by (simp add: traffic_def calm_def)
      show "wp (case reply of
               None \<Rightarrow> ret ()
             | Some (recv_len, buffer) \<Rightarrow>
                 bindP (write_loop os fd buffer recv_len recv_len) (\<lambda>w. case w of
                     WrError e \<Rightarrow> perror os ''unknow write error''
                   | WrDone _ \<Rightarrow> handle_close os (Some a))) (\<lambda>_. ?Q) s2"
        unfolding s2(1) option.case prod.case wp_bindP
        by (rule wp_mono [OF proxy_replies [OF ok inv2 w(1) len]]) (simp add: s2(2) w(2), erule wp_mono, erule fin)
    qed
  qed
  show ?thesis
    unfolding event_http_reverse_def wp_bindP
    by (rule wp_mono [OF collects [OF ok d, of efd]]) (use exch in \<open>auto simp: wp_bindP\<close>)
qed

text \<open>
  A back end that cannot be reached: the request has been read and is dropped, and the connection stays
  as it was, registered and open. Nothing more will be read from it (the registration is edge-triggered
  and the input is drained), so the client waits for an answer that does not come.
\<close>

lemma proxy_gives_up:
  assumes ok: "kernel_ok os v" and inv: "serving v efd infs L fd a r s" and d: "delivers os fd 4096 ds (world s) w1"
    and refused: "\<And>k w. rv (fst (os (Connect k ''127.0.0.1'' (htons 80)) w)) = -1"
  shows "wp (event_http_reverse os (Some a) fd efd) (\<lambda>_ s'. serving v efd infs L fd a r s' \<and>
     traffic fd (reads fd 4096 ds) s s' \<and> shm s' = shm s) s"
proof -
  let ?req = "concat ds" and ?pad = "replicate (4096 - length (concat ds)) NUL"
  let ?Q = "\<lambda>s'. serving v efd infs L fd a r s' \<and> traffic fd (reads fd 4096 ds) s s' \<and> shm s' = shm s"
  have exch: "wp (backend_exchange os (?req @ ?pad) (int (length ?req))) (\<lambda>reply. wp (case reply of
               None \<Rightarrow> ret ()
             | Some (recv_len, buffer) \<Rightarrow>
                 bindP (write_loop os fd buffer recv_len recv_len) (\<lambda>w. case w of
                     WrError e \<Rightarrow> perror os ''unknow write error''
                   | WrDone _ \<Rightarrow> handle_close os (Some a))) (\<lambda>_. ?Q)) s1"
    if s1: "calm v efd s s1" "only_traffic fd (reads fd 4096 ds) s s1" for s1
  proof -
    have inv1: "serving v efd infs L fd a r s1" by (rule serving_calm [OF inv s1(1)])
    have "fd \<in> opened v (world s1)" using inv1 by (auto simp: serving_def winv_def conns_ok_def)
    then have k: "rv (fst (os Socket (world s1))) \<noteq> fd"
      using kernel_okD [OF ok, of Socket "world s1"] inv1 by (auto simp: serving_def client_req_def)
    have none: "wp (backend_exchange os (?req @ ?pad) (int (length ?req))) (\<lambda>reply s2. reply = None \<and> traffic fd [] s1 s2) s1"
      using k refused by (auto simp: backend_exchange_def client_socket_def wp_simps traffic_def)
    have "0 \<le> int (length ?req)" "int (length ?req) \<le> int (length (?req @ ?pad))" by simp_all
    from wp_conj [OF none backend_exchange_spec [OF ok serving_fds [OF inv1] this]] show ?thesis
      by (rule wp_mono) (use serving_calm [OF inv1] only_trafficD [OF s1(2)] s1(1) in \<open>auto simp: wp_ret traffic_def calm_def\<close>)
  qed
  show ?thesis
    unfolding event_http_reverse_def wp_bindP
    by (rule wp_mono [OF collects [OF ok d, of efd]]) (use exch in \<open>auto simp: wp_bindP\<close>)
qed

section \<open>Properties\<close>

text \<open>
  C3: A request is answered once, and nothing stays behind: when an HTTP connection of a worker becomes
  readable and delivers a request, in any pieces, shorter than the buffer, and then becomes writable and takes the whole
  response, the two events make exactly this traffic on its descriptor - the request is read until the
  socket runs dry, the response is written once, the descriptor is closed - the connection's object and
  registration are gone, one read, one write and one close are counted, and the worker's invariant holds.
\<close>

theorem request_answered:
  assumes "kernel_ok os v" and "serving v efd infs L fd a r s" and "r_type r = HTTP"
    and "delivers os fd 1024 ds (world s) w'" and "\<forall>w. rv (fst (os (Write fd send_buf) w)) = int (length send_buf)"
    and "ev_data ev1 = DPtr a" "has_event (ev_events ev1) EPOLLIN"
    and "ev_data ev2 = DPtr a" "\<not> has_event (ev_events ev2) EPOLLIN" "has_event (ev_events ev2) EPOLLOUT"
  shows "\<exists>s'. forP [ev1, ev2] (dispatch os (args_of infs) efd ShmAt) s = Some (Ret (), s') \<and> winv v efd infs L s' \<and>
     reqs s' a = None \<and> watched v (world s') efd fd = None \<and> fd \<notin> opened v (world s') \<and>
     traffic fd (reads fd 1024 ds @ [Write fd send_buf, Close fd]) s s' \<and>
     shm s' = close_num_update (\<lambda>n. n + 1) (write_num_update (\<lambda>n. n + 1) (read_num_update (\<lambda>n. n + 1) (shm s)))"
proof -
  have disp: "wp (dispatch os (args_of infs) efd ShmAt ev) Q t = wp (if has_event (ev_events ev) EPOLLIN then event_http_read os (Some a) fd efd
        else if has_event (ev_events ev) EPOLLOUT then seqP (event_http_write os (Some a) fd efd) (handle_close os (Some a)) else ret ()) Q t"
    if "serving v efd infs L fd a r t" "ev_data ev = DPtr a" "has_event (ev_events ev) EPOLLIN \<or> has_event (ev_events ev) EPOLLOUT"
    for ev Q and t :: "('a, 'b) worker_scheme"
    using that assms(3) by (auto simp: dispatch_def serving_def client_req_def wp_simps handle_read_def handle_write_def)
  have "wp (dispatch os (args_of infs) efd ShmAt ev2) (\<lambda>_ s'. winv v efd infs L s' \<and> reqs s' a = None \<and>
      watched v (world s') efd fd = None \<and> fd \<notin> opened v (world s') \<and>
      traffic fd (reads fd 1024 ds @ [Write fd send_buf, Close fd]) s s' \<and>
      shm s' = close_num_update (\<lambda>n. n + 1) (write_num_update (\<lambda>n. n + 1) (read_num_update (\<lambda>n. n + 1) (shm s)))) s1"
    if s1: "serving v efd infs L fd a r s1 \<and> traffic fd (reads fd 1024 ds) s s1 \<and>
      shm s1 = read_num_update (\<lambda>n. n + 1) (shm s)" for s1
    unfolding disp [OF conjunct1 [OF s1] assms(8) disjI2 [OF assms(10)]] if_not_P [OF assms(9)] if_P [OF assms(10)]
    by (rule wp_mono [OF answer_closes [OF assms(1) conjunct1 [OF s1]]])
      (use s1 assms(5) traffic_trans [of fd "reads fd 1024 ds" s s1] in auto)
  then have "wp (forP [ev1, ev2] (dispatch os (args_of infs) efd ShmAt)) (\<lambda>_ s'. winv v efd infs L s' \<and> reqs s' a = None \<and>
      watched v (world s') efd fd = None \<and> fd \<notin> opened v (world s') \<and>
      traffic fd (reads fd 1024 ds @ [Write fd send_buf, Close fd]) s s' \<and>
      shm s' = close_num_update (\<lambda>n. n + 1) (write_num_update (\<lambda>n. n + 1) (read_num_update (\<lambda>n. n + 1) (shm s)))) s"
    unfolding forP.simps wp_seqP wp_ret disp [OF assms(2,6) disjI1 [OF assms(7)]] if_P [OF assms(7)]
    by (intro wp_mono [OF request_arms [OF assms(1,2,4)]]) blast
  then show ?thesis by (auto simp: wp_iff)
qed

theorem request_answered_witness:
  "\<exists>s'. forP [\<lparr>ev_events = EPOLLIN, ev_data = DPtr 102\<rparr>, \<lparr>ev_events = EPOLLOUT, ev_data = DPtr 102\<rparr>]
      (dispatch sim_os (args_of ex_infs) 5 ShmAt) (ex_serving\<lparr>world := (world ex_serving)\<lparr>sim_chunks := [''GET'', '' /'']\<rparr>\<rparr>) = Some (Ret (), s') \<and>
     reqs s' 102 = None \<and> 7 \<notin> set (sim_open (world s')) \<and> close_num (shm s') = 1"
proof -
  let ?s = "ex_serving\<lparr>world := (world ex_serving)\<lparr>sim_chunks := [''GET'', '' /'']\<rparr>\<rparr>"
  have "serving sim_view 5 ex_infs (- 3) 7 102 ex_client ?s"
    by (rule serving_calm [OF ex_serving_inv]) (simp add: calm_def sim_view_def)
  moreover have "delivers sim_os 7 1024 [''GET'', '' /''] (world ?s) ((world ex_serving)\<lparr>sim_chunks := []\<rparr>)" by (simp add: sim_read_def reply_def)
  moreover have "r_type ex_client = HTTP" "\<forall>w. rv (fst (sim_os (Write 7 send_buf) w)) = int (length send_buf)"
    by (simp_all add: ex_client_def reply_def)
  ultimately show ?thesis
    using request_answered [OF sim_kernel_ok, of 5 ex_infs "- 3" 7 102 ex_client ?s "[''GET'', '' /'']" "(world ex_serving)\<lparr>sim_chunks := []\<rparr>"
        "\<lparr>ev_events = EPOLLIN, ev_data = DPtr 102\<rparr>" "\<lparr>ev_events = EPOLLOUT, ev_data = DPtr 102\<rparr>"]
    by (auto simp: has_event_def EPOLLIN_def EPOLLOUT_def sim_view_def ex_serving_def ex_worker_def)
qed

text \<open>
  C4: A proxied request makes the round trip and nothing stays behind: when a proxied HTTP connection
  becomes readable and delivers a request, in any pieces, shorter than 4096 bytes, and the back end
  accepts and answers, that one event reads the request until the socket runs dry, sends exactly its
  bytes to the back end over a fresh connection which it then closes, writes exactly the bytes received
  to the client, once, and closes the client: object, registration and descriptor are gone, one close is
  counted (reads and writes of proxied connections are not), and the worker's invariant holds.
\<close>

theorem request_proxied:
  assumes "kernel_ok os v" and "serving v efd infs L fd a r s" and "r_type r = HTTP_PROXY"
    and "delivers os fd 4096 ds (world s) w1" and "backend_answers os k (concat ds) rep w1 w2" and "rep \<noteq> []"
    and "rv (fst (os (Write fd rep) w2)) = int (length rep)" and "ev_data ev = DPtr a" and "has_event (ev_events ev) EPOLLIN"
  shows "\<exists>s'. dispatch os (args_of infs) efd ShmAt ev s = Some (Ret (), s') \<and> winv v efd infs L s' \<and>
     reqs s' a = None \<and> watched v (world s') efd fd = None \<and> fd \<notin> opened v (world s') \<and> k \<noteq> fd \<and>
     traffic fd (reads fd 4096 ds @ [Write fd rep, Close fd]) s s' \<and>
     traffic k [Connect k ''127.0.0.1'' (htons 80), Send k (concat ds), Recv k 4096, Close k] s s' \<and>
     shm s' = close_num_update (\<lambda>n. n + 1) (shm s)"
proof -
  have eq: "wp (dispatch os (args_of infs) efd ShmAt ev) Q s = wp (event_http_reverse os (Some a) fd efd) Q s" for Q
    using assms(2,3,8,9) by (auto simp: dispatch_def serving_def client_req_def wp_simps handle_read_def)
  from proxies [OF assms(1,2,4-7)] show ?thesis unfolding eq [symmetric] unfolding wp_iff by auto
qed

text \<open>The concrete kernel with a back end behind it.\<close>

definition sim_backend :: "sim kernel" where
  "sim_backend c w = (case c of Recv fd n \<Rightarrow> (\<lparr>rv = int (length (take n ''pong'')), err = 0, data_in = take n ''pong'', events_in = []\<rparr>, w)
     | _ \<Rightarrow> sim_os c w)"

lemma sim_backend_ok: "kernel_ok sim_backend sim_view"
  unfolding kernel_ok_def
proof (intro allI)
  fix c :: call and w :: sim
  show "call_ok sim_view c w (fst (sim_backend c w)) (snd (sim_backend c w))"
    using kernel_okD [OF sim_kernel_ok, of c w] by (cases c) (simp_all add: sim_backend_def same_fds_def)
qed

theorem request_proxied_witness:
  "\<exists>s'. dispatch sim_backend (args_of ex_infs) 5 ShmAt \<lparr>ev_events = EPOLLIN, ev_data = DPtr 102\<rparr>
      (ex_serving\<lparr>world := (world ex_serving)\<lparr>sim_chunks := [''GET'', '' /'']\<rparr>,
        reqs := (reqs ex_serving)(102 \<mapsto> ex_client\<lparr>r_type := HTTP_PROXY\<rparr>)\<rparr>) = Some (Ret (), s') \<and>
     reqs s' 102 = None \<and> 7 \<notin> set (sim_open (world s')) \<and> close_num (shm s') = 1"
proof -
  let ?r = "ex_client\<lparr>r_type := HTTP_PROXY\<rparr>"
  let ?s = "ex_serving\<lparr>world := (world ex_serving)\<lparr>sim_chunks := [''GET'', '' /'']\<rparr>, reqs := (reqs ex_serving)(102 \<mapsto> ?r)\<rparr>"
  let ?w1 = "(world ex_serving)\<lparr>sim_chunks := []\<rparr>"
  let ?w2 = "?w1\<lparr>sim_watch := unwatch 8 (sim_watch (world ex_serving))\<rparr>"
  have "serving sim_view 5 ex_infs (- 3) 7 102 ?r ?s"
  proof -
    have "dom [100 \<mapsto> zero_req\<lparr>r_fd := 0\<rparr>, 101 \<mapsto> zero_req\<lparr>r_fd := 1\<rparr>, 102 \<mapsto> ?r] = {100, 101, 102 :: addr}" by auto
    then show ?thesis
      by (auto simp: serving_def winv_def conns_ok_def reg_ok_def heap_ok_def timer_list_def ledger_def inj_on_def
        listener_req_def client_req_def ex_serving_def ex_worker_def ex_world_def ex_infs_def ex_client_def sim_view_def zero_req_def
        split: if_splits)
  qed
  moreover have "delivers sim_backend 7 4096 [''GET'', '' /''] (world ?s) ?w1" by (simp add: sim_backend_def sim_read_def reply_def)
  moreover have "backend_answers sim_backend 8 (concat [''GET'', '' /'']) ''pong'' ?w1 ?w2"
    by (simp add: backend_answers_def sim_backend_def sim_read_def reply_def ex_serving_def ex_worker_def ex_world_def sim_fresh_def)
  ultimately show ?thesis
    using request_proxied [OF sim_backend_ok, of 5 ex_infs "- 3" 7 102 ?r ?s "[''GET'', '' /'']" ?w1 8 "''pong''" ?w2
        "\<lparr>ev_events = EPOLLIN, ev_data = DPtr 102\<rparr>"]
    by (auto simp: has_event_def EPOLLIN_def sim_view_def ex_serving_def ex_worker_def sim_backend_def reply_def)
qed

end
