(* ===== verification/DmFleet.thy ===== *)
theory DmFleet
  imports WorkerProps
begin

text \<open>
  The worker processes side by side. Each has its own memory and descriptors; what they share is
  the counter segment of \<open>dm_shm.c\<close>. A step is one part of a turn of one worker - a wait, one event
  of the batch, the timers - or a change in the kernel that leaves the worker's descriptors and
  registrations alone (clients that connect, data that arrives, connections other workers have taken).
  The increments of \<open>_Atomic\<close> counters commute, so those of one step are made together.
\<close>

section \<open>The fleet\<close>

datatype phase = Waiting | Serving "epoll_event list"

record 'w fleet =
  procs :: "nat \<Rightarrow> 'w worker"
  phase_of :: "nat \<Rightarrow> phase"
  counters :: shm_data_t

text \<open>Worker \<open>i\<close> as it sees the segment, and the fleet after its step.\<close>

definition seen :: "'w fleet \<Rightarrow> nat \<Rightarrow> 'w worker" where
  "seen c i = (procs c i)\<lparr>shm := counters c\<rparr>"

definition advanced :: "nat \<Rightarrow> 'w worker \<Rightarrow> phase \<Rightarrow> 'w fleet \<Rightarrow> 'w fleet" where
  "advanced i s ph c = c\<lparr>procs := (procs c)(i := s), phase_of := (phase_of c)(i := ph), counters := shm s\<rparr>"

inductive fleet_step :: "'w kernel \<Rightarrow> 'w kview \<Rightarrow> arg_t \<Rightarrow> (nat \<Rightarrow> int) \<Rightarrow> nat \<Rightarrow> 'w fleet \<Rightarrow> 'w fleet \<Rightarrow> bool"
  for os :: "'w kernel" and v :: "'w kview" and args :: arg_t and efds :: "nat \<Rightarrow> int" and n :: nat where
  f_poll: "i < n \<Longrightarrow> phase_of c i = Waiting \<Longrightarrow> worker_poll os (efds i) (seen c i) = Some (Ret r, s) \<Longrightarrow>
     fleet_step os v args efds n c (advanced i s (case r of None \<Rightarrow> Waiting | Some es \<Rightarrow> Serving es) c)"
| f_event: "i < n \<Longrightarrow> phase_of c i = Serving (e # es) \<Longrightarrow>
     dispatch os args (efds i) ShmAt e (seen c i) = Some (Ret (), s) \<Longrightarrow>
     fleet_step os v args efds n c (advanced i s (Serving es) c)"
| f_tick: "i < n \<Longrightarrow> phase_of c i = Serving [] \<Longrightarrow> worker_tick os (seen c i) = Some (Ret (), s) \<Longrightarrow>
     fleet_step os v args efds n c (advanced i s Waiting c)"
| f_kernel: "i < n \<Longrightarrow> opened v w = opened v (world (procs c i)) \<Longrightarrow> watched v w = watched v (world (procs c i)) \<Longrightarrow>
     fleet_step os v args efds n c (c\<lparr>procs := (procs c)(i := (procs c i)\<lparr>world := w\<rparr>)\<rparr>)"

inductive fleet_reach :: "'w kernel \<Rightarrow> 'w kview \<Rightarrow> arg_t \<Rightarrow> (nat \<Rightarrow> int) \<Rightarrow> nat \<Rightarrow> 'w fleet \<Rightarrow> 'w fleet \<Rightarrow> bool"
  for os :: "'w kernel" and v :: "'w kview" and args :: arg_t and efds :: "nat \<Rightarrow> int" and n :: nat and c0 :: "'w fleet" where
  fleet_start: "fleet_reach os v args efds n c0 c0"
| fleet_next: "fleet_reach os v args efds n c0 c \<Longrightarrow> fleet_step os v args efds n c c' \<Longrightarrow> fleet_reach os v args efds n c0 c'"

section \<open>The invariant\<close>

text \<open>The invariant of one worker, whatever the counters are; and the events it still has to serve.\<close>

definition alone :: "'w kview \<Rightarrow> int \<Rightarrow> lis_inf_t list \<Rightarrow> 'w worker \<Rightarrow> bool" where
  "alone v efd infs s \<longleftrightarrow> winv v efd infs (ledger (shm s) (reqs s)) s"

definition batch_ok :: "'w kview \<Rightarrow> int \<Rightarrow> lis_inf_t list \<Rightarrow> 'w worker \<Rightarrow> phase \<Rightarrow> bool" where
  "batch_ok v efd infs s ph \<longleftrightarrow> (\<forall>es. ph = Serving es \<longrightarrow>
     (\<exists>fds. distinct fds \<and> list_all2 (due_event v efd infs s) fds es))"

definition balance :: "nat \<Rightarrow> 'w fleet \<Rightarrow> 32 word" where
  "balance n c = accept_num (counters c) - close_num (counters c) - (\<Sum>i<n. of_nat (card (dom (reqs (procs c i)))))"

definition fleet_inv :: "'w kview \<Rightarrow> (nat \<Rightarrow> int) \<Rightarrow> lis_inf_t list \<Rightarrow> nat \<Rightarrow> 'w fleet \<Rightarrow> bool" where
  "fleet_inv v efds infs n c \<longleftrightarrow>
     (\<forall>i<n. alone v (efds i) infs (procs c i) \<and> batch_ok v (efds i) infs (procs c i) (phase_of c i))"

lemma alone_seen: "alone v efd infs (s\<lparr>shm := x\<rparr>) = alone v efd infs s"
  by (simp add: alone_def winv_def timer_list_def)

lemma due_event_seen: "due_event v efd infs (s\<lparr>shm := x\<rparr>) = due_event v efd infs s"
  by (simp add: fun_eq_iff due_event_def)

lemma due_event_kernel:
  assumes "watched v w = watched v (world s)"
  shows "due_event v efd infs (s\<lparr>world := w\<rparr>) = due_event v efd infs s"
  using assms by (simp add: fun_eq_iff due_event_def)

lemma alone_winv: "winv v efd infs L s \<Longrightarrow> alone v efd infs s"
  by (simp add: alone_def winv_def)

lemma seen_inv:
  assumes "fleet_inv v efds infs n c" and "i < n"
  shows "winv v (efds i) infs (ledger (counters c) (reqs (procs c i))) (seen c i)"
    and "batch_ok v (efds i) infs (seen c i) (phase_of c i)"
proof -
  have "alone v (efds i) infs (seen c i)" using assms by (simp add: fleet_inv_def seen_def alone_seen)
  then show "winv v (efds i) infs (ledger (counters c) (reqs (procs c i))) (seen c i)" by (simp add: alone_def seen_def)
  show "batch_ok v (efds i) infs (seen c i) (phase_of c i)" using assms by (simp add: fleet_inv_def seen_def batch_ok_def due_event_seen)
qed

text \<open>A step of worker \<open>i\<close> that keeps its ledger keeps the balance of all.\<close>

lemma moved_inv:
  assumes "fleet_inv v efds infs n c" and i: "i < n"
    and "winv v (efds i) infs (ledger (counters c) (reqs (procs c i))) s" and "batch_ok v (efds i) infs s ph"
  shows "fleet_inv v efds infs n (advanced i s ph c) \<and> balance n (advanced i s ph c) = balance n c"
proof
  show "fleet_inv v efds infs n (advanced i s ph c)"
    using assms alone_winv by (auto simp: fleet_inv_def advanced_def)
  have L: "ledger (shm s) (reqs s) = ledger (counters c) (reqs (procs c i))" using assms(3) by (simp add: winv_def)
  have cut: "(\<Sum>j<n. f j) = f i + (\<Sum>j \<in> {..<n} - {i}. f j)" for f :: "nat \<Rightarrow> 32 word"
    using i by (intro sum.remove) auto
  have "(\<Sum>j \<in> {..<n} - {i}. of_nat (card (dom (reqs (procs (advanced i s ph c) j))))) =
      (\<Sum>j \<in> {..<n} - {i}. of_nat (card (dom (reqs (procs c j)))) :: 32 word)"
    by (rule sum.cong) (auto simp: advanced_def)
  then show "balance n (advanced i s ph c) = balance n c"
    using L unfolding balance_def cut by (simp add: advanced_def ledger_def algebra_simps)
qed

lemma fleet_step_inv:
  assumes ok: "kernel_ok os v" "memory_ok os" "tls_idle os v infs"
    and step: "fleet_step os v (args_of infs) efds n c c'" and inv: "fleet_inv v efds infs n c"
  shows "fleet_inv v efds infs n c' \<and> balance n c' = balance n c"
  using step
proof (cases rule: fleet_step.cases)
  case (f_poll i r s)
  have "worker_inv os v (efds i) infs (ledger (counters c) (reqs (procs c i))) (seen c i)"
    using ok seen_inv(1) [OF inv f_poll(2)] by (simp add: worker_inv_def)
  from worker_poll_spec [OF this] f_poll(4) show ?thesis
    unfolding f_poll(1) by (intro moved_inv [OF inv f_poll(2)]) (auto simp: wp_def worker_inv_def batch_ok_def split: option.splits)
next
  case (f_event i e es s)
  let ?L = "ledger (counters c) (reqs (procs c i))"
  have w: "worker_inv os v (efds i) infs ?L (seen c i)"
    using ok seen_inv(1) [OF inv f_event(2)] by (simp add: worker_inv_def)
  obtain fds where "distinct fds" "list_all2 (due_event v (efds i) infs (seen c i)) fds (e # es)"
    using seen_inv(2) [OF inv f_event(2)] f_event(3) by (auto simp: batch_ok_def)
  moreover from this obtain fd fds' where "fds = fd # fds'" by (auto simp: list_all2_Cons2)
  ultimately have "wp (dispatch os (args_of infs) (efds i) ShmAt e) (\<lambda>_ s'. worker_inv os v (efds i) infs ?L s' \<and> distinct fds' \<and>
      list_all2 (due_event v (efds i) infs s') fds' es) (seen c i)"
    using wk.handle_first [OF w] by blast
  with f_event(4) show ?thesis
    unfolding f_event(1) by (intro moved_inv [OF inv f_event(2)]) (auto simp: wp_def worker_inv_def batch_ok_def)
next
  case (f_tick i s)
  have "worker_inv os v (efds i) infs (ledger (counters c) (reqs (procs c i))) (seen c i)"
    using ok seen_inv(1) [OF inv f_tick(2)] by (simp add: worker_inv_def)
  from worker_tick_spec [OF this] f_tick(4) show ?thesis
    unfolding f_tick(1) by (intro moved_inv [OF inv f_tick(2)]) (auto simp: wp_def worker_inv_def batch_ok_def)
next
  case (f_kernel i w)
  then show ?thesis
    using inv by (auto simp: fleet_inv_def alone_def winv_def timer_list_def batch_ok_def due_event_kernel balance_def intro!: sum.cong)
qed

lemma fleet_reach_inv:
  assumes "kernel_ok os v" "memory_ok os" "tls_idle os v infs" and "fleet_inv v efds infs n c0"
    and "fleet_reach os v (args_of infs) efds n c0 c"
  shows "fleet_inv v efds infs n c \<and> balance n c = balance n c0"
  using assms(5)
proof (induction rule: fleet_reach.induct)
  case fleet_start
  then show ?case using assms(4) by simp
next
  case (fleet_next c c')
  then show ?case using fleet_step_inv [OF assms(1-3)] by metis
qed

text \<open>The next part of worker \<open>i\<close>'s turn returns.\<close>

definition can_serve :: "'w kernel \<Rightarrow> arg_t \<Rightarrow> (nat \<Rightarrow> int) \<Rightarrow> 'w fleet \<Rightarrow> nat \<Rightarrow> bool" where
  "can_serve os args efds c i \<longleftrightarrow> (case phase_of c i of
       Waiting \<Rightarrow> \<exists>r s. worker_poll os (efds i) (seen c i) = Some (Ret r, s)
     | Serving [] \<Rightarrow> \<exists>s. worker_tick os (seen c i) = Some (Ret (), s)
     | Serving (e # es) \<Rightarrow> \<exists>s. dispatch os args (efds i) ShmAt e (seen c i) = Some (Ret (), s))"

lemma fleet_can_serve:
  assumes ok: "kernel_ok os v" "memory_ok os" "tls_idle os v infs" and inv: "fleet_inv v efds infs n c" and i: "i < n"
  shows "can_serve os (args_of infs) efds c i"
proof -
  let ?L = "ledger (counters c) (reqs (procs c i))"
  have w: "worker_inv os v (efds i) infs ?L (seen c i)" using ok seen_inv(1) [OF inv i] by (simp add: worker_inv_def)
  show ?thesis
  proof (cases "phase_of c i")
    case Waiting
    then show ?thesis using worker_poll_spec [OF w] by (auto simp: can_serve_def wp_iff)
  next
    case (Serving es)
    show ?thesis
    proof (cases es)
      case Nil
      then show ?thesis using Serving worker_tick_spec [OF w] by (auto simp: can_serve_def wp_iff)
    next
      case (Cons e es')
      obtain fd where "due_event v (efds i) infs (seen c i) fd e"
        using seen_inv(2) [OF inv i] Serving Cons by (auto simp: batch_ok_def list_all2_Cons2)
      from dispatch_keeps [OF w this] show ?thesis using Serving Cons by (auto simp: can_serve_def wp_iff)
    qed
  qed
qed

section \<open>Property\<close>

text \<open>
  C6: The workers together, as long as no client connects to a TLS port (the kernel reports nothing of
  the TLS listeners that the table may hold): however their turns interleave and whatever happens in the kernel between
  them, no worker meets a fault or hangs - the next part of each one's turn returns - and the shared
  counters account for all of them: accepted minus closed, at their 32 bits, moves by the number of
  connection objects that all workers together have gained.
\<close>

theorem fleet_ledger:
  assumes "kernel_ok os v" "memory_ok os" "tls_idle os v infs"
    and "\<forall>i<n. phase_of c0 i = Waiting \<and> (\<exists>L. winv v (efds i) infs L (procs c0 i))"
    and "fleet_reach os v (args_of infs) efds n c0 c"
  shows "(\<forall>i<n. can_serve os (args_of infs) efds c i) \<and>
     accept_num (counters c) - close_num (counters c) = accept_num (counters c0) - close_num (counters c0) +
       (\<Sum>i<n. of_nat (card (dom (reqs (procs c i))))) - (\<Sum>i<n. of_nat (card (dom (reqs (procs c0 i)))))"
proof -
  have "alone v (efds i) infs (procs c0 i) \<and> batch_ok v (efds i) infs (procs c0 i) (phase_of c0 i)" if i: "i < n" for i
    using assms(4) i alone_winv [of v "efds i" infs _ "procs c0 i"] by (auto simp: batch_ok_def)
  then have "fleet_inv v efds infs n c0" by (simp add: fleet_inv_def)
  from fleet_reach_inv [OF assms(1-3) this assms(5)]
  have "fleet_inv v efds infs n c" "balance n c = balance n c0" by simp_all
  then show ?thesis
    using fleet_can_serve [OF assms(1-3)] by (auto simp: balance_def algebra_simps)
qed

text \<open>Two workers, both serving: the first waits, and then the second.\<close>

definition ex_fleet :: "sim fleet" where
  "ex_fleet = \<lparr>procs = (\<lambda>_. ex_serving), phase_of = (\<lambda>_. Waiting), counters = shm ex_serving\<rparr>"

theorem fleet_ledger_witness:
  "\<exists>c. fleet_reach sim_os sim_view (args_of ex_infs) (\<lambda>_. 5) 2 ex_fleet c \<and> phase_of c 0 = Serving [\<lparr>ev_events = EPOLLIN, ev_data = DPtr 100\<rparr>] \<and>
     can_serve sim_os (args_of ex_infs) (\<lambda>_. 5) c 0 \<and> can_serve sim_os (args_of ex_infs) (\<lambda>_. 5) c 1"
proof -
  let ?ev = "\<lparr>ev_events = EPOLLIN, ev_data = DPtr 100\<rparr>"
  obtain s where "worker_poll sim_os 5 (seen ex_fleet 0) = Some (Ret (Some [?ev]), s)"
    by (simp add: worker_poll_def run_simps seen_def ex_fleet_def ex_serving_def ex_worker_def ex_world_def reply_def
      EPOLL_MAX_EVENT_NUM_def Let_def)
  then have "fleet_step sim_os sim_view (args_of ex_infs) (\<lambda>_. 5) 2 ex_fleet (advanced 0 s (Serving [?ev]) ex_fleet)"
    using f_poll [of 0 2 ex_fleet sim_os "\<lambda>_. 5" "Some [?ev]" s] by (simp add: ex_fleet_def)
  from fleet_next [OF fleet_start this]
  have c: "fleet_reach sim_os sim_view (args_of ex_infs) (\<lambda>_. 5) 2 ex_fleet (advanced 0 s (Serving [?ev]) ex_fleet)" .
  have "\<forall>i<2. phase_of ex_fleet i = Waiting \<and> (\<exists>L. winv sim_view 5 ex_infs L (procs ex_fleet i))"
    using ex_serving_inv by (auto simp: ex_fleet_def serving_def)
  from fleet_ledger [OF sim_kernel_ok sim_memory_ok ex_idle this c] c show ?thesis
    by (intro exI [of _ "advanced 0 s (Serving [?ev]) ex_fleet"]) (simp add: advanced_def)
qed

end
