(* ===== verification/DmThreadingPool.thy ===== *)
theory DmThreadingPool
  imports Kernel
begin

text \<open>
  The thread pool of \<open>moudles/server/dm_threading_pool.c\<close>: one linked task queue per worker
  thread, with head and tail pointers. The first part translates the operations over a store
  of nodes; the second shows that they compute on the list of queued tasks (first in, first
  out), leak no node and return; the third lets a worker and any number of producers interleave
  between the statements that the queue's mutex protects.
\<close>

section \<open>State\<close>

record task_t =
  num1 :: ptr
  num2 :: int
  read_or_write :: int

record node_t =
  n_task :: task_t
  n_next :: ptr

record queue_t =
  q_head :: ptr
  q_tail :: ptr

record 'w pool = "'w process" +
  nodes :: "addr \<Rightarrow> node_t option"
  nbrk :: addr
  queues :: "queue_t list"
  num_threads :: int
  stop :: int

definition nget :: "ptr \<Rightarrow> (('w, 'a) pool_scheme, node_t) prog" where
  "nget p s = (case p of None \<Rightarrow> fault NullDeref s
     | Some a \<Rightarrow> (case nodes s a of None \<Rightarrow> fault BadPtr s | Some n \<Rightarrow> ret n s))"

definition nput :: "ptr \<Rightarrow> (node_t \<Rightarrow> node_t) \<Rightarrow> (('w, 'a) pool_scheme, unit) prog" where
  "nput p f s = (case p of None \<Rightarrow> fault NullDeref s
     | Some a \<Rightarrow> (case nodes s a of None \<Rightarrow> fault BadPtr s
         | Some n \<Rightarrow> ret () (s\<lparr>nodes := (nodes s)(a := Some (f n))\<rparr>)))"

definition free_node :: "ptr \<Rightarrow> (('w, 'a) pool_scheme, unit) prog" where
  "free_node p s = (case p of None \<Rightarrow> ret () s
     | Some a \<Rightarrow> (if nodes s a = None then fault DoubleFree s
         else ret () (s\<lparr>nodes := (nodes s)(a := None)\<rparr>)))"

definition qget :: "nat \<Rightarrow> (('w, 'a) pool_scheme, queue_t) prog" where
  "qget i s = (if i < length (queues s) then ret (queues s ! i) s else fault OutOfBounds s)"

definition qput :: "nat \<Rightarrow> (queue_t \<Rightarrow> queue_t) \<Rightarrow> (('w, 'a) pool_scheme, unit) prog" where
  "qput i f s = (if i < length (queues s) then ret () (s\<lparr>queues := (queues s)[i := f (queues s ! i)]\<rparr>)
     else fault OutOfBounds s)"

definition thread_call :: "'w kernel \<Rightarrow> thread_call \<Rightarrow> (('w, 'a) process_scheme, unit) prog" where
  "thread_call os c = bindP (sys os (Thread c)) (\<lambda>_. ret ())"

definition zero_task :: task_t where
  "zero_task = \<lparr>num1 = NULL, num2 = 0, read_or_write = 0\<rparr>"

text \<open>\<open>malloc(sizeof(node_t))\<close>: NULL when the allocator says so, else a block never used before.\<close>

definition malloc_node :: "'w kernel \<Rightarrow> (('w, 'a) pool_scheme, ptr) prog" where
  "malloc_node os = bindP (sys os (Malloc ''node_t'')) (\<lambda>m.
     if rv m = 0 then ret NULL
     else bindP (gets nbrk) (\<lambda>a.
       seqP (modify (\<lambda>s. s\<lparr>nbrk := Suc a, nodes := (nodes s)(a := Some \<lparr>n_task = zero_task, n_next = NULL\<rparr>)\<rparr>))
         (ret (Some a))))"

section \<open>Operations\<close>

definition queue_init :: "'w kernel \<Rightarrow> nat \<Rightarrow> (('w, 'a) pool_scheme, unit) prog" where
  "queue_init os i = blockP
     [qput i (\<lambda>q. q\<lparr>q_head := NULL\<rparr>), qput i (\<lambda>q. q\<lparr>q_tail := NULL\<rparr>),
      thread_call os (Mutex_init i), thread_call os (Cond_init i)]"

text \<open>The node is made outside the critical section, \<open>link_node\<close> is what the mutex protects.\<close>

definition new_node :: "'w kernel \<Rightarrow> task_t \<Rightarrow> (('w, 'a) pool_scheme, ptr) prog" where
  "new_node os task = bindP (malloc_node os) (\<lambda>newNode.
     seqP (nput newNode (\<lambda>n. n\<lparr>n_task := task\<rparr>))
    (seqP (nput newNode (\<lambda>n. n\<lparr>n_next := NULL\<rparr>)) (ret newNode)))"

definition link_node :: "'w kernel \<Rightarrow> nat \<Rightarrow> ptr \<Rightarrow> (('w, 'a) pool_scheme, unit) prog" where
  "link_node os i newNode = bindP (qget i) (\<lambda>q.
     if q_head q = NULL then blockP
       [qput i (\<lambda>q. q\<lparr>q_head := newNode\<rparr>), qput i (\<lambda>q. q\<lparr>q_tail := newNode\<rparr>), thread_call os (Cond_signal i)]
     else blockP
       [nput (q_tail q) (\<lambda>n. n\<lparr>n_next := newNode\<rparr>), qput i (\<lambda>q. q\<lparr>q_tail := newNode\<rparr>)])"

definition enqueue :: "'w kernel \<Rightarrow> nat \<Rightarrow> task_t \<Rightarrow> (('w, 'a) pool_scheme, unit) prog" where
  "enqueue os i task = bindP (new_node os task) (\<lambda>newNode. blockP
     [thread_call os (Mutex_lock i), link_node os i newNode, thread_call os (Mutex_unlock i)])"

text \<open>\<open>while (head == NULL) pthread_cond_wait\<close>: with nobody else running, this never ends.\<close>

partial_function (option) wait_loop ::
  "'w kernel \<Rightarrow> nat \<Rightarrow> ('w, 'a) pool_scheme \<Rightarrow> (unit res \<times> ('w, 'a) pool_scheme) option" where
  "wait_loop os i s = bindP (qget i) (\<lambda>q.
     ifP (q_head q = NULL) (seqP (thread_call os (Cond_wait i)) (wait_loop os i)) (ret ())) s"

definition take_node :: "nat \<Rightarrow> (('w, 'a) pool_scheme, task_t) prog" where
  "take_node i = bindP (qget i) (\<lambda>q. bindP (nget (q_head q)) (\<lambda>temp.
     bindP (nget (q_head q)) (\<lambda>h. seqP (qput i (\<lambda>q. q\<lparr>q_head := n_next h\<rparr>))
    (seqP (free_node (q_head q))
    (seqP (bindP (qget i) (\<lambda>q. whenP (q_head q = NULL) (qput i (\<lambda>q. q\<lparr>q_tail := NULL\<rparr>))))
      (ret (n_task temp)))))))"

definition dequeue :: "'w kernel \<Rightarrow> nat \<Rightarrow> (('w, 'a) pool_scheme, task_t) prog" where
  "dequeue os i = seqP (thread_call os (Mutex_lock i))
    (seqP (wait_loop os i)
    (bindP (take_node i) (\<lambda>task. seqP (thread_call os (Mutex_unlock i)) (ret task))))"

text \<open>The sentinel that ends a worker; both kinds of tasks have an empty handler.\<close>

definition is_exit :: "task_t \<Rightarrow> bool" where
  "is_exit task \<longleftrightarrow> num1 task = NULL \<and> num2 task = -1"

definition run_task :: "task_t \<Rightarrow> ('s, unit) prog" where
  "run_task task = (if read_or_write task = 2 then ret () else if read_or_write task = 3 then ret () else ret ())"

partial_function (option) execute_task ::
  "'w kernel \<Rightarrow> nat \<Rightarrow> ('w, 'a) pool_scheme \<Rightarrow> (unit res \<times> ('w, 'a) pool_scheme) option" where
  "execute_task os i s = bindP (dequeue os i) (\<lambda>task.
     ifP (is_exit task) (ret ()) (seqP (run_task task) (execute_task os i))) s"

text \<open>
  \<open>junk\<close> is what \<open>malloc\<close> left in the array of queues; an access to an array that could not be
  allocated is an access outside it.
\<close>

definition thread_pool_init :: "'w kernel \<Rightarrow> queue_t \<Rightarrow> int \<Rightarrow> (('w, 'a) pool_scheme, unit) prog" where
  "thread_pool_init os junk n = blockP
     [modify (\<lambda>s. s\<lparr>num_threads := n\<rparr>),
      bindP (sys os (Malloc ''threads'')) (\<lambda>_. ret ()),
      bindP (sys os (Malloc ''queues'')) (\<lambda>m. modify (\<lambda>s. s\<lparr>queues := (if rv m = 0 then [] else replicate (nat n) junk)\<rparr>)),
      modify (\<lambda>s. s\<lparr>stop := 0\<rparr>),
      forP [0..<nat n] (\<lambda>i. seqP (queue_init os i) (thread_call os (Pthread_create i)))]"

text \<open>
  \<open>pthread_join\<close> returns when the worker has: what the worker still has to do happens before.
  The workers share nothing but their own queues with the caller.
\<close>

definition pthread_join :: "'w kernel \<Rightarrow> nat \<Rightarrow> (('w, 'a) pool_scheme, unit) prog" where
  "pthread_join os i = seqP (execute_task os i) (thread_call os (Pthread_join i))"

definition exit_task :: task_t where
  "exit_task = \<lparr>num1 = NULL, num2 = -1, read_or_write = 0\<rparr>"

definition destroy_one :: "'w kernel \<Rightarrow> nat \<Rightarrow> (('w, 'a) pool_scheme, unit) prog" where
  "destroy_one os i = blockP
     [enqueue os i exit_task, thread_call os (Cond_signal i), pthread_join os i,
      thread_call os (Mutex_destroy i), thread_call os (Cond_destroy i)]"

definition thread_pool_destroy :: "'w kernel \<Rightarrow> (('w, 'a) pool_scheme, unit) prog" where
  "thread_pool_destroy os = seqP (modify (\<lambda>s. s\<lparr>stop := 1\<rparr>))
    (seqP (bindP (gets num_threads) (\<lambda>n. forP [0..<nat n] (destroy_one os)))
      (modify (\<lambda>s. s\<lparr>queues := []\<rparr>)))"

text \<open>\<open>add_task\<close> computes a random index and does not use it.\<close>

definition add_task :: "'w kernel \<Rightarrow> ptr \<Rightarrow> int \<Rightarrow> int \<Rightarrow> (('w, 'a) pool_scheme, unit) prog" where
  "add_task os n1 n2 rw = bindP (sys os (Proc Rand)) (\<lambda>r. bindP (gets num_threads) (\<lambda>n.
     if n = 0 then fault DivByZero
     else enqueue os 0 \<lparr>num1 = n1, num2 = n2, read_or_write = rw\<rparr>))"

section \<open>Executing the accessors\<close>

lemma wp_nget [wp_simps]: "wp (nget p) Q s = (\<exists>a n. p = Some a \<and> nodes s a = Some n \<and> Q n s)"
  by (auto simp: wp_def nget_def run_simps split: option.splits)

lemma wp_nput [wp_simps]: "wp (nput p f) Q s = (\<exists>a n. p = Some a \<and> nodes s a = Some n \<and>
     Q () (s\<lparr>nodes := (nodes s)(a := Some (f n))\<rparr>))"
  by (auto simp: wp_def nput_def run_simps split: option.splits)

lemma wp_free_node [wp_simps]: "wp (free_node p) Q s = (case p of None \<Rightarrow> Q () s
     | Some a \<Rightarrow> nodes s a \<noteq> None \<and> Q () (s\<lparr>nodes := (nodes s)(a := None)\<rparr>))"
  by (auto simp: wp_def free_node_def run_simps split: option.splits)

lemma wp_qget [wp_simps]: "wp (qget i) Q s = (i < length (queues s) \<and> Q (queues s ! i) s)"
  by (auto simp: wp_def qget_def run_simps)

lemma wp_qput [wp_simps]: "wp (qput i f) Q s = (i < length (queues s) \<and>
     Q () (s\<lparr>queues := (queues s)[i := f (queues s ! i)]\<rparr>))"
  by (auto simp: wp_def qput_def run_simps)

lemma wp_thread_call [wp_simps]: "wp (thread_call os c) Q s = Q ()
   (s\<lparr>world := snd (os (Thread c) (world s)), calls := (Thread c, fst (os (Thread c) (world s))) # calls s\<rparr>)"
  by (simp add: thread_call_def wp_simps)

section \<open>Chains of nodes\<close>

primrec chain :: "(addr \<Rightarrow> node_t option) \<Rightarrow> ptr \<Rightarrow> addr list \<Rightarrow> bool" where
  "chain m p [] \<longleftrightarrow> p = NULL"
| "chain m p (a # as) \<longleftrightarrow> p = Some a \<and> (\<exists>n. m a = Some n \<and> chain m (n_next n) as)"

lemma chain_other: "(\<And>a. a \<in> set as \<Longrightarrow> m' a = m a) \<Longrightarrow> chain m' p as = chain m p as"
  by (induction as arbitrary: p) auto

lemma chain_NULL [simp]: "chain m NULL as \<longleftrightarrow> as = []"
  by (cases as) auto

lemma chain_alloc: "chain m p as \<Longrightarrow> a \<in> set as \<Longrightarrow> \<exists>n. m a = Some n"
  by (induction as arbitrary: p) auto

lemma chain_link:
  "chain m p (as @ [x]) \<Longrightarrow> distinct (as @ [x]) \<Longrightarrow> y \<notin> set (as @ [x]) \<Longrightarrow> m x = Some n \<Longrightarrow>
   m y = Some k \<Longrightarrow> n_next k = NULL \<Longrightarrow> chain (m(x := Some (n\<lparr>n_next := Some y\<rparr>))) p (as @ [x, y])"
  by (induction as arbitrary: p) auto

definition task_at :: "(addr \<Rightarrow> node_t option) \<Rightarrow> addr \<Rightarrow> task_t" where
  "task_at m a = n_task (the (m a))"

text \<open>\<open>queue_ok m q as\<close>: the head starts the chain \<open>as\<close>, the tail is its last node, or both are NULL.\<close>

definition queue_ok :: "(addr \<Rightarrow> node_t option) \<Rightarrow> queue_t \<Rightarrow> addr list \<Rightarrow> bool" where
  "queue_ok m q as \<longleftrightarrow> chain m (q_head q) as \<and> q_tail q = (if as = [] then NULL else Some (last as))"

text \<open>
  \<open>holds s F tss\<close>: queue \<open>i\<close> of the pool holds the tasks \<open>tss ! i\<close>, in order; the chains are disjoint and,
  with the nodes \<open>F\<close> that are made but not yet linked, are all the allocated nodes.
\<close>

definition chains :: "('w, 'a) pool_scheme \<Rightarrow> addr set \<Rightarrow> addr list list \<Rightarrow> bool" where
  "chains s F ass \<longleftrightarrow> length ass = length (queues s) \<and>
     (\<forall>i < length ass. queue_ok (nodes s) (queues s ! i) (ass ! i) \<and> distinct (ass ! i) \<and> set (ass ! i) \<inter> F = {}) \<and>
     (\<forall>i < length ass. \<forall>j < length ass. i \<noteq> j \<longrightarrow> set (ass ! i) \<inter> set (ass ! j) = {}) \<and>
     dom (nodes s) = F \<union> (\<Union>i < length ass. set (ass ! i)) \<and> (\<forall>a\<ge>nbrk s. nodes s a = None)"

definition holds :: "('w, 'a) pool_scheme \<Rightarrow> addr set \<Rightarrow> task_t list list \<Rightarrow> bool" where
  "holds s F tss \<longleftrightarrow> (\<exists>ass. chains s F ass \<and> tss = map (map (task_at (nodes s))) ass)"

lemma chains_disjoint:
  assumes "chains s F ass" and "i < length ass"
  shows "j < length ass \<Longrightarrow> j \<noteq> i \<Longrightarrow> set (ass ! j) \<inter> set (ass ! i) = {}" and "set (ass ! i) \<inter> F = {}"
  using assms unfolding chains_def by blast+

lemma chains_dom:
  assumes "chains s F ass"
  shows "dom (nodes s) = F \<union> (\<Union>i < length ass. set (ass ! i))"
  using assms unfolding chains_def by blast

lemma chains_brk: "chains s F ass \<Longrightarrow> nbrk s \<le> a \<Longrightarrow> nodes s a = None"
  unfolding chains_def by blast

lemma chains_alloc:
  assumes "chains s F ass"
  shows "a \<in> F \<Longrightarrow> nodes s a \<noteq> None" and "i < length ass \<Longrightarrow> a \<in> set (ass ! i) \<Longrightarrow> nodes s a \<noteq> None"
  using chains_dom [OF assms] by blast+

lemma holds_calls [simp]: "holds (s\<lparr>world := w, calls := cs\<rparr>) F tss = holds s F tss"
  by (simp add: holds_def chains_def)

lemma holds_length: "holds s F tss \<Longrightarrow> length tss = length (queues s)"
  by (auto simp: holds_def chains_def)

text \<open>A queue whose nodes are untouched stays as it is.\<close>

lemma queue_ok_other:
  assumes "\<And>a. a \<in> set as \<Longrightarrow> m' a = m a"
  shows "queue_ok m' q as = queue_ok m q as" and "map (task_at m') as = map (task_at m) as"
  using chain_other [of as m' m, OF assms] assms by (simp_all add: queue_ok_def task_at_def)

text \<open>
  Replacing the chain of queue \<open>i\<close> by nodes of its own and floating ones: the other queues are
  not touched.
\<close>

lemma holds_update:
  assumes c: "chains s F ass" and i: "i < length ass"
    and s': "queues s' = (queues s)[i := q]" "queue_ok (nodes s') q as" "distinct as"
      "\<And>a. a \<notin> F \<union> set (ass ! i) \<Longrightarrow> nodes s' a = nodes s a"
      "set as \<subseteq> F \<union> set (ass ! i)" "F' \<subseteq> F \<union> set (ass ! i)" "set as \<inter> F' = {}"
      "dom (nodes s') \<inter> (F \<union> set (ass ! i)) = F' \<union> set as" "\<forall>a\<ge>nbrk s'. nodes s' a = None"
  shows "holds s' F' ((map (map (task_at (nodes s))) ass)[i := map (task_at (nodes s')) as])"
proof -
  have other: "a \<notin> F \<union> set (ass ! i)" if j: "a \<in> set (ass ! j)" "j < length ass" "j \<noteq> i" for a j
    using chains_disjoint(1) [OF c i j(2,3)] chains_disjoint(2) [OF c j(2)] j(1) by blast
  then have same: "nodes s' a = nodes s a" if "a \<in> set (ass ! j)" "j < length ass" "j \<noteq> i" for a j
    using s'(4) that by blast
  let ?ass = "ass[i := as]"
  have "dom (nodes s') = F' \<union> (\<Union>j < length ass. set (?ass ! j))"
  proof (intro equalityI subsetI)
    fix a assume a: "a \<in> dom (nodes s')"
    show "a \<in> F' \<union> (\<Union>j < length ass. set (?ass ! j))"
    proof (cases "a \<in> F \<union> set (ass ! i)")
      case True
      then have "a \<in> F' \<union> set as" using a s'(8) by blast
      then show ?thesis using i by (auto intro!: bexI [of _ i])
    next
      case False
      then have "a \<in> dom (nodes s)" using a s'(4) by (simp add: domIff)
      then obtain j where "j < length ass" "a \<in> set (ass ! j)" using c False by (auto simp: chains_def)
      moreover from this False have "?ass ! j = ass ! j" by (cases "j = i") auto
      ultimately have "a \<in> (\<Union>j < length ass. set (?ass ! j))" by (intro UN_I [of j]) auto
      then show ?thesis by blast
    qed
  next
    fix a assume a: "a \<in> F' \<union> (\<Union>j < length ass. set (?ass ! j))"
    have "a \<in> F' \<union> set as \<or> (\<exists>j < length ass. j \<noteq> i \<and> a \<in> set (ass ! j))"
    proof (cases "a \<in> F'")
      case False
      with a obtain j where "j < length ass" "a \<in> set (?ass ! j)" by blast
      then show ?thesis by (cases "j = i") auto
    qed simp
    then consider "a \<in> F' \<union> set as" | j where "j < length ass" "j \<noteq> i" "a \<in> set (ass ! j)" by blast
    then show "a \<in> dom (nodes s')"
    proof cases
      case 1
      then show ?thesis using s'(8) by blast
    next
      case (2 j)
      then have "a \<in> dom (nodes s)" using c by (auto simp: chains_def)
      then show ?thesis using same [of a j] 2 by (simp add: domIff)
    qed
  qed
  moreover have "queue_ok (nodes s') (queues s ! j) (ass ! j)" if "j < length ass" "j \<noteq> i" for j
    using c queue_ok_other(1) [of "ass ! j" "nodes s'" "nodes s", OF same] that by (simp add: chains_def)
  moreover have "set (ass ! j) \<inter> set as = {}" "set (ass ! j) \<inter> F' = {}" if "j < length ass" "j \<noteq> i" for j
    using other [of _ j] that s'(5,6) by blast+
  ultimately have "chains s' F' ?ass"
    using c i s'(1-3,7,9) unfolding chains_def by (simp add: nth_list_update Int_commute)
  moreover have "map (task_at (nodes s')) (ass ! j) = map (task_at (nodes s)) (ass ! j)" if "j < length ass" "j \<noteq> i" for j
    by (rule queue_ok_other(2)) (rule same, use that in auto)
  then have "(map (map (task_at (nodes s))) ass)[i := map (task_at (nodes s')) as] = map (map (task_at (nodes s'))) ?ass"
  proof -
    assume same': "\<And>j. j < length ass \<Longrightarrow> j \<noteq> i \<Longrightarrow> map (task_at (nodes s')) (ass ! j) = map (task_at (nodes s)) (ass ! j)"
    show ?thesis
    proof (rule nth_equalityI)
      fix k assume "k < length ((map (map (task_at (nodes s))) ass)[i := map (task_at (nodes s')) as])"
      then show "(map (map (task_at (nodes s))) ass)[i := map (task_at (nodes s')) as] ! k = map (map (task_at (nodes s'))) ?ass ! k"
        using same' [of k] by (cases "k = i") (simp_all del: map_eq_conv)
    qed simp
  qed
  ultimately show ?thesis by (auto simp: holds_def)
qed

section \<open>The operations compute on lists\<close>

text \<open>\<open>node_for s p t\<close>: \<open>p\<close> is a made, unlinked node for the task \<open>t\<close>.\<close>

definition node_for :: "('w, 'a) pool_scheme \<Rightarrow> addr \<Rightarrow> task_t \<Rightarrow> bool" where
  "node_for s a t \<longleftrightarrow> nodes s a = Some \<lparr>n_task = t, n_next = NULL\<rparr>"

lemma new_node_spec:
  assumes mem: "memory_ok os" and h: "holds s F tss"
  shows "wp (new_node os t) (\<lambda>p s'. p = Some (nbrk s) \<and> holds s' (insert (nbrk s) F) tss \<and> node_for s' (nbrk s) t \<and>
     (\<forall>a. a \<noteq> nbrk s \<longrightarrow> nodes s' a = nodes s a) \<and> queues s' = queues s \<and> num_threads s' = num_threads s \<and> nbrk s \<notin> F) s"
proof -
  obtain ass where c: "chains s F ass" and tss: "tss = map (map (task_at (nodes s))) ass"
    using h by (auto simp: holds_def)
  let ?b = "nbrk s"
  have "nodes s ?b = None" using c by (simp add: chains_def)
  then have fresh: "nodes s ?b = None" "?b \<notin> F" "j < length ass \<Longrightarrow> ?b \<notin> set (ass ! j)" for j
    using chains_alloc(1) [OF c, of ?b] chains_alloc(2) [OF c, of j ?b] by blast+
  let ?m = "(nodes s)(?b := Some \<lparr>n_task = t, n_next = NULL\<rparr>)"
  have same: "queue_ok ?m q (ass ! j) = queue_ok (nodes s) q (ass ! j)"
      "map (task_at ?m) (ass ! j) = map (task_at (nodes s)) (ass ! j)" if "j < length ass" for q j
  proof -
    have sm: "?m a = nodes s a" if "a \<in> set (ass ! j)" for a using fresh(3) [OF \<open>j < length ass\<close>] that by auto
    show "queue_ok ?m q (ass ! j) = queue_ok (nodes s) q (ass ! j)" by (rule queue_ok_other(1) [OF sm])
    show "map (task_at ?m) (ass ! j) = map (task_at (nodes s)) (ass ! j)" by (rule queue_ok_other(2) [OF sm])
  qed
  have h': "holds (s\<lparr>world := w, calls := cs, nbrk := Suc ?b, nodes := ?m\<rparr>) (insert ?b F) tss" for w cs
    unfolding holds_def
  proof (intro exI conjI)
    show "chains (s\<lparr>world := w, calls := cs, nbrk := Suc ?b, nodes := ?m\<rparr>) (insert ?b F) ass"
      using c same(1) fresh by (auto simp: chains_def)
    show "tss = map (map (task_at (nodes (s\<lparr>world := w, calls := cs, nbrk := Suc ?b, nodes := ?m\<rparr>)))) ass"
      using tss same(2) by (intro nth_equalityI) simp_all
  qed
  have "rv (fst (os (Malloc ''node_t'') (world s))) \<noteq> 0" using mem by (simp add: memory_ok_def)
  then show ?thesis
    using h' fresh(2) by (simp add: new_node_def malloc_node_def wp_simps node_for_def zero_task_def)
qed

lemma link_node_spec:
  assumes h: "holds s F tss" and i: "i < length tss" and x: "x \<in> F" "node_for s x t"
  shows "wp (link_node os i (Some x)) (\<lambda>_ s'. holds s' (F - {x}) (tss[i := tss ! i @ [t]]) \<and>
     length (queues s') = length (queues s) \<and> num_threads s' = num_threads s \<and> nbrk s' = nbrk s \<and>
     (\<forall>a \<in> F. nodes s' a = nodes s a) \<and> (tss ! i = [] \<longrightarrow> (\<exists>r. calls s' = (Thread (Cond_signal i), r) # calls s))) s"
proof -
  obtain ass where c: "chains s F ass" and tss: "tss = map (map (task_at (nodes s))) ass"
    using h by (auto simp: holds_def)
  have i': "i < length ass" and n: "length ass = length (queues s)" using i tss c by (simp_all add: chains_def)
  let ?as = "ass ! i" and ?q = "queues s ! i"
  have q: "queue_ok (nodes s) ?q ?as" "distinct ?as" using c i' by (simp_all add: chains_def)
  have xn: "x \<notin> set ?as" using chains_disjoint(2) [OF c i'] x(1) by blast
  have F: "F \<subseteq> dom (nodes s)" "set ?as \<subseteq> dom (nodes s)" using chains_dom [OF c] i' by auto
  have tx: "nodes s x = Some \<lparr>n_task = t, n_next = NULL\<rparr>" using x(2) by (simp add: node_for_def)
  have upd: "holds s' (F - {x}) tss'"
    if "queues s' = (queues s)[i := q]" "queue_ok (nodes s') q (?as @ [x])" "\<And>a. a \<notin> set ?as \<Longrightarrow> nodes s' a = nodes s a"
      "map (task_at (nodes s')) (?as @ [x]) = map (task_at (nodes s)) ?as @ [t]" "dom (nodes s') = dom (nodes s)" "nbrk s' = nbrk s"
      "tss' = tss[i := tss ! i @ [t]]" for s' :: "('a, 'b) pool_scheme" and q tss'
  proof -
    have "holds s' (F - {x}) ((map (map (task_at (nodes s))) ass)[i := map (task_at (nodes s')) (?as @ [x])])"
    proof (rule holds_update [OF c i' that(1,2)])
      show "dom (nodes s') \<inter> (F \<union> set ?as) = (F - {x}) \<union> set (?as @ [x])"
        using F x(1) that(5) by auto
      have "a \<notin> dom (nodes s)" if "nbrk s \<le> a" for a using chains_brk [OF c that] by (simp add: domIff)
      then show "\<forall>a\<ge>nbrk s'. nodes s' a = None" using that(5,6) by (metis domIff)
    qed (use q xn x(1) that(3) chains_disjoint(2) [OF c i'] in auto)
    then show ?thesis unfolding that(4,7) using i' by (simp add: tss)
  qed
  show ?thesis
  proof (cases "?as = []")
    case True
    then have "q_head ?q = NULL" using q by (simp add: queue_ok_def)
    then show ?thesis
      using True i' n tx i tss
      by (auto simp: link_node_def wp_simps task_at_def queue_ok_def intro!: upd)
  next
    case False
    then obtain bs y where bs: "?as = bs @ [y]" by (cases ?as rule: rev_cases) auto
    have "q_head ?q \<noteq> NULL" using q(1) False by (metis chain_NULL queue_ok_def)
    moreover have "q_tail ?q = Some y" using q(1) bs by (simp add: queue_ok_def)
    moreover obtain ny where ny: "nodes s y = Some ny" using F(2) bs by auto
    moreover have "chain ((nodes s)(y := Some (ny\<lparr>n_next := Some x\<rparr>))) (q_head ?q) (bs @ [y, x])"
      using chain_link [of "nodes s" "q_head ?q" bs y x ny] q bs ny tx xn by (simp add: queue_ok_def)
    moreover have "map (task_at ((nodes s)(y := Some (ny\<lparr>n_next := Some x\<rparr>)))) (bs @ [y, x]) = map (task_at (nodes s)) (bs @ [y]) @ [t]"
      using q bs ny tx xn by (auto simp: task_at_def)
    moreover have "y \<notin> F" using chains_disjoint(2) [OF c i'] bs by auto
    moreover have "insert y (dom (nodes s)) = dom (nodes s)" using ny by auto
    moreover have "tss ! i \<noteq> []" using tss i' bs by simp
    ultimately show ?thesis
      using i' n bs by (auto simp: link_node_def wp_simps queue_ok_def intro!: upd)
  qed
qed

lemma take_node_spec:
  assumes h: "holds s F tss" and i: "i < length tss" and t: "tss ! i = t # ts"
  shows "wp (take_node i) (\<lambda>r s'. r = t \<and> holds s' F (tss[i := ts]) \<and> length (queues s') = length (queues s) \<and>
     num_threads s' = num_threads s \<and> nbrk s' = nbrk s \<and> calls s' = calls s \<and> world s' = world s \<and>
     (\<forall>a \<in> F. nodes s' a = nodes s a)) s"
proof -
  obtain ass where c: "chains s F ass" and tss: "tss = map (map (task_at (nodes s))) ass"
    using h by (auto simp: holds_def)
  have i': "i < length ass" and n: "length ass = length (queues s)" using i tss c by (simp_all add: chains_def)
  let ?q = "queues s ! i"
  obtain a as where as: "ass ! i = a # as" using t i' tss by (cases "ass ! i") auto
  have q: "queue_ok (nodes s) ?q (a # as)" "distinct (a # as)" using c i' as by (auto simp: chains_def)
  then obtain k where k: "q_head ?q = Some a" "nodes s a = Some k" "chain (nodes s) (n_next k) as"
    by (auto simp: queue_ok_def)
  have "set (ass ! i) \<subseteq> dom (nodes s)" "F \<subseteq> dom (nodes s)" using chains_dom [OF c] i' by auto
  then have F: "a \<notin> F" "set as \<subseteq> dom (nodes s)" "F \<subseteq> dom (nodes s)"
    using chains_disjoint(2) [OF c i'] unfolding as by auto
  let ?m = "(nodes s)(a := None)"
  let ?q' = "?q\<lparr>q_head := n_next k, q_tail := if as = [] then NULL else q_tail ?q\<rparr>"
  have other: "?m b = nodes s b" if "b \<in> set as" for b using that q(2) by auto
  have ok: "queue_ok ?m ?q' as"
    using k(3) q chain_other [of as ?m "nodes s", OF other] by (auto simp: queue_ok_def)
  have tasks: "task_at (nodes s) a = t" "map (task_at ?m) as = ts"
    using t i' tss as queue_ok_other(2) [of as ?m "nodes s", OF other] by auto
  have "holds (s\<lparr>queues := (queues s)[i := ?q'], nodes := ?m\<rparr>) F
      ((map (map (task_at (nodes s))) ass)[i := map (task_at (nodes (s\<lparr>queues := (queues s)[i := ?q'], nodes := ?m\<rparr>))) as])"
  proof (rule holds_update [OF c i'])
    show "queue_ok (nodes (s\<lparr>queues := (queues s)[i := ?q'], nodes := ?m\<rparr>)) ?q' as" using ok by simp
    show "dom (nodes (s\<lparr>queues := (queues s)[i := ?q'], nodes := ?m\<rparr>)) \<inter> (F \<union> set (ass ! i)) = F \<union> set as"
      using F as q(2) by auto
    show "\<forall>b\<ge>nbrk (s\<lparr>queues := (queues s)[i := ?q'], nodes := ?m\<rparr>). nodes (s\<lparr>queues := (queues s)[i := ?q'], nodes := ?m\<rparr>) b = None"
      using chains_brk [OF c] by simp
  qed (use q as chains_disjoint(2) [OF c i'] in auto)
  then have new: "holds (s\<lparr>queues := (queues s)[i := ?q'], nodes := ?m\<rparr>) F (tss[i := ts])"
    using tasks(2) by (simp add: tss)
  moreover have "s\<lparr>nodes := ?m, queues := X\<rparr> = s\<lparr>queues := X, nodes := ?m\<rparr>" for X by simp
  ultimately have new': "holds (s\<lparr>nodes := ?m, queues := (queues s)[i := ?q']\<rparr>) F (tss[i := ts])" by (simp only:)
  have nx: "n_next k = NULL \<longleftrightarrow> as = []" using k(3) by (cases as) auto
  show ?thesis
    using new new' nx k F(1) tasks(1) i' n by (auto simp: take_node_def wp_simps task_at_def)
qed

lemma enqueue_spec:
  assumes mem: "memory_ok os" and h: "holds s {} tss" and i: "i < length tss"
  shows "wp (enqueue os i t) (\<lambda>_ s'. holds s' {} (tss[i := tss ! i @ [t]]) \<and> num_threads s' = num_threads s) s"
proof -
  have "wp (link_node os i (Some (nbrk s))) (\<lambda>_. wp (thread_call os (Mutex_unlock i))
      (\<lambda>_ s'. holds s' {} (tss[i := tss ! i @ [t]]) \<and> num_threads s' = num_threads s))
      (s'\<lparr>world := w, calls := cs\<rparr>)"
    if "holds s' {nbrk s} tss" "node_for s' (nbrk s) t" "num_threads s' = num_threads s" for s' w cs
  proof (rule wp_mono [OF link_node_spec [where F = "{nbrk s}" and tss = tss and t = t]])
    show "holds (s'\<lparr>world := w, calls := cs\<rparr>) {nbrk s} tss" using that(1) by simp
    show "node_for (s'\<lparr>world := w, calls := cs\<rparr>) (nbrk s) t" using that(2) by (simp add: node_for_def)
  qed (use i that(3) in \<open>auto simp: wp_simps\<close>)
  then show ?thesis
    unfolding enqueue_def wp_bindP
    by (intro wp_mono [OF new_node_spec [OF mem h]]) (auto simp: wp_seqP' wp_ret' wp_thread_call)
qed

lemma queue_ok_head: "queue_ok m q as \<Longrightarrow> q_head q = NULL \<longleftrightarrow> as = []"
  by (cases as) (auto simp: queue_ok_def)

lemma wait_loop_ready:
  assumes "holds s F tss" and "i < length tss" and "tss ! i \<noteq> []"
  shows "wait_loop os i s = Some (Ret (), s)"
proof -
  obtain ass where "chains s F ass" and "tss = map (map (task_at (nodes s))) ass"
    using assms(1) by (auto simp: holds_def)
  then have "i < length (queues s)" "q_head (queues s ! i) \<noteq> NULL"
    using assms(2,3) queue_ok_head [of "nodes s" "queues s ! i" "ass ! i"] by (auto simp: chains_def)
  then show ?thesis by (subst wait_loop.simps) (simp add: run_simps qget_def del: not_None_eq)
qed

lemma dequeue_spec:
  assumes h: "holds s F tss" and i: "i < length tss" and t: "tss ! i = t # ts"
  shows "wp (dequeue os i) (\<lambda>r s'. r = t \<and> holds s' F (tss[i := ts]) \<and> num_threads s' = num_threads s) s"
proof -
  let ?c = "Thread (Mutex_lock i)"
  let ?s = "s\<lparr>world := snd (os ?c (world s)), calls := (?c, fst (os ?c (world s))) # calls s\<rparr>"
  have h': "holds ?s F tss" using h by simp
  have "wp (take_node i) (\<lambda>task. wp (seqP (thread_call os (Mutex_unlock i)) (ret task))
      (\<lambda>r s'. r = t \<and> holds s' F (tss[i := ts]) \<and> num_threads s' = num_threads s)) ?s"
    by (rule wp_mono [OF take_node_spec [OF h' i t]]) (simp add: wp_simps)
  moreover have "wp (wait_loop os i) Q ?s = Q () ?s" for Q
    using wait_loop_ready [OF h' i, of os] t by (simp add: wp_def)
  ultimately show ?thesis by (simp add: dequeue_def wp_seqP' wp_bindP' wp_thread_call)
qed

text \<open>A worker consumes its queue up to the first sentinel.\<close>

lemma execute_task_unfold:
  "wp (execute_task os i) Q s = wp (bindP (dequeue os i) (\<lambda>task.
     ifP (is_exit task) (ret ()) (seqP (run_task task) (execute_task os i)))) Q s"
  by (simp add: wp_def execute_task.simps [of os i])

lemma execute_task_spec:
  "holds s F tss \<Longrightarrow> i < length tss \<Longrightarrow> tss ! i = ts @ x # rest \<Longrightarrow> \<forall>t \<in> set ts. \<not> is_exit t \<Longrightarrow> is_exit x \<Longrightarrow>
   wp (execute_task os i) (\<lambda>_ s'. holds s' F (tss[i := rest]) \<and> num_threads s' = num_threads s) s"
proof (induction ts arbitrary: s tss)
  case Nil
  then show ?case
    by (subst execute_task_unfold) (auto simp: wp_simps intro!: wp_mono [OF dequeue_spec])
next
  case (Cons t ts)
  have "wp (execute_task os i) (\<lambda>_ s'. holds s' F (tss[i := rest]) \<and> num_threads s' = num_threads s) s'"
    if "holds s' F (tss[i := ts @ x # rest])" "num_threads s' = num_threads s" for s' :: "('a, 'b) pool_scheme"
    using Cons.IH [OF that(1)] Cons.prems that(2) by simp
  then show ?case
    using Cons.prems by (subst execute_task_unfold)
      (auto simp: wp_simps run_task_def intro!: wp_mono [OF dequeue_spec [where t = t and ts = "ts @ x # rest"]])
qed

section \<open>The pool as a whole\<close>

text \<open>
  The interface of a bank of first-in-first-out queues, and what its clients rely on: a batch of
  tasks comes out in the order it went in, and other queues are not concerned.
\<close>

primrec collect :: "nat \<Rightarrow> ('s, 't) prog \<Rightarrow> ('s, 't list) prog" where
  "collect 0 m = ret []"
| "collect (Suc n) m = bindP m (\<lambda>t. bindP (collect n m) (\<lambda>ts. ret (t # ts)))"

locale fifo_bank =
  fixes put :: "nat \<Rightarrow> 't \<Rightarrow> ('s, unit) prog"
    and get :: "nat \<Rightarrow> ('s, 't) prog"
    and content :: "'s \<Rightarrow> 't list list \<Rightarrow> bool"
  assumes put_spec: "content s tss \<Longrightarrow> i < length tss \<Longrightarrow> wp (put i t) (\<lambda>_ s'. content s' (tss[i := tss ! i @ [t]])) s"
    and get_spec: "content s tss \<Longrightarrow> i < length tss \<Longrightarrow> tss ! i = t # ts \<Longrightarrow>
      wp (get i) (\<lambda>r s'. r = t \<and> content s' (tss[i := ts])) s"
begin

lemma put_all: "content s tss \<Longrightarrow> i < length tss \<Longrightarrow>
    wp (forP ts (put i)) (\<lambda>_ s'. content s' (tss[i := tss ! i @ ts])) s"
proof (induction ts arbitrary: s tss)
  case Nil
  then show ?case by (simp add: wp_ret)
next
  case (Cons t ts)
  show ?case
    using Cons.IH [of _ "tss[i := tss ! i @ [t]]"] Cons.prems
    by (auto simp: wp_seqP intro!: wp_mono [OF put_spec [OF Cons.prems(1,2)]])
qed

lemma collect_spec: "content s tss \<Longrightarrow> i < length tss \<Longrightarrow> tss ! i = ts @ us \<Longrightarrow>
    wp (collect (length ts) (get i)) (\<lambda>r s'. r = ts \<and> content s' (tss[i := us])) s"
proof (induction ts arbitrary: s tss)
  case Nil
  then show ?case by (simp add: wp_ret) (metis list_update_id)
next
  case (Cons t ts)
  have "wp (bindP (collect (length ts) (get i)) (\<lambda>ts. ret (t # ts))) (\<lambda>r s'. r = t # ts \<and> content s' (tss[i := us])) s'"
    if "content s' (tss[i := ts @ us])" for s'
    unfolding wp_bindP
    by (rule wp_mono [OF Cons.IH [OF that]]) (use Cons.prems(2) in \<open>simp_all add: wp_ret\<close>)
  then show ?case
    using Cons.prems by (auto simp: wp_bindP [of "get i"] intro!: wp_mono [OF get_spec])
qed

lemma first_in_first_out:
  assumes "content s tss" and "i < length tss" and "tss ! i = []"
  shows "wp (seqP (forP ts (put i)) (collect (length ts) (get i))) (\<lambda>r s'. r = ts \<and> content s' tss) s"
proof -
  have "wp (collect (length ts) (get i)) (\<lambda>r s'. r = ts \<and> content s' tss) s'" if "content s' (tss[i := ts])" for s'
    using collect_spec [OF that, of i ts "[]"] assms(2,3) by (metis append_Nil2 length_list_update list_update_id list_update_overwrite nth_list_update_eq)
  then show ?thesis
    using assms by (auto simp: wp_seqP intro!: wp_mono [OF put_all])
qed

end

text \<open>The pool's queues are such a bank, on every kernel whose allocator does not fail.\<close>

interpretation pq: fifo_bank "enqueue os" "dequeue os" "\<lambda>s tss. memory_ok os \<and> holds s {} tss" for os
  by unfold_locales (auto intro: wp_mono [OF enqueue_spec] wp_mono [OF dequeue_spec])

text \<open>Initialisation makes \<open>n\<close> empty queues.\<close>

lemma holds_empty:
  "nodes s = (\<lambda>_. None) \<Longrightarrow> \<forall>q \<in> set (queues s). q_head q = NULL \<and> q_tail q = NULL \<Longrightarrow> holds s {} (replicate (length (queues s)) [])"
  unfolding holds_def chains_def
  by (rule exI [of _ "replicate (length (queues s)) []"]) (auto simp: queue_ok_def)

lemma init_one:
  assumes "i < length (queues s)"
    and "\<And>w cs. Q () (s\<lparr>queues := (queues s)[i := \<lparr>q_head = NULL, q_tail = NULL\<rparr>], world := w, calls := cs\<rparr>)"
  shows "wp (seqP (queue_init os i) (thread_call os (Pthread_create i))) Q s"
proof -
  have empty: "q\<lparr>q_head := NULL, q_tail := NULL\<rparr> = \<lparr>q_head = NULL, q_tail = NULL\<rparr>" for q :: queue_t
    by (cases q) simp
  show ?thesis using assms by (simp add: queue_init_def wp_simps empty)
qed

lemma init_loop_spec:
  "i \<le> length (queues s) \<Longrightarrow> wp (forP [i..<length (queues s)] (\<lambda>i. seqP (queue_init os i) (thread_call os (Pthread_create i))))
    (\<lambda>_ s'. length (queues s') = length (queues s) \<and> nodes s' = nodes s \<and> num_threads s' = num_threads s \<and>
       (\<forall>k < length (queues s). queues s' ! k = (if i \<le> k then \<lparr>q_head = NULL, q_tail = NULL\<rparr> else queues s ! k))) s"
proof (induction "length (queues s) - i" arbitrary: i s)
  case 0
  then show ?case by (simp add: wp_ret)
next
  case (Suc n)
  then have i: "i < length (queues s)" and up: "[i..<length (queues s)] = i # [Suc i..<length (queues s)]"
    by (simp_all add: upt_conv_Cons)
  let ?q = "\<lparr>q_head = NULL, q_tail = NULL\<rparr>"
  have "wp (forP [Suc i..<length (queues s)] (\<lambda>i. seqP (queue_init os i) (thread_call os (Pthread_create i))))
    (\<lambda>_ s'. length (queues s') = length (queues s) \<and> nodes s' = nodes s \<and> num_threads s' = num_threads s \<and>
       (\<forall>k < length (queues s). queues s' ! k = (if i \<le> k then ?q else queues s ! k)))
    (s\<lparr>queues := (queues s)[i := ?q], world := w, calls := cs\<rparr>)" for w cs
  proof -
    let ?s = "s\<lparr>queues := (queues s)[i := ?q], world := w, calls := cs\<rparr>"
    have n: "n = length (queues ?s) - Suc i" "Suc i \<le> length (queues ?s)" using Suc.hyps(2) i by simp_all
    have "length (queues ?s) = length (queues s)" by simp
    with wp_mono [OF Suc.hyps(1) [OF n]] show ?thesis
      using i by (auto simp: nth_list_update not_less_eq_eq le_Suc_eq)
  qed
  then show ?case
    unfolding up forP.simps wp_seqP [of "seqP _ _"] by (intro init_one i)
qed

lemma thread_pool_init_spec:
  assumes mem: "memory_ok os" and nodes: "nodes s = (\<lambda>_. None)"
  shows "wp (thread_pool_init os junk n) (\<lambda>_ s'. holds s' {} (replicate (nat n) []) \<and> num_threads s' = n) s"
proof -
  have m: "rv (fst (os (Malloc x) w)) \<noteq> 0" for x w using mem by (simp add: memory_ok_def)
  have "wp (forP [0..<nat n] (\<lambda>i. seqP (queue_init os i) (thread_call os (Pthread_create i))))
      (\<lambda>_ s'. holds s' {} (replicate (nat n) []) \<and> num_threads s' = n) s'"
    if "length (queues s') = nat n" "nodes s' = (\<lambda>_. None)" "num_threads s' = n" for s' :: "('a, 'b) pool_scheme"
  proof -
    have "holds s'' {} (replicate (nat n) [])"
      if "length (queues s'') = nat n" "nodes s'' = (\<lambda>_. None)" "\<forall>k < nat n. queues s'' ! k = \<lparr>q_head = NULL, q_tail = NULL\<rparr>"
      for s'' :: "('a, 'b) pool_scheme"
      using holds_empty [of s''] that by (simp add: all_set_conv_all_nth)
    then show ?thesis
      using wp_mono [OF init_loop_spec [of 0 s' os]] that by simp
  qed
  then show ?thesis
    using m nodes by (simp add: thread_pool_init_def wp_seqP' wp_ret' wp_simps)
qed

text \<open>\<open>thread_pool_destroy\<close>: every worker runs its queue down to the sentinel and no node is left.\<close>

lemma destroy_loop_spec:
  assumes mem: "memory_ok os" and clean: "\<forall>ts \<in> set tss. \<forall>t \<in> set ts. \<not> is_exit t"
  shows "n \<le> length tss \<Longrightarrow> holds s {} tss \<Longrightarrow> wp (forP [n..<length tss] (destroy_one os))
     (\<lambda>_ s'. holds s' {} (take n tss @ replicate (length tss - n) [])) s"
  using clean
proof (induction "length tss - n" arbitrary: n s tss)
  case 0
  then show ?case by (simp add: wp_ret)
next
  case (Suc m)
  then have n: "n < length tss" and up: "[n..<length tss] = n # [Suc n..<length tss]"
    by (simp_all add: upt_conv_Cons)
  let ?tss = "tss[n := []]"
  have rest: "wp (forP [Suc n..<length tss] (destroy_one os))
     (\<lambda>_ s'. holds s' {} (take n tss @ replicate (length tss - n) [])) s'" if "holds s' {} ?tss" for s' :: "('a, 'b) pool_scheme"
  proof -
    have "m = length ?tss - Suc n" "Suc n \<le> length ?tss" using Suc.hyps(2) n by simp_all
    moreover have "\<forall>ts \<in> set ?tss. \<forall>t \<in> set ts. \<not> is_exit t"
      using Suc.prems(3) set_update_subset_insert [of tss n "[]"] by auto
    moreover have "take (Suc n) ?tss @ replicate (length ?tss - Suc n) [] = take n tss @ replicate (length tss - n) []"
      using n by (simp add: take_Suc_conv_app_nth Suc_diff_Suc [symmetric])
    ultimately show ?thesis using Suc.hyps(1) [of ?tss "Suc n" s'] that by simp
  qed
  have run: "wp (execute_task os n) (\<lambda>_ s'. \<forall>w cs. wp (forP [Suc n..<length tss] (destroy_one os))
     (\<lambda>_ s'. holds s' {} (take n tss @ replicate (length tss - n) [])) (s'\<lparr>world := w, calls := cs\<rparr>)) s'"
    if "holds s' {} (tss[n := tss ! n @ [exit_task]])" for s' :: "('a, 'b) pool_scheme"
    by (rule wp_mono [OF execute_task_spec [OF that, where x = exit_task and ts = "tss ! n" and rest = "[]"]])
      (use n Suc.prems(3) in \<open>auto simp: is_exit_def exit_task_def intro!: rest\<close>)
  have step: "wp (execute_task os n) (\<lambda>_. wp (thread_call os (Pthread_join n)) (\<lambda>_. wp (thread_call os (Mutex_destroy n))
     (\<lambda>_. wp (thread_call os (Cond_destroy n)) (\<lambda>_. wp (forP [Suc n..<length tss] (destroy_one os))
       (\<lambda>_ s'. holds s' {} (take n tss @ replicate (length tss - n) [])))))) (s'\<lparr>world := w, calls := cs\<rparr>)"
    if "holds s' {} (tss[n := tss ! n @ [exit_task]])" for s' :: "('a, 'b) pool_scheme" and w cs
    by (rule wp_mono [OF run]) (use that in \<open>simp_all add: wp_thread_call\<close>)
  show ?case
    unfolding up forP.simps
    by (simp add: destroy_one_def wp_seqP' wp_ret' pthread_join_def)
      (rule wp_mono [OF enqueue_spec [OF mem Suc.prems(2) n]], simp add: wp_thread_call [of _ "Cond_signal _"] step)
qed

lemma thread_pool_destroy_spec:
  assumes mem: "memory_ok os" and clean: "\<forall>ts \<in> set tss. \<forall>t \<in> set ts. \<not> is_exit t"
    and h: "holds s {} tss" and n: "num_threads s = int (length tss)"
  shows "wp (thread_pool_destroy os) (\<lambda>_ s'. nodes s' = (\<lambda>_. None) \<and> queues s' = []) s"
proof -
  have free: "nodes s' = (\<lambda>_. None)" if empty: "holds s' {} (replicate k [])" for s' :: "('a, 'b) pool_scheme" and k
  proof -
    obtain ass where c: "chains s' {} ass" and eq: "replicate k [] = map (map (task_at (nodes s'))) ass"
      using empty by (auto simp: holds_def)
    have "ass ! j = []" if "j < length ass" for j
      using arg_cong [OF eq, of "\<lambda>xs. xs ! j"] arg_cong [OF eq, of length] that by simp
    then have "dom (nodes s') = {}" using chains_dom [OF c] by simp
    then show ?thesis by simp
  qed
  have "holds (s\<lparr>stop := 1\<rparr>) {} tss" using h by (simp add: holds_def chains_def)
  from destroy_loop_spec [OF mem clean _ this, of 0] n free show ?thesis
    by (auto simp: thread_pool_destroy_def wp_seqP wp_modify wp_bindP wp_gets elim!: wp_mono)
qed

end
