(* ===== verification/PoolSteps.thy ===== *)
theory PoolSteps
  imports DmThreadingPool
begin

text \<open>
  Interleavings on one queue of the pool: its worker runs \<open>execute_task\<close>, any number of producers
  run \<open>enqueue\<close>, and the scheduler switches between them at every lock, unlock, wait and wake-up.
  What the mutex protects is the code of \<open>DmThreadingPool\<close>, run in one step. Two history fields
  record the tasks linked and the tasks taken.
\<close>

section \<open>Configurations and steps\<close>

datatype who = Worker | Producer nat

text \<open>Where the worker stands: before the lock, at the test, blocked in \<open>pthread_cond_wait\<close>, woken, ...\<close>

datatype wpc = WLock | WTest | WWait | WWake | WTake | WUnlock task_t | WRun task_t | WExit

text \<open>Where a producer stands; the address is that of the node it has made.\<close>

datatype ppc = PIdle | PLock addr task_t | PLink addr task_t | PUnlock

record 'w conf =
  store :: "'w pool"
  mutex :: "who option"
  worker_pc :: wpc
  prod_pc :: "nat \<Rightarrow> ppc"
  linked_tasks :: "task_t list"
  taken_tasks :: "task_t list"

text \<open>
  A producer's critical section has signalled when the call that \<open>link_node\<close> made last is
  \<open>pthread_cond_signal\<close> on the queue's condition; only then is a blocked worker woken.
\<close>

definition signalled :: "nat \<Rightarrow> 'w pool \<Rightarrow> 'w pool \<Rightarrow> bool" where
  "signalled i s s' \<longleftrightarrow> map fst (calls s') = Thread (Cond_signal i) # map fst (calls s)"

definition woken :: "nat \<Rightarrow> 'w conf \<Rightarrow> 'w pool \<Rightarrow> wpc" where
  "woken i c s = (if worker_pc c = WWait \<and> signalled i (store c) s then WWake else worker_pc c)"

inductive pstep :: "'w kernel \<Rightarrow> nat \<Rightarrow> 'w conf \<Rightarrow> 'w conf \<Rightarrow> bool" for os :: "'w kernel" and i :: nat where
  w_lock: "worker_pc c \<in> {WLock, WWake} \<Longrightarrow> mutex c = None \<Longrightarrow>
     pstep os i c (c\<lparr>mutex := Some Worker, worker_pc := WTest\<rparr>)"
| w_wait: "worker_pc c = WTest \<Longrightarrow> q_head (queues (store c) ! i) = NULL \<Longrightarrow>
     pstep os i c (c\<lparr>mutex := None, worker_pc := WWait\<rparr>)"
| w_spurious: "worker_pc c = WWait \<Longrightarrow> pstep os i c (c\<lparr>worker_pc := WWake\<rparr>)"
| w_ready: "worker_pc c = WTest \<Longrightarrow> q_head (queues (store c) ! i) \<noteq> NULL \<Longrightarrow>
     pstep os i c (c\<lparr>worker_pc := WTake\<rparr>)"
| w_take: "worker_pc c = WTake \<Longrightarrow> take_node i (store c) = Some (Ret t, s) \<Longrightarrow>
     pstep os i c (c\<lparr>store := s, worker_pc := WUnlock t, taken_tasks := taken_tasks c @ [t]\<rparr>)"
| w_unlock: "worker_pc c = WUnlock t \<Longrightarrow> pstep os i c (c\<lparr>mutex := None, worker_pc := WRun t\<rparr>)"
| w_run: "worker_pc c = WRun t \<Longrightarrow> pstep os i c (c\<lparr>worker_pc := (if is_exit t then WExit else WLock)\<rparr>)"
| p_new: "prod_pc c k = PIdle \<Longrightarrow> new_node os t (store c) = Some (Ret (Some a), s) \<Longrightarrow>
     pstep os i c (c\<lparr>store := s, prod_pc := (prod_pc c)(k := PLock a t)\<rparr>)"
| p_lock: "prod_pc c k = PLock a t \<Longrightarrow> mutex c = None \<Longrightarrow>
     pstep os i c (c\<lparr>mutex := Some (Producer k), prod_pc := (prod_pc c)(k := PLink a t)\<rparr>)"
| p_link: "prod_pc c k = PLink a t \<Longrightarrow> link_node os i (Some a) (store c) = Some (Ret (), s) \<Longrightarrow>
     pstep os i c (c\<lparr>store := s, worker_pc := woken i c s, prod_pc := (prod_pc c)(k := PUnlock),
       linked_tasks := linked_tasks c @ [t]\<rparr>)"
| p_unlock: "prod_pc c k = PUnlock \<Longrightarrow> pstep os i c (c\<lparr>mutex := None, prod_pc := (prod_pc c)(k := PIdle)\<rparr>)"

text \<open>The configurations the pool reaches from an initialised queue \<open>i\<close>.\<close>

inductive reach :: "'w kernel \<Rightarrow> nat \<Rightarrow> 'w pool \<Rightarrow> 'w conf \<Rightarrow> bool" for os :: "'w kernel" and i :: nat and s0 :: "'w pool" where
  start: "reach os i s0 \<lparr>store = s0, mutex = None, worker_pc = WLock, prod_pc = (\<lambda>_. PIdle), linked_tasks = [], taken_tasks = []\<rparr>"
| step: "reach os i s0 c \<Longrightarrow> pstep os i c c' \<Longrightarrow> reach os i s0 c'"

section \<open>The invariant\<close>

fun in_section :: "wpc \<Rightarrow> bool" where
  "in_section WTest = True"
| "in_section WTake = True"
| "in_section (WUnlock t) = True"
| "in_section _ = False"

fun linking :: "ppc \<Rightarrow> bool" where
  "linking (PLink a t) = True"
| "linking PUnlock = True"
| "linking _ = False"

fun made :: "ppc \<Rightarrow> (addr \<times> task_t) option" where
  "made (PLock a t) = Some (a, t)"
| "made (PLink a t) = Some (a, t)"
| "made _ = None"

definition floating :: "(nat \<Rightarrow> ppc) \<Rightarrow> addr set" where
  "floating p = {a. \<exists>k t. made (p k) = Some (a, t)}"

definition made_ok :: "'w pool \<Rightarrow> (nat \<Rightarrow> ppc) \<Rightarrow> bool" where
  "made_ok s p \<longleftrightarrow> (\<forall>k a t. made (p k) = Some (a, t) \<longrightarrow> node_for s a t) \<and>
     (\<forall>k l a t u. made (p k) = Some (a, t) \<longrightarrow> made (p l) = Some (a, u) \<longrightarrow> k = l)"

definition pinv :: "nat \<Rightarrow> task_t list \<Rightarrow> 'w conf \<Rightarrow> bool" where
  "pinv i ts0 c \<longleftrightarrow> (\<exists>tss. holds (store c) (floating (prod_pc c)) tss \<and> i < length tss \<and>
       ts0 @ linked_tasks c = taken_tasks c @ tss ! i \<and>
       (worker_pc c = WTake \<longrightarrow> tss ! i \<noteq> []) \<and> (worker_pc c = WWait \<longrightarrow> tss ! i = [])) \<and>
     made_ok (store c) (prod_pc c) \<and>
     (mutex c = Some Worker \<longleftrightarrow> in_section (worker_pc c)) \<and>
     (\<forall>k. mutex c = Some (Producer k) \<longleftrightarrow> linking (prod_pc c k))"

lemma floating_upd:
  "made (p k) = None \<Longrightarrow> floating (p(k := q)) = floating p \<union> fst ` set_option (made q)"
  "made (p k) = made q \<Longrightarrow> floating (p(k := q)) = floating p"
  by (auto simp: floating_def image_iff split: if_splits) (metis option.distinct(1))+

lemma floating_done:
  "made_ok s p \<Longrightarrow> made (p k) = Some (a, t) \<Longrightarrow> made q = None \<Longrightarrow> floating (p(k := q)) = floating p - {a}"
  by (auto simp: floating_def made_ok_def split: if_splits) (metis fst_conv option.inject)

lemma made_ok_same: "made_ok s p \<Longrightarrow> made (p k) = made q \<Longrightarrow> made_ok s (p(k := q))"
  unfolding made_ok_def by (metis fun_upd_apply)

lemma made_ok_done:
  "made_ok s p \<Longrightarrow> made q = None \<Longrightarrow> (\<And>a. a \<in> floating p \<Longrightarrow> nodes s' a = nodes s a) \<Longrightarrow> made_ok s' (p(k := q))"
  by (auto simp: made_ok_def node_for_def floating_def split: if_splits) metis

lemma made_ok_frame:
  assumes "made_ok s p" and "\<And>a. a \<in> floating p \<Longrightarrow> nodes s' a = nodes s a"
  shows "made_ok s' p"
proof -
  have "nodes s' a = nodes s a" if "made (p k) = Some (a, t)" for k a t
    using assms(2) [of a] that by (auto simp: floating_def)
  then show ?thesis using assms(1) by (simp add: made_ok_def node_for_def)
qed

lemma made_ok_new:
  "made_ok s p \<Longrightarrow> a \<notin> floating p \<Longrightarrow> node_for s a t \<Longrightarrow> made q = Some (a, t) \<Longrightarrow> made_ok s (p(k := q))"
  unfolding made_ok_def floating_def by (auto split: if_splits)

lemma head_empty:
  assumes "holds s F tss" and "i < length tss"
  shows "q_head (queues s ! i) = NULL \<longleftrightarrow> tss ! i = []"
proof -
  obtain ass where "chains s F ass" "tss = map (map (task_at (nodes s))) ass"
    using assms(1) by (auto simp: holds_def)
  then show ?thesis
    using assms(2) queue_ok_head [of "nodes s" "queues s ! i" "ass ! i"] by (auto simp: chains_def)
qed

lemma wpD: "wp m Q s \<Longrightarrow> m s = Some (Ret r, s') \<Longrightarrow> Q r s'"
  by (simp add: wp_def)

lemma pinv_step:
  assumes inv: "pinv i ts0 c" and mem: "memory_ok os" and step: "pstep os i c c'"
  shows "pinv i ts0 c'"
proof -
  let ?F = "floating (prod_pc c)"
  obtain tss where h: "holds (store c) ?F tss" "i < length tss" "ts0 @ linked_tasks c = taken_tasks c @ tss ! i"
      "worker_pc c = WTake \<Longrightarrow> tss ! i \<noteq> []" "worker_pc c = WWait \<Longrightarrow> tss ! i = []"
    and m: "made_ok (store c) (prod_pc c)"
    and w: "mutex c = Some Worker \<longleftrightarrow> in_section (worker_pc c)"
    and p: "\<And>k. mutex c = Some (Producer k) \<longleftrightarrow> linking (prod_pc c k)"
    using inv by (auto simp: pinv_def)
  note head = head_empty [OF h(1,2)]
  from step show ?thesis
  proof (cases rule: pstep.cases)
    case w_lock
    then show ?thesis using h m w p by (auto simp: pinv_def)
  next
    case w_wait
    then show ?thesis using h m w p head by (auto simp: pinv_def)
  next
    case w_spurious
    then show ?thesis using h m w p by (auto simp: pinv_def)
  next
    case w_ready
    then show ?thesis using h m w p head by (auto simp: pinv_def)
  next
    case (w_take t s)
    obtain u us where us: "tss ! i = u # us" using h(4) w_take(2) by (cases "tss ! i") auto
    from wpD [OF take_node_spec [OF h(1,2) us] w_take(3)]
    have s: "t = u" "holds s ?F (tss[i := us])" "\<And>a. a \<in> ?F \<Longrightarrow> nodes s a = nodes (store c) a" by auto
    have "made_ok s (prod_pc c)" by (rule made_ok_frame [OF m s(3)])
    then show ?thesis
      using w_take h(2,3) w p s us by (auto simp: pinv_def intro!: exI [of _ "tss[i := us]"])
  next
    case (w_unlock t)
    then show ?thesis using h m w p by (auto simp: pinv_def)
  next
    case (w_run t)
    then show ?thesis using h m w p by (auto simp: pinv_def)
  next
    case (p_new k t a s)
    from wpD [OF new_node_spec [OF mem h(1)] p_new(3)]
    have a: "a \<notin> ?F" "holds s (insert a ?F) tss" "node_for s a t" "\<And>b. b \<noteq> a \<Longrightarrow> nodes s b = nodes (store c) b" 
      "queues s = queues (store c)" by auto
    have "floating ((prod_pc c)(k := PLock a t)) = insert a ?F"
      using floating_upd(1) [of "prod_pc c" k "PLock a t"] p_new(2) by simp
    moreover have "made_ok s ((prod_pc c)(k := PLock a t))"
    proof (rule made_ok_new [OF made_ok_frame [OF m] a(1,3)])
      show "nodes s b = nodes (store c) b" if "b \<in> ?F" for b using a(1,4) that by metis
    qed simp
    ultimately show ?thesis
      using p_new h a w p by (auto simp: pinv_def)
  next
    case (p_lock k a t)
    then have "floating ((prod_pc c)(k := PLink a t)) = ?F" "made_ok (store c) ((prod_pc c)(k := PLink a t))"
      using floating_upd(2) [of "prod_pc c" k "PLink a t"] made_ok_same [OF m] by auto
    then show ?thesis using p_lock h w p by (auto simp: pinv_def)
  next
    case (p_link k a t s)
    then have "made (prod_pc c k) = Some (a, t)" by simp
    then have a: "a \<in> ?F" "node_for (store c) a t" using m unfolding floating_def made_ok_def by blast+
    from wpD [OF link_node_spec [OF h(1,2) a] p_link(3)]
    have s: "holds s (?F - {a}) (tss[i := tss ! i @ [t]])" "\<And>b. b \<in> ?F \<Longrightarrow> nodes s b = nodes (store c) b"
      "tss ! i = [] \<Longrightarrow> signalled i (store c) s" by (auto simp: signalled_def)
    have "floating ((prod_pc c)(k := PUnlock)) = ?F - {a}"
      using floating_done [OF m, of k a t PUnlock] p_link(2) by simp
    moreover have "made_ok s ((prod_pc c)(k := PUnlock))"
      by (rule made_ok_done [OF m]) (simp_all add: s(2))
    moreover have "woken i c s \<noteq> WWait" "in_section (woken i c s) = in_section (worker_pc c)"
      using h(5) s(3) by (auto simp: woken_def)
    moreover have "woken i c s = WTake \<Longrightarrow> worker_pc c = WTake" by (auto simp: woken_def split: if_splits)
    ultimately show ?thesis
      using p_link h(2,3) w p s(1) by (auto simp: pinv_def intro!: exI [of _ "tss[i := tss ! i @ [t]]"])
  next
    case (p_unlock k)
    then have "floating ((prod_pc c)(k := PIdle)) = ?F" "made_ok (store c) ((prod_pc c)(k := PIdle))"
      using floating_upd(2) [of "prod_pc c" k PIdle] made_ok_same [OF m] by auto
    moreover have held: "mutex c = Some (Producer k)" using p [of k] p_unlock(2) by simp
    moreover have "linking (prod_pc c l) \<longleftrightarrow> l = k" for l using p [of l] held by auto
    ultimately show ?thesis using p_unlock h w by (auto simp: pinv_def)
  qed
qed

lemma pinv_reach:
  assumes "reach os i s0 c" and "memory_ok os" and "holds s0 {} tss0" and "i < length tss0"
  shows "pinv i (tss0 ! i) c"
  using assms(1)
proof (induction rule: reach.induct)
  case start
  have "floating (\<lambda>_. PIdle) = {}" by (simp add: floating_def)
  then show ?case using assms(3,4) by (auto simp: pinv_def made_ok_def)
next
  case (step c c')
  then show ?case using pinv_step assms(2) by blast
qed

text \<open>Inside its critical section a thread can go on: its code runs to the end without a fault.\<close>

lemma take_possible:
  assumes "pinv i ts0 c" and "worker_pc c = WTake"
  shows "\<exists>t s. take_node i (store c) = Some (Ret t, s)"
proof -
  obtain tss where h: "holds (store c) (floating (prod_pc c)) tss" "i < length tss" and busy: "tss ! i \<noteq> []"
    using assms by (auto simp: pinv_def)
  from busy obtain u us where "tss ! i = u # us" by (cases "tss ! i") auto
  from take_node_spec [OF h this] show ?thesis by (auto simp: wp_iff)
qed

lemma link_possible:
  assumes "pinv i ts0 c" and "prod_pc c k = PLink a t"
  shows "\<exists>s. link_node os i (Some a) (store c) = Some (Ret (), s)"
proof -
  obtain tss where h: "holds (store c) (floating (prod_pc c)) tss" "i < length tss" and made: "made_ok (store c) (prod_pc c)"
    using assms(1) by (auto simp: pinv_def)
  have "made (prod_pc c k) = Some (a, t)" using assms(2) by simp
  then have "a \<in> floating (prod_pc c)" "node_for (store c) a t" using made unfolding floating_def made_ok_def by blast+
  from link_node_spec [OF h this] show ?thesis by (auto simp: wp_iff)
qed

section \<open>A concrete pool\<close>

text \<open>Two empty queues, and one queue with two tasks, on the kernel of \<open>sim_os\<close>.\<close>

definition ex_sim :: sim where
  "ex_sim = \<lparr>sim_open = [0, 1, 2], sim_watch = (\<lambda>_ _. None), sim_waiting = 0, sim_chunks = [], sim_batches = []\<rparr>"

definition ex_pool :: "sim pool" where
  "ex_pool = \<lparr>heap = NULL, tmem = (\<lambda>_. None), world = ex_sim, calls = [], nodes = (\<lambda>_. None), nbrk = 50,
     queues = [\<lparr>q_head = NULL, q_tail = NULL\<rparr>, \<lparr>q_head = NULL, q_tail = NULL\<rparr>], num_threads = 2, stop = 0\<rparr>"

definition ex_task :: "int \<Rightarrow> task_t" where
  "ex_task n = \<lparr>num1 = NULL, num2 = n, read_or_write = 2\<rparr>"

lemma ex_pool_holds: "holds ex_pool {} [[], []]"
  using holds_empty [of ex_pool] by (auto simp: ex_pool_def numeral_2_eq_2)

definition ex_busy :: "sim pool" where
  "ex_busy = ex_pool\<lparr>nbrk := 60, nodes := [50 \<mapsto> \<lparr>n_task = ex_task 5, n_next = Some 51\<rparr>, 51 \<mapsto> \<lparr>n_task = ex_task 6, n_next = NULL\<rparr>],
     queues := [\<lparr>q_head = Some 50, q_tail = Some 51\<rparr>, \<lparr>q_head = NULL, q_tail = NULL\<rparr>]\<rparr>"

lemma ex_busy_holds: "holds ex_busy {} [[ex_task 5, ex_task 6], []]"
proof -
  have "chains ex_busy {} [[50, 51], []]"
    by (auto simp: chains_def queue_ok_def ex_busy_def ex_pool_def less_Suc_eq split: if_splits)
  then show ?thesis
    unfolding holds_def by (intro exI [of _ "[[50, 51], []]"]) (simp add: task_at_def ex_busy_def)
qed

section \<open>Properties\<close>

text \<open>
  C25: First in, first out, over the pointers: tasks put into an empty queue of the pool come out in
  the order they went in, the other queues keep theirs, and every node made has been freed again.
\<close>

theorem pool_first_in_first_out:
  assumes "memory_ok os" and "holds s {} tss" and "i < length tss" and "tss ! i = []"
  shows "\<exists>s'. seqP (forP ts (enqueue os i)) (collect (length ts) (dequeue os i)) s = Some (Ret ts, s') \<and> holds s' {} tss"
  using pq.first_in_first_out [of os s tss i ts] assms by (auto simp: wp_iff)

theorem pool_first_in_first_out_witness:
  "\<exists>s'. seqP (forP [ex_task 1, ex_task 2] (enqueue sim_os 1)) (collect 2 (dequeue sim_os 1)) ex_busy =
     Some (Ret [ex_task 1, ex_task 2], s') \<and> holds s' {} [[ex_task 5, ex_task 6], []]"
  using pool_first_in_first_out [OF sim_memory_ok ex_busy_holds, of 1 "[ex_task 1, ex_task 2]"] by (simp add: numeral_2_eq_2)

text \<open>
  A worker runs its queue in order up to the first task with a NULL pointer and number -1, takes
  exactly those tasks off the queue, and returns; the queues of the other workers are untouched.
\<close>

theorem worker_stops_at_sentinel:
  assumes "holds s {} tss" and "i < length tss" and "tss ! i = ts @ x # rest"
    and "\<forall>t \<in> set ts. \<not> is_exit t" and "is_exit x"
  shows "\<exists>s'. execute_task os i s = Some (Ret (), s') \<and> holds s' {} (tss[i := rest])"
  using execute_task_spec [OF assms, of os] by (auto simp: wp_iff)

theorem worker_stops_at_sentinel_witness:
  "\<exists>s'. execute_task sim_os 0 (ex_busy\<lparr>nodes := [50 \<mapsto> \<lparr>n_task = ex_task 5, n_next = Some 51\<rparr>, 51 \<mapsto> \<lparr>n_task = exit_task, n_next = NULL\<rparr>]\<rparr>) =
     Some (Ret (), s') \<and> holds s' {} [[], []]"
proof -
  let ?s = "ex_busy\<lparr>nodes := [50 \<mapsto> \<lparr>n_task = ex_task 5, n_next = Some 51\<rparr>, 51 \<mapsto> \<lparr>n_task = exit_task, n_next = NULL\<rparr>]\<rparr>"
  have "chains ?s {} [[50, 51], []]"
    by (auto simp: chains_def queue_ok_def ex_busy_def ex_pool_def less_Suc_eq split: if_splits)
  then have "holds ?s {} [[ex_task 5, exit_task], []]"
    unfolding holds_def by (intro exI [of _ "[[50, 51], []]"]) (simp add: task_at_def)
  from worker_stops_at_sentinel [OF this, of 0 "[ex_task 5]" exit_task "[]" sim_os] show ?thesis
    by (simp add: is_exit_def exit_task_def ex_task_def)
qed

text \<open>
  C37: Shutting the pool down drains it: with no sentinel queued before, every worker runs all its
  tasks and ends, and no node is left allocated.
\<close>

theorem pool_destroy_drains:
  assumes "memory_ok os" and "\<forall>ts \<in> set tss. \<forall>t \<in> set ts. \<not> is_exit t"
    and "holds s {} tss" and "num_threads s = int (length tss)"
  shows "\<exists>s'. thread_pool_destroy os s = Some (Ret (), s') \<and> nodes s' = (\<lambda>_. None) \<and> queues s' = []"
  using thread_pool_destroy_spec [OF assms] by (auto simp: wp_iff)

theorem pool_destroy_drains_witness:
  "\<exists>s'. thread_pool_destroy sim_os ex_busy = Some (Ret (), s') \<and> nodes s' = (\<lambda>_. None)"
proof -
  have "\<forall>ts \<in> set [[ex_task 5, ex_task 6], []]. \<forall>t \<in> set ts. \<not> is_exit t" by (simp add: is_exit_def ex_task_def)
  from pool_destroy_drains [OF sim_memory_ok this ex_busy_holds] show ?thesis
    by (auto simp: ex_busy_def ex_pool_def)
qed

text \<open>
  Initialising a pool of \<open>n\<close> threads makes \<open>n\<close> empty queues, whatever the memory held before.
\<close>

theorem pool_init_empty:
  assumes "memory_ok os" and "nodes s = (\<lambda>_. None)"
  shows "\<exists>s'. thread_pool_init os junk n s = Some (Ret (), s') \<and> holds s' {} (replicate (nat n) []) \<and> num_threads s' = n"
  using thread_pool_init_spec [OF assms, of junk n] by (auto simp: wp_iff)

theorem pool_init_empty_witness:
  "\<exists>s'. thread_pool_init sim_os \<lparr>q_head = Some 3, q_tail = NULL\<rparr> 3 ex_pool = Some (Ret (), s') \<and> holds s' {} [[], [], []]"
  using pool_init_empty [OF sim_memory_ok, of ex_pool "\<lparr>q_head = Some 3, q_tail = NULL\<rparr>" 3]
  by (auto simp: ex_pool_def numeral_3_eq_3)

text \<open>
  \<open>add_task\<close> does not spread the work: whatever \<open>rand\<close> answers, the task goes to queue 0 and the
  queues of all other workers stay as they are.
\<close>

theorem add_task_first_queue:
  assumes "memory_ok os" and "holds s {} tss" and "0 < length tss" and "num_threads s \<noteq> 0"
  shows "\<exists>s'. add_task os n1 n2 rw s = Some (Ret (), s') \<and>
     holds s' {} ((tss ! 0 @ [\<lparr>num1 = n1, num2 = n2, read_or_write = rw\<rparr>]) # tl tss)"
proof -
  let ?c = "Proc Rand" and ?t = "\<lparr>num1 = n1, num2 = n2, read_or_write = rw\<rparr>"
  let ?s = "s\<lparr>world := snd (os ?c (world s)), calls := (?c, fst (os ?c (world s))) # calls s\<rparr>"
  have "holds ?s {} tss" using assms(2) by simp
  from enqueue_spec [OF assms(1) this assms(3), of ?t] obtain s' where
    "enqueue os 0 ?t ?s = Some (Ret (), s')" "holds s' {} (tss[0 := tss ! 0 @ [?t]])"
    by (auto simp: wp_iff)
  moreover have "tss[0 := x] = x # tl tss" for x using assms(3) by (cases tss) auto
  ultimately show ?thesis using assms(4) by (simp add: add_task_def run_simps)
qed

theorem add_task_first_queue_witness:
  "\<exists>s'. add_task sim_os NULL 7 3 ex_busy = Some (Ret (), s') \<and>
     holds s' {} [[ex_task 5, ex_task 6, \<lparr>num1 = NULL, num2 = 7, read_or_write = 3\<rparr>], []]"
  using add_task_first_queue [OF sim_memory_ok ex_busy_holds, of NULL 7 3] by (simp add: ex_busy_def ex_pool_def)

text \<open>
  C18: Mutual exclusion and safety of the critical sections under every interleaving of the worker
  with any number of producers: at most one of them is inside, and the one inside never faults -
  the worker that has seen a non-empty queue gets a task, the producer links its node.
\<close>

theorem pool_critical_sections:
  assumes "reach os i s0 c" and "memory_ok os" and "holds s0 {} tss0" and "i < length tss0"
  shows "(\<forall>k l. linking (prod_pc c k) \<longrightarrow> \<not> in_section (worker_pc c) \<and> (linking (prod_pc c l) \<longrightarrow> k = l)) \<and>
     (worker_pc c = WTake \<longrightarrow> (\<exists>t s. take_node i (store c) = Some (Ret t, s))) \<and>
     (\<forall>k a t. prod_pc c k = PLink a t \<longrightarrow> (\<exists>s. link_node os i (Some a) (store c) = Some (Ret (), s)))"
proof -
  have inv: "pinv i (tss0 ! i) c" by (rule pinv_reach [OF assms])
  then have "\<not> in_section (worker_pc c) \<and> (linking (prod_pc c l) \<longrightarrow> k = l)" if "linking (prod_pc c k)" for k l
    using that unfolding pinv_def by (metis option.inject who.distinct(1) who.inject)
  then show ?thesis using take_possible [OF inv] link_possible [OF inv] by blast
qed

text \<open>
  C5: No task is lost, duplicated or overtaken under any interleaving, and no wake-up is lost: the
  tasks linked are those taken followed by those queued, and when the worker is blocked in
  \<open>pthread_cond_wait\<close> every task linked so far has been taken.
\<close>

theorem pool_no_lost_wakeup:
  assumes "reach os i s0 c" and "memory_ok os" and "holds s0 {} tss0" and "i < length tss0"
  shows "\<exists>tss. holds (store c) (floating (prod_pc c)) tss \<and> tss0 ! i @ linked_tasks c = taken_tasks c @ tss ! i \<and>
     (worker_pc c = WWait \<longrightarrow> taken_tasks c = tss0 ! i @ linked_tasks c)"
  using pinv_reach [OF assms] by (fastforce simp: pinv_def)

text \<open>A run in which the worker blocks, a producer links a task and wakes it, and it takes the task.\<close>

definition ex_conf :: "sim conf" where
  "ex_conf = \<lparr>store = ex_pool, mutex = None, worker_pc = WWait, prod_pc = (\<lambda>_. PIdle), linked_tasks = [], taken_tasks = []\<rparr>"

lemma ex_conf_reach: "reach sim_os 0 ex_pool ex_conf"
proof -
  let ?c0 = "\<lparr>store = ex_pool, mutex = None, worker_pc = WLock, prod_pc = (\<lambda>_. PIdle), linked_tasks = [], taken_tasks = []\<rparr>"
  have "reach sim_os 0 ex_pool (?c0\<lparr>mutex := Some Worker, worker_pc := WTest\<rparr>)"
    by (rule reach.step [OF reach.start], rule w_lock) simp_all
  from reach.step [OF this w_wait] show ?thesis by (simp add: ex_conf_def ex_pool_def)
qed

theorem pool_critical_sections_witness:
  "\<exists>c. reach sim_os 0 ex_pool c \<and> prod_pc c 4 \<noteq> PIdle \<and> linking (prod_pc c 4) \<and> \<not> in_section (worker_pc c)"
proof -
  let ?t = "ex_task 9"
  obtain s where s: "new_node sim_os ?t ex_pool = Some (Ret (Some 50), s)"
    using new_node_spec [OF sim_memory_ok ex_pool_holds, of ?t] by (auto simp: wp_iff ex_pool_def)
  let ?c1 = "ex_conf\<lparr>store := s, prod_pc := (prod_pc ex_conf)(4 := PLock 50 ?t)\<rparr>"
  let ?c2 = "?c1\<lparr>mutex := Some (Producer 4), prod_pc := (prod_pc ?c1)(4 := PLink 50 ?t)\<rparr>"
  have "reach sim_os 0 ex_pool ?c1"
    by (rule reach.step [OF ex_conf_reach], rule p_new) (simp_all add: ex_conf_def s)
  then have c2: "reach sim_os 0 ex_pool ?c2"
    by (rule reach.step, intro p_lock) (simp_all add: ex_conf_def)
  have "linking (prod_pc ?c2 4)" and two: "0 < length [[], [] :: task_t list]" by simp_all
  then have "\<not> in_section (worker_pc ?c2)"
    using pool_critical_sections [OF c2 sim_memory_ok ex_pool_holds two] by blast
  then show ?thesis using c2 by (intro exI [of _ ?c2]) simp
qed

theorem pool_no_lost_wakeup_witness:
  "\<exists>tss. holds (store ex_conf) {} tss \<and> taken_tasks ex_conf = linked_tasks ex_conf"
  using pool_no_lost_wakeup [OF ex_conf_reach sim_memory_ok ex_pool_holds]
  by (auto simp: ex_conf_def floating_def)

end
