(* ===== verification/PoolProgress.thy ===== *)
theory PoolProgress
  imports PoolSteps "HOL-Library.Sublist"
begin

text \<open>
  Progress of the pool: no configuration that the interleaved worker and producers reach is stuck. The
  scheduler can always go on so that the tasks queued so far are taken, using only steps that are sure to
  be possible: those of the worker, as long as it is not blocked in \<open>pthread_cond_wait\<close>, and those that the
  present owner of the mutex has left to do. No spurious wake-up and no further producer has to help.
\<close>

section \<open>Driven steps\<close>

text \<open>
  A step of the worker leaves the producers as they are, and only a spurious wake-up is one from \<open>WWait\<close>; a
  step of a producer changes where this one stands, and counts when the producer owns the mutex.
\<close>

definition driven :: "'w kernel \<Rightarrow> nat \<Rightarrow> 'w conf \<Rightarrow> 'w conf \<Rightarrow> bool" where
  "driven os i c c' \<longleftrightarrow> pstep os i c c' \<and>
     (if prod_pc c' = prod_pc c then worker_pc c \<noteq> WWait
      else \<exists>k. mutex c = Some (Producer k) \<and> (\<forall>l. l \<noteq> k \<longrightarrow> prod_pc c' l = prod_pc c l))"

lemma driven_pstep: "driven os i c c' \<Longrightarrow> pstep os i c c'"
  by (simp add: driven_def)

lemma driven_worker: "pstep os i c c' \<Longrightarrow> prod_pc c' = prod_pc c \<Longrightarrow> worker_pc c \<noteq> WWait \<Longrightarrow> driven os i c c'"
  by (simp add: driven_def)

lemma driven_owner: "pstep os i c c' \<Longrightarrow> mutex c = Some (Producer k) \<Longrightarrow> prod_pc c' = (prod_pc c)(k := q) \<Longrightarrow> q \<noteq> prod_pc c k \<Longrightarrow> driven os i c c'"
  by (auto simp: driven_def fun_upd_idem_iff)

text \<open>With the mutex free a blocked worker has no driven step: only the signal could have woken it.\<close>

lemma driven_blocked: "driven os i c c' \<Longrightarrow> worker_pc c = WWait \<Longrightarrow> mutex c \<noteq> None"
  by (auto simp: driven_def split: if_splits)

abbreviation psteps :: "'w kernel \<Rightarrow> nat \<Rightarrow> 'w conf \<Rightarrow> 'w conf \<Rightarrow> bool" where
  "psteps os i \<equiv> (driven os i)\<^sup>*\<^sup>*"

lemma psteps_pinv: "psteps os i c c' \<Longrightarrow> memory_ok os \<Longrightarrow> pinv i ts0 c \<Longrightarrow> pinv i ts0 c'"
  by (induction rule: rtranclp_induct) (auto intro: pinv_step driven_pstep)

text \<open>What a run may do to the history: only add to it.\<close>

lemma pstep_history: "pstep os i c c' \<Longrightarrow> prefix (linked_tasks c) (linked_tasks c') \<and> prefix (taken_tasks c) (taken_tasks c')"
  by (cases rule: pstep.cases) auto

lemma psteps_history:
  "psteps os i c c' \<Longrightarrow> prefix (linked_tasks c) (linked_tasks c') \<and> prefix (taken_tasks c) (taken_tasks c')"
  by (induction rule: rtranclp_induct) (auto dest!: driven_pstep pstep_history intro: prefix_order.trans)

section \<open>Getting the mutex\<close>

lemma release_mutex:
  assumes inv: "pinv i ts0 c" and w: "worker_pc c \<in> {WLock, WWake}"
  shows "\<exists>c'. psteps os i c c' \<and> mutex c' = None \<and> worker_pc c' \<in> {WLock, WWake}"
proof (cases "mutex c")
  case None
  then show ?thesis using w by blast
next
  case (Some m)
  have unlocked: "\<exists>c'. driven os i d c' \<and> mutex c' = None \<and> worker_pc c' \<in> {WLock, WWake}"
    if "prod_pc d k = PUnlock" "worker_pc d \<in> {WLock, WWake}" "mutex d = Some (Producer k)" for d k
    using driven_owner [OF p_unlock [OF that(1)] that(3)] that(1,2)
    by (intro exI [of _ "d\<lparr>mutex := None, prod_pc := (prod_pc d)(k := PIdle)\<rparr>"]) auto
  have "m \<noteq> Worker" using inv w Some by (auto simp: pinv_def)
  then obtain k where "m = Producer k" by (cases m) auto
  then have owner: "mutex c = Some (Producer k)" using Some by simp
  then have "linking (prod_pc c k)" using inv Some by (auto simp: pinv_def)
  then consider (link) a t where "prod_pc c k = PLink a t" | (unlock) "prod_pc c k = PUnlock" by (cases "prod_pc c k") auto
  then show ?thesis
  proof cases
    case (link a t)
    obtain s where s: "link_node os i (Some a) (store c) = Some (Ret (), s)" using link_possible [OF inv link] by blast
    let ?d = "c\<lparr>store := s, worker_pc := woken i c s, prod_pc := (prod_pc c)(k := PUnlock), linked_tasks := linked_tasks c @ [t]\<rparr>"
    have "driven os i c ?d" by (rule driven_owner [OF p_link [OF link s] owner, of PUnlock]) (simp_all add: link)
    moreover have "worker_pc ?d \<in> {WLock, WWake}" using w by (auto simp: woken_def)
    ultimately show ?thesis
      using unlocked [of ?d k] owner by (auto intro: converse_rtranclp_into_rtranclp [of "driven os i" c ?d] r_into_rtranclp)
  next
    case unlock
    from unlocked [OF this w owner] show ?thesis by blast
  qed
qed

section \<open>Taking the next task\<close>

lemma take_next:
  assumes inv: "pinv i ts0 c" and w: "worker_pc c = WTake"
  shows "\<exists>c'. psteps os i c c' \<and> length (taken_tasks c') = Suc (length (taken_tasks c))"
proof -
  obtain t s where "take_node i (store c) = Some (Ret t, s)" using take_possible [OF inv w] by blast
  from driven_worker [OF w_take [OF w this]] w show ?thesis by (intro exI conjI, intro r_into_rtranclp) auto
qed

text \<open>A test that finds the queue filled leads to a task.\<close>

lemma test_next:
  assumes mem: "memory_ok os" and inv: "pinv i ts0 c" and w: "worker_pc c = WTest" and queued: "length (taken_tasks c) < length (ts0 @ linked_tasks c)"
  shows "\<exists>c'. psteps os i c c' \<and> length (taken_tasks c') = Suc (length (taken_tasks c))"
proof -
  obtain tss where h: "holds (store c) (floating (prod_pc c)) tss" "i < length tss" "ts0 @ linked_tasks c = taken_tasks c @ tss ! i"
    using inv by (auto simp: pinv_def)
  then have "tss ! i \<noteq> []" using queued by auto
  then have "driven os i c (c\<lparr>worker_pc := WTake\<rparr>)" using w head_empty [OF h(1,2)] by (intro driven_worker w_ready) auto
  with take_next [OF pinv_step [OF inv mem driven_pstep [OF this]]] show ?thesis
    by (auto intro: converse_rtranclp_into_rtranclp)
qed

lemma lock_next:
  assumes mem: "memory_ok os" and inv: "pinv i ts0 c" and w: "worker_pc c \<in> {WLock, WWake}"
    and queued: "length (taken_tasks c) < length (ts0 @ linked_tasks c)"
  shows "\<exists>c'. psteps os i c c' \<and> length (taken_tasks c) < length (taken_tasks c')"
proof -
  obtain d where d: "psteps os i c d" "mutex d = None" "worker_pc d \<in> {WLock, WWake}" using release_mutex [OF inv w] by blast
  let ?e = "d\<lparr>mutex := Some Worker, worker_pc := WTest\<rparr>"
  have "driven os i d ?e" using d(2,3) by (intro driven_worker w_lock) auto
  with d(1) have e: "psteps os i c ?e" by (rule rtranclp.rtrancl_into_rtrancl)
  have grown: "prefix (linked_tasks c) (linked_tasks ?e)" "prefix (taken_tasks c) (taken_tasks ?e)" using psteps_history [OF e] by auto
  have "\<exists>c'. psteps os i ?e c' \<and> length (taken_tasks c) < length (taken_tasks c')"
  proof (cases "length (taken_tasks ?e) < length (ts0 @ linked_tasks ?e)")
    case True
    with test_next [OF mem psteps_pinv [OF e mem inv], of] show ?thesis
      using prefix_length_le [OF grown(2)] by fastforce
  next
    case False
    then have "length (taken_tasks c) < length (taken_tasks ?e)" using queued prefix_length_le [OF grown(1)] by simp
    then show ?thesis by blast
  qed
  with e show ?thesis by (meson rtranclp_trans)
qed

text \<open>From anywhere but the end of the worker, a queued task can be taken next, or the worker ends.\<close>

lemma some_next:
  assumes mem: "memory_ok os" and inv: "pinv i ts0 c" and queued: "length (taken_tasks c) < length (ts0 @ linked_tasks c)"
  shows "\<exists>c'. psteps os i c c' \<and> (worker_pc c' = WExit \<or> length (taken_tasks c) < length (taken_tasks c'))"
proof -
  have run: "\<exists>c'. psteps os i d c' \<and> (worker_pc c' = WExit \<or> length (taken_tasks d) < length (taken_tasks c'))"
    if d: "pinv i ts0 d" "worker_pc d = WRun t" "length (taken_tasks d) < length (ts0 @ linked_tasks d)" for d t
  proof -
    let ?e = "d\<lparr>worker_pc := (if is_exit t then WExit else WLock)\<rparr>"
    have e: "driven os i d ?e" by (rule driven_worker [OF w_run [OF d(2)]]) (simp_all add: d(2))
    show ?thesis
    proof (cases "is_exit t")
      case True
      then show ?thesis using e by (intro exI [of _ ?e]) auto
    next
      case False
      then show ?thesis
        using lock_next [OF mem pinv_step [OF d(1) mem driven_pstep [OF e]]] d(3) e by (auto intro: converse_rtranclp_into_rtranclp)
    qed
  qed
  show ?thesis
  proof (cases "worker_pc c")
    case (WUnlock t)
    let ?d = "c\<lparr>mutex := None, worker_pc := WRun t\<rparr>"
    have d: "driven os i c ?d" by (rule driven_worker [OF w_unlock [OF WUnlock]]) (simp_all add: WUnlock)
    then show ?thesis
      using run [OF pinv_step [OF inv mem driven_pstep [OF d]], of t] queued by (auto intro: converse_rtranclp_into_rtranclp)
  next
    case WWait
    then show ?thesis using inv queued by (auto simp: pinv_def dest!: arg_cong [where f = length])
  qed (use lock_next [OF mem inv _ queued] test_next [OF mem inv _ queued] take_next [OF inv] run [OF inv _ queued] in fastforce)+
qed

lemma all_next:
  assumes "memory_ok os" and "pinv i ts0 c" and "n \<le> length (ts0 @ linked_tasks c)"
  shows "\<exists>c'. psteps os i c c' \<and> (worker_pc c' = WExit \<or> n \<le> length (taken_tasks c'))"
  using assms(2,3)
proof (induction "n - length (taken_tasks c)" arbitrary: c rule: less_induct)
  case less
  show ?case
  proof (cases "n \<le> length (taken_tasks c)")
    case True
    then show ?thesis by blast
  next
    case False
    then obtain d where d: "psteps os i c d" "worker_pc d = WExit \<or> length (taken_tasks c) < length (taken_tasks d)"
      using some_next [OF assms(1) less.prems(1)] less.prems(2) by fastforce
    have "n \<le> length (ts0 @ linked_tasks d)"
      using less.prems(2) prefix_length_le [OF conjunct1 [OF psteps_history [OF d(1)]]] by simp
    then show ?thesis
      using d False less.hyps [of d] psteps_pinv [OF d(1) assms(1) less.prems(1)] by (metis diff_less_mono2 not_le rtranclp_trans)
  qed
qed

section \<open>Property\<close>

text \<open>
  C8: The pool never gets stuck: from every configuration that any interleaving reaches, driven steps - those of
  the worker, spurious wake-ups excepted, and of the producer that owns the mutex - lead to one in which
  every task linked so far has been taken, in the order the tasks were linked, unless the worker has
  ended at a sentinel. In particular no task waits for a worker that is blocked.
\<close>

theorem pool_progress:
  assumes "reach os i s0 c" and "memory_ok os" and "holds s0 {} tss0" and "i < length tss0"
  shows "\<exists>c'. (driven os i)\<^sup>*\<^sup>* c c' \<and> (worker_pc c' = WExit \<or> prefix (tss0 ! i @ linked_tasks c) (taken_tasks c'))"
proof -
  have inv: "pinv i (tss0 ! i) c" by (rule pinv_reach [OF assms])
  obtain c' where c': "psteps os i c c'" "worker_pc c' = WExit \<or> length (tss0 ! i @ linked_tasks c) \<le> length (taken_tasks c')"
    using all_next [OF assms(2) inv le_refl] by blast
  have "prefix (taken_tasks c') (tss0 ! i @ linked_tasks c')"
    using psteps_pinv [OF c'(1) assms(2) inv] by (auto simp: pinv_def)
  moreover have "prefix (tss0 ! i @ linked_tasks c) (tss0 ! i @ linked_tasks c')" using psteps_history [OF c'(1)] by simp
  ultimately show ?thesis using c' by (metis prefix_length_prefix)
qed

text \<open>The queue of \<open>ex_busy\<close> at the start: both tasks can be taken.\<close>

definition ex_start :: "sim conf" where
  "ex_start = \<lparr>store = ex_busy, mutex = None, worker_pc = WLock, prod_pc = (\<lambda>_. PIdle), linked_tasks = [], taken_tasks = []\<rparr>"

theorem pool_progress_witness:
  "\<exists>c'. (driven sim_os 0)\<^sup>*\<^sup>* ex_start c' \<and> (worker_pc c' = WExit \<or> prefix [ex_task 5, ex_task 6] (taken_tasks c'))"
proof -
  have "reach sim_os 0 ex_busy ex_start" unfolding ex_start_def by (rule reach.start)
  from pool_progress [OF this sim_memory_ok ex_busy_holds] show ?thesis by (simp add: ex_start_def)
qed

end
