(* ===== verification/DmBindCpu.thy ===== *)
theory DmBindCpu
  imports WorkerProps
begin

text \<open>
  Processor binding and descriptor limits (\<open>moudles/server/dm_bind_cpu.c\<close>), and the state of the
  master process, which extends a worker's: after \<open>fork\<close> the child goes on as a worker with a
  copy of it.
\<close>

record 'w master = "'w worker" +
  cpu_processer :: int
  workers :: "int list"            \<comment> \<open>the table \<open>worker[WORKER_NUM]\<close>\<close>
  server_running_flag :: bool
  master_pid :: int

definition cpu_init :: "'w kernel \<Rightarrow> (('w, 'a) master_scheme, unit) prog" where
  "cpu_init os = bindP (sys os (Proc Sysconf)) (\<lambda>n. modify (\<lambda>s. s\<lparr>cpu_processer := rv n\<rparr>))"

text \<open>\<open>rv\<close> of \<open>getrlimit\<close> and \<open>setrlimit\<close> is their status; the limits set are 20000 and 20000.\<close>

definition ulimit :: "'w kernel \<Rightarrow> (('w, 'a) process_scheme, int) prog" where
  "ulimit os = bindP (sys os (Proc Getrlimit)) (\<lambda>r.
     if rv r = -1 then seqP (perror os ''getrlimit'') (ret 1)
     else bindP (sys os (Proc (Setrlimit 20000 20000))) (\<lambda>r.
       if rv r = -1 then seqP (perror os ''setrlimit'') (ret 1)
       else seqP (printf os (''soft='' @ show_int 20000 @ '', hard='' @ show_int 20000 @ [CHR 0x0A])) (ret 0)))"

text \<open>
  \<open>CPU_SET(i, &mask)\<close> sets bit \<open>i\<close> of a set of 1024 processors, and nothing when \<open>i\<close> is outside it.
\<close>

definition cpu_mask :: "int \<Rightarrow> 1024 word" where
  "cpu_mask i = (if 0 \<le> i \<and> i < 1024 then push_bit (nat i) 1 else 0)"

definition cpu_bind :: "'w kernel \<Rightarrow> int \<Rightarrow> (('w, 'a) process_scheme, unit) prog" where
  "cpu_bind os i = bindP (sys os (Proc (Sched_setaffinity (cpu_mask i)))) (\<lambda>r.
     whenP (rv r = -1) (printf os ''warning: could not set CPU affinity, continuing...''))"

lemma bit_one_at: "bit (2 ^ n :: 'a::len word) k \<longleftrightarrow> k = n \<and> n < LENGTH('a)"
  by (auto simp: bit_exp_iff)

text \<open>
  Worker \<open>i\<close> is bound to processor \<open>i\<close> and no other: the mask has exactly that bit, for every
  index of the worker table.
\<close>

theorem cpu_bind_one_processor:
  assumes "i < WORKER_NUM"
  shows "\<exists>s' log. cpu_bind os (int i) s = Some (Ret (), s') \<and>
     calls s' = log @ (Proc (Sched_setaffinity (cpu_mask (int i))), fst (os (Proc (Sched_setaffinity (cpu_mask (int i)))) (world s))) # calls s \<and>
     (\<forall>k. bit (cpu_mask (int i)) k \<longleftrightarrow> k = i)"
  using assms by (auto simp: cpu_bind_def run_simps printf_def cpu_mask_def bit_one_at WORKER_NUM_def)

theorem cpu_bind_one_processor_witness: "bit (cpu_mask 55) 55 \<and> \<not> bit (cpu_mask 55) 54"
  using cpu_bind_one_processor [of 55 sim_os ex_worker] by (auto simp: WORKER_NUM_def)

end
