(* ===== verification/DmMaster.thy ===== *)
theory DmMaster
  imports DmBindCpu
begin

text \<open>
  The master process of \<open>moudles/server/dm_master.c\<close>: it forks the workers, then, pass after pass,
  asks after each of them and replaces those that have died, until SIGUSR1 clears
  \<open>server_running_flag\<close>. \<open>fork\<close> is a call that answers 0 in the child: the model follows the process
  in which the call returns, so a child is a run in which the answer is 0.
\<close>

definition SIGUSR1 :: int where "SIGUSR1 = 10"
definition SIGTERM :: int where "SIGTERM = 15"

definition wget :: "nat \<Rightarrow> (('w, 'a) master_scheme, int) prog" where
  "wget i s = (if i < length (workers s) then ret (workers s ! i) s else fault OutOfBounds s)"

definition wput :: "nat \<Rightarrow> int \<Rightarrow> (('w, 'a) master_scheme, unit) prog" where
  "wput i p s = (if i < length (workers s) then ret () (s\<lparr>workers := (workers s)[i := p]\<rparr>) else fault OutOfBounds s)"

definition proc_call :: "'w kernel \<Rightarrow> proc_call \<Rightarrow> (('w, 'a) process_scheme, unit) prog" where
  "proc_call os c = bindP (sys os (Proc c)) (\<lambda>_. ret ())"

section \<open>Signals\<close>

definition signal_SIGUSR1 :: "'w kernel \<Rightarrow> int \<Rightarrow> (('w, 'a) master_scheme, unit) prog" where
  "signal_SIGUSR1 os signum = whenP (signum = SIGUSR1)
     (seqP (modify (\<lambda>s. s\<lparr>server_running_flag := False\<rparr>))
       (forP [0..<WORKER_NUM] (\<lambda>i. bindP (wget i) (\<lambda>p. proc_call os (Kill p SIGTERM)))))"

definition handle_signal :: "'w kernel \<Rightarrow> (('w, 'a) process_scheme, unit) prog" where
  "handle_signal os = proc_call os (Sigaction SIGUSR1)"

definition master_daemonize :: "'w kernel \<Rightarrow> (('w, 'a) master_scheme, unit) prog" where
  "master_daemonize os =
     seqP (handle_signal os)
    (seqP (printf os ''setting signal succeed!'')
    (seqP (printf os ''Now daemonize...'')
    (bindP (sys os (Proc Fork)) (\<lambda>m.
     seqP (modify (\<lambda>s. s\<lparr>master_pid := rv m\<rparr>))
      (if rv m < 0 then seqP (perror os ''fork'') (quit 1)
       else if rv m > 0 then quit 0
       else bindP (sys os (Proc Getpid)) (\<lambda>pid. seqP (printf os (''--daemon running  PID: '' @ show_int (rv pid)))
         (bindP (sys os (Proc Setsid)) (\<lambda>sid.
           if rv sid < 0 then seqP (perror os ''setsid'') (quit 1)
           else blockP
             [proc_call os (Umask 0), proc_call os (Chdir ''/''),
              bindP (sys os (Close 0)) (\<lambda>_. ret ()), bindP (sys os (Close 1)) (\<lambda>_. ret ()),
              bindP (sys os (Close 2)) (\<lambda>_. ret ()),
              bindP (sys os (Open ''/dev/null'' 2)) (\<lambda>_. ret ()),
              bindP (sys os (Open ''/dev/null'' 1)) (\<lambda>_. ret ()),
              bindP (sys os (Open ''/dev/null'' 0)) (\<lambda>_. ret ())]))))))))"

section \<open>Workers\<close>

text \<open>One round of the starting loop.\<close>

definition start_worker ::
  "'w kernel \<Rightarrow> req_t \<times> Timer \<Rightarrow> lis_inf_t list \<Rightarrow> int \<Rightarrow> nat \<Rightarrow> (('w, 'a) master_scheme, unit) prog" where
  "start_worker os junk infs num i = bindP (sys os (Proc Fork)) (\<lambda>pid.
     if rv pid = 0 then seqP (cpu_bind os (int i)) (start_server os junk infs num)
     else if rv pid < 0 then perror os ''fork failed!''
     else wput i (rv pid))"

text \<open>One round of the checking loop: asking after worker \<open>i\<close>, and replacing it when it has ended.\<close>

definition check_worker ::
  "'w kernel \<Rightarrow> req_t \<times> Timer \<Rightarrow> lis_inf_t list \<Rightarrow> int \<Rightarrow> nat \<Rightarrow> (('w, 'a) master_scheme, unit) prog" where
  "check_worker os junk infs num i = bindP (wget i) (\<lambda>w. bindP (sys os (Proc (Waitpid w))) (\<lambda>pid.
     if rv pid = 0 then ret ()
     else if rv pid = w
     then bindP (sys os (Proc Fork)) (\<lambda>pid.
       if rv pid < 0 then seqP (perror os ''fork failed!'') (quit 1)
       else if rv pid = 0 then seqP (cpu_bind os (int i)) (start_server os junk infs num)
       else seqP (printf os ''[warn:]Worker has been down'')
           (seqP (wput i (rv pid)) (printf os ''Start new worker'')))
     else seqP (perror os ''waitpid failed!'') (quit 1)))"

definition check_pass ::
  "'w kernel \<Rightarrow> req_t \<times> Timer \<Rightarrow> lis_inf_t list \<Rightarrow> int \<Rightarrow> nat \<Rightarrow> (('w, 'a) master_scheme, unit) prog" where
  "check_pass os junk infs num k =
     seqP (forP [k..<WORKER_NUM] (check_worker os junk infs num)) (proc_call os Sleep)"

partial_function (option) check_loop ::
  "'w kernel \<Rightarrow> req_t \<times> Timer \<Rightarrow> lis_inf_t list \<Rightarrow> int \<Rightarrow> ('w, 'a) master_scheme \<Rightarrow> (unit res \<times> ('w, 'a) master_scheme) option" where
  "check_loop os junk infs num s = bindP (gets server_running_flag) (\<lambda>run.
     ifP run (seqP (check_pass os junk infs num 0) (check_loop os junk infs num)) (ret ())) s"

definition master_check_and_restart ::
  "'w kernel \<Rightarrow> req_t \<times> Timer \<Rightarrow> lis_inf_t list \<Rightarrow> int \<Rightarrow> (('w, 'a) master_scheme, unit) prog" where
  "master_check_and_restart os junk infs num =
     seqP (proc_call os Sleep)
    (seqP (printf os (''--worker num : '' @ show_int (int WORKER_NUM)))
    (bindP (sys os (Proc Getpid)) (\<lambda>pid. seqP (printf os (''--master pid : '' @ show_int (rv pid)))
      (check_loop os junk infs num))))"

definition master_start_multi_process_server ::
  "'w kernel \<Rightarrow> req_t \<times> Timer \<Rightarrow> lis_inf_t list \<Rightarrow> int \<Rightarrow> (('w, 'a) master_scheme, unit) prog" where
  "master_start_multi_process_server os junk infs num =
     seqP (forP [0..<WORKER_NUM] (start_worker os junk infs num))
       (master_check_and_restart os junk infs num)"

section \<open>Executing the accessors\<close>

lemma wp_wget [wp_simps]: "wp (wget i) Q s = (i < length (workers s) \<and> Q (workers s ! i) s)"
  by (simp add: wp_def wget_def run_simps)

lemma wp_wput [wp_simps]: "wp (wput i p) Q s = (i < length (workers s) \<and> Q () (s\<lparr>workers := (workers s)[i := p]\<rparr>))"
  by (simp add: wp_def wput_def run_simps)

lemma wp_proc_call [wp_simps]: "wp (proc_call os c) Q s = Q ()
   (s\<lparr>world := snd (os (Proc c) (world s)), calls := (Proc c, fst (os (Proc c) (world s))) # calls s\<rparr>)"
  by (simp add: proc_call_def wp_simps)

lemma kill_loop_spec:
  "\<forall>i \<in> set is. i < length (workers s) \<Longrightarrow>
   wp (forP is (\<lambda>i. bindP (wget i) (\<lambda>p. proc_call os (Kill p SIGTERM)))) (\<lambda>_ s'. \<exists>log. calls s' = log @ calls s \<and>
     map fst log = rev (map (\<lambda>i. Proc (Kill (workers s ! i) SIGTERM)) is) \<and> workers s' = workers s \<and>
     server_running_flag s' = server_running_flag s) s"
proof (induction "is" arbitrary: s)
  case Nil
  then show ?case by (simp add: wp_ret)
next
  case (Cons i "is")
  let ?c = "Proc (Kill (workers s ! i) SIGTERM)"
  let ?s = "s\<lparr>world := snd (os ?c (world s)), calls := (?c, fst (os ?c (world s))) # calls s\<rparr>"
  have "wp (forP is (\<lambda>i. bindP (wget i) (\<lambda>p. proc_call os (Kill p SIGTERM)))) (\<lambda>_ s'. \<exists>log. calls s' = log @ calls s \<and>
     map fst log = rev (map (\<lambda>i. Proc (Kill (workers s ! i) SIGTERM)) (i # is)) \<and> workers s' = workers s \<and>
     server_running_flag s' = server_running_flag s) ?s"
  proof (rule wp_mono [OF Cons.IH])
    fix s'
    assume "\<exists>log. calls s' = log @ calls ?s \<and>
        map fst log = rev (map (\<lambda>i. Proc (Kill (workers ?s ! i) SIGTERM)) is) \<and> workers s' = workers ?s \<and>
        server_running_flag s' = server_running_flag ?s"
    then obtain log where "calls s' = log @ calls ?s" "map fst log = rev (map (\<lambda>i. Proc (Kill (workers s ! i) SIGTERM)) is)"
        "workers s' = workers s" "server_running_flag s' = server_running_flag s" by auto
    then show "\<exists>log. calls s' = log @ calls s \<and>
     map fst log = rev (map (\<lambda>i. Proc (Kill (workers s ! i) SIGTERM)) (i # is)) \<and> workers s' = workers s \<and>
     server_running_flag s' = server_running_flag s"
      by (intro exI [of _ "log @ [(?c, fst (os ?c (world s)))]"]) simp
  qed (use Cons.prems in simp)
  then show ?case using Cons.prems by (simp add: wp_seqP wp_bindP [of "wget _"] wp_wget wp_proc_call)
qed

section \<open>Properties\<close>

text \<open>A master whose first 55 workers are processes 101..155 and whose last one is 156.\<close>

definition ex_master :: "(sim, unit) master_scheme" where
  "ex_master = \<lparr>heap = NULL, tmem = (\<lambda>_. None), world = ex_world, calls = [], reqs = (\<lambda>_. None), brk = 100,
     ssls = {}, shm = shm ex_worker, g_ctx = 0, cpu_processer = 0, workers = map int [101..<157],
     server_running_flag = True, master_pid = 0\<rparr>"

text \<open>\<open>sim_os\<close> with a given answer to \<open>fork\<close>, on which every worker asked after has ended.\<close>

fun fork_os :: "int \<Rightarrow> sim kernel" where
  "fork_os p (Proc Fork) w = (reply p 0, w)"
| "fork_os p (Proc (Waitpid q)) w = (reply q 0, w)"
| "fork_os p c w = sim_os c w"

text \<open>
  A worker that has ended is replaced: when \<open>waitpid\<close> answers its process and \<open>fork\<close> a new one,
  the table names the new process at its index and the others as before; a worker that runs is
  left alone.
\<close>

theorem check_worker_replaces:
  assumes "i < length (workers s)" and "os (Proc (Waitpid (workers s ! i))) (world s) = (a, w1)"
    and "rv a = 0 \<or> rv a = workers s ! i \<and> rv (fst (os (Proc Fork) w1)) > 0"
  shows "\<exists>s'. check_worker os junk infs num i s = Some (Ret (), s') \<and> server_running_flag s' = server_running_flag s \<and>
     workers s' = (if rv a = 0 then workers s else (workers s)[i := rv (fst (os (Proc Fork) w1))])"
  using assms by (auto simp: check_worker_def run_simps wget_def wput_def printf_def)

theorem check_worker_replaces_witness:
  "\<exists>s'. check_worker (fork_os 200) (zero_req, zero_timer) ex_infs 2 3 ex_master = Some (Ret (), s') \<and> workers s' = (map int [101..<157])[3 := 200]"
  using check_worker_replaces [of 3 ex_master "fork_os 200" "reply 104 0" "world ex_master" "(zero_req, zero_timer)" ex_infs 2]
  by (auto simp: ex_master_def reply_def)

text \<open>
  SIGUSR1 stops the master: the handler clears the running flag and sends SIGTERM to every entry
  of the worker table, in order; any other signal number changes nothing.
\<close>

theorem sigusr1_terminates_workers:
  assumes "length (workers s) = WORKER_NUM"
  shows "\<exists>s' log. signal_SIGUSR1 os SIGUSR1 s = Some (Ret (), s') \<and> \<not> server_running_flag s' \<and> workers s' = workers s \<and>
     calls s' = log @ calls s \<and> map fst log = rev (map (\<lambda>p. Proc (Kill p SIGTERM)) (workers s)) \<and>
     (\<forall>n. n \<noteq> SIGUSR1 \<longrightarrow> signal_SIGUSR1 os n s = Some (Ret (), s))"
proof -
  have map: "map (\<lambda>i. Proc (Kill (workers s ! i) SIGTERM)) [0..<WORKER_NUM] = map (\<lambda>p. Proc (Kill p SIGTERM)) (workers s)"
    using assms by (intro nth_equalityI) auto
  have "wp (signal_SIGUSR1 os SIGUSR1) (\<lambda>_ s'. \<exists>log. calls s' = log @ calls s \<and>
      map fst log = rev (map (\<lambda>p. Proc (Kill p SIGTERM)) (workers s)) \<and> workers s' = workers s \<and> \<not> server_running_flag s') s"
    unfolding signal_SIGUSR1_def wp_whenP wp_seqP wp_modify map [symmetric]
    by (simp, rule wp_mono [OF kill_loop_spec]) (use assms in auto)
  then show ?thesis by (auto simp: wp_iff signal_SIGUSR1_def whenP_def ifP_def ret_def)
qed

theorem sigusr1_terminates_workers_witness:
  "\<exists>s' log. signal_SIGUSR1 sim_os SIGUSR1 ex_master = Some (Ret (), s') \<and> \<not> server_running_flag s' \<and>
     map fst log = rev (map (\<lambda>p. Proc (Kill p SIGTERM)) (map int [101..<157])) \<and> calls s' = log"
  using sigusr1_terminates_workers [of ex_master sim_os] by (auto simp: ex_master_def WORKER_NUM_def)

text \<open>
  C38: A shutdown during a pass leaks a worker: the flag is tested between passes only, so when the
  last worker of the table has ended after the signal, it is replaced, and the master returns
  with that new process running and never signalled.
\<close>

theorem shutdown_leaks_worker:
  assumes "\<not> server_running_flag s" and "length (workers s) = WORKER_NUM"
    and "os (Proc (Waitpid (workers s ! 55))) (world s) = (a, w1)" and "rv a = workers s ! 55" "rv a \<noteq> 0"
    and "rv (fst (os (Proc Fork) w1)) = p" and "0 < p"
  shows "\<exists>s' log. seqP (check_pass os junk infs num 55) (check_loop os junk infs num) s = Some (Ret (), s') \<and>
     workers s' ! 55 = p \<and> calls s' = log @ calls s \<and> (\<forall>sig. Proc (Kill p sig) \<notin> fst ` set log)"
  using assms
  by (auto simp: check_pass_def check_worker_def run_simps wget_def wput_def printf_def proc_call_def WORKER_NUM_def
    upt_conv_Cons check_loop.simps)

theorem shutdown_leaks_worker_witness:
  "\<exists>s'. seqP (check_pass (fork_os 200) (zero_req, zero_timer) ex_infs 2 55) (check_loop (fork_os 200) (zero_req, zero_timer) ex_infs 2) (ex_master\<lparr>server_running_flag := False\<rparr>)
     = Some (Ret (), s') \<and> workers s' ! 55 = 200"
  using shutdown_leaks_worker [of "ex_master\<lparr>server_running_flag := False\<rparr>" "fork_os 200" "reply 156 0" "world ex_master" 200 "(zero_req, zero_timer)" ex_infs 2]
  by (auto simp: ex_master_def reply_def WORKER_NUM_def)

text \<open>
  A worker that could not be forked stays 0 in the table, and the shutdown handler then sends
  SIGTERM to process 0: to every process of the master's group, the master included.
\<close>

theorem failed_fork_kills_group:
  assumes "length (workers s) = WORKER_NUM" and "i < WORKER_NUM" and "workers s ! i = 0"
    and "rv (fst (os (Proc Fork) (world s))) < 0"
  shows "\<exists>s'. seqP (start_worker os junk infs num i) (signal_SIGUSR1 os SIGUSR1) s = Some (Ret (), s') \<and>
     Proc (Kill 0 SIGTERM) \<in> fst ` set (calls s')"
proof -
  let ?c = "Proc Fork" and ?p = "Perror ''fork failed!''"
  let ?s = "s\<lparr>world := snd (os ?p (snd (os ?c (world s)))), calls := (?p, fst (os ?p (snd (os ?c (world s))))) #
    (?c, fst (os ?c (world s))) # calls s\<rparr>"
  have "start_worker os junk infs num i s = Some (Ret (), ?s)"
    using assms(4) by (simp add: start_worker_def run_simps perror_def)
  moreover have len: "length (workers ?s) = WORKER_NUM" using assms(1) by simp
  have "wp (forP [0..<WORKER_NUM] (\<lambda>i. bindP (wget i) (\<lambda>p. proc_call os (Kill p SIGTERM))))
      (\<lambda>_ s'. Proc (Kill 0 SIGTERM) \<in> fst ` set (calls s')) (?s\<lparr>server_running_flag := False\<rparr>)"
  proof (rule wp_mono [OF kill_loop_spec])
    fix s'
    assume "\<exists>log. calls s' = log @ calls (?s\<lparr>server_running_flag := False\<rparr>) \<and>
        map fst log = rev (map (\<lambda>i. Proc (Kill (workers (?s\<lparr>server_running_flag := False\<rparr>) ! i) SIGTERM)) [0..<WORKER_NUM]) \<and>
        workers s' = workers (?s\<lparr>server_running_flag := False\<rparr>) \<and>
        server_running_flag s' = server_running_flag (?s\<lparr>server_running_flag := False\<rparr>)"
    then obtain log where log: "calls s' = log @ calls ?s"
      "map fst log = rev (map (\<lambda>i. Proc (Kill (workers s ! i) SIGTERM)) [0..<WORKER_NUM])" by auto
    have "Proc (Kill (workers s ! i) SIGTERM) \<in> set (map fst log)" unfolding log(2) using assms(2) by auto
    then show "Proc (Kill 0 SIGTERM) \<in> fst ` set (calls s')" using assms(3) log(1) by auto
  qed (use len in simp)
  ultimately show ?thesis by (auto simp: wp_iff signal_SIGUSR1_def run_simps)
qed

theorem failed_fork_kills_group_witness:
  "\<exists>s'. seqP (start_worker (fork_os (- 1)) (zero_req, zero_timer) ex_infs 2 2) (signal_SIGUSR1 (fork_os (- 1)) SIGUSR1) (ex_master\<lparr>workers := replicate 56 0\<rparr>)
     = Some (Ret (), s') \<and> Proc (Kill 0 SIGTERM) \<in> fst ` set (calls s')"
  by (rule failed_fork_kills_group) (simp_all add: WORKER_NUM_def reply_def)

lemma ready_quiet:
  assumes "kernel_ok os v" and "quiet c" and "ready v infs s"
  shows "ready v infs (s\<lparr>world := snd (os c (world s)), calls := cs\<rparr>)"
  using quiet_same [OF assms(1,2), of "world s"] assms(3) by (auto simp: ready_def same_fds_def timer_list_def)

lemma child_serves:
  assumes "kernel_ok os v" and "memory_ok os" and "tls_idle os v infs" and rdy: "ready v infs s"
    and "\<forall>w. rv (fst (os (Epoll_create 100) w)) \<noteq> -1" and "\<forall>x w. rv (fst (os (Proc (Shmat x)) w)) \<notin> {0, -1}"
  shows "seqP (cpu_bind os i) (start_server os junk infs (int (length infs))) (s :: ('w, 'a) master_scheme) = None"
proof -
  have serve: "start_server os junk infs (int (length infs)) s' = None" if rdy: "ready v infs s'" for s' :: "('w, 'a) master_scheme"
  proof -
    obtain efd sd s'' L where run: "server_setup os junk (args_of infs) s' = Some (Ret (efd, sd), s'')" and inv: "winv v efd infs L s''"
      using server_setup_spec [OF assms(1,2) rdy, of junk] assms(5) by (auto simp: wp_iff)
    have "sd = ShmAt" by (rule setup_attached [OF run]) (use assms(6) in blast)
    then show ?thesis
      using run server_for_never_ends [OF assms(1-3) inv] by (simp add: start_server_def server_make_def run_simps args_of_def)
  qed
  let ?b = "Proc (Sched_setaffinity (cpu_mask i))"
  let ?s = "s\<lparr>world := snd (os ?b (world s)), calls := (?b, fst (os ?b (world s))) # calls s\<rparr>"
  have r2: "ready v infs ?s" by (rule ready_quiet [OF assms(1) _ rdy]) simp
  have r3: "ready v infs (?s\<lparr>world := snd (os (Printf m) (world ?s)), calls := (Printf m, fst (os (Printf m) (world ?s))) # calls ?s\<rparr>)" for m
    by (rule ready_quiet [OF assms(1) _ r2]) simp
  show ?thesis using serve [OF r2] serve [OF r3] by (simp add: cpu_bind_def run_simps printf_def)
qed

text \<open>
  C29: The child never comes back to the master's loop: with \<open>epoll_create\<close> and \<open>shmat\<close> succeeding, and as
  long as no client connects to a TLS port (the kernel reports nothing of the TLS listeners of the
  table), a run in which \<open>fork\<close> answers 0 - in the starting loop, or in the checking loop for a worker that
  has ended - binds itself to its processor and serves for ever, without a fault, so a child never forks
  workers of its own.
\<close>

theorem child_never_returns:
  assumes "kernel_ok os v" and "memory_ok os" and "tls_idle os v infs" and "ready v infs s"
    and "\<forall>w. rv (fst (os (Epoll_create 100) w)) \<noteq> -1" and "\<forall>x w. rv (fst (os (Proc (Shmat x)) w)) \<notin> {0, -1}"
  shows "(rv (fst (os (Proc Fork) (world s))) = 0 \<longrightarrow> start_worker os junk infs (int (length infs)) i s = None) \<and>
     (i < length (workers s) \<and> rv (fst (os (Proc (Waitpid (workers s ! i))) (world s))) = workers s ! i \<and> workers s ! i \<noteq> 0 \<and>
      rv (fst (os (Proc Fork) (snd (os (Proc (Waitpid (workers s ! i))) (world s))))) = 0 \<longrightarrow>
        check_worker os junk infs (int (length infs)) i s = None)"
proof -
  let ?f = "Proc Fork" and ?w = "Proc (Waitpid (workers s ! i))"
  let ?at = "\<lambda>c s. s\<lparr>world := snd (os c (world s)), calls := (c, fst (os c (world s))) # calls s\<rparr>"
  have r1: "ready v infs (?at ?f s)" and rw: "ready v infs (?at ?w s)"
    by (rule ready_quiet [OF assms(1) _ assms(4)], simp)+
  have r2: "ready v infs (?at ?f (?at ?w s))" by (rule ready_quiet [OF assms(1) _ rw]) simp
  note serves = child_serves [OF assms(1-3) _ assms(5,6)]
  show ?thesis
    using serves [OF r1, of "int i" junk] serves [OF r2, of "int i" junk]
    by (simp add: start_worker_def check_worker_def bindP_run sys_run wget_def ret_run)
qed

text \<open>
  Masters with the table of \<open>main\<close>, on a kernel that answers 0 to \<open>fork\<close>: one on the point of forking a worker, and
  one that asks after a worker that has ended.
\<close>

fun deaf_fork :: "sim kernel" where
  "deaf_fork (Proc (Waitpid q)) w = (reply q 0, w)"
| "deaf_fork c w = deaf {4, 6} c w"

lemma deaf_fork_ok: "kernel_ok deaf_fork sim_view"
  unfolding kernel_ok_def
proof (intro allI)
  fix c :: call and w :: sim
  show "call_ok sim_view c w (fst (deaf_fork c w)) (snd (deaf_fork c w))"
  proof (cases c)
    case (Proc d)
    then show ?thesis
      using kernel_okD [OF deaf_ok, of c w "{4, 6}"] by (cases d) (simp_all add: same_fds_def)
  qed (use kernel_okD [OF deaf_ok, of c w "{4, 6}"] in simp_all)
qed

theorem child_never_returns_witness:
  "start_worker deaf_fork (zero_req, zero_timer) main_table 5 0 (ex_master\<lparr>world := world ex_main_worker\<rparr>) = None \<and>
   check_worker deaf_fork (zero_req, zero_timer) main_table 5 0 (ex_master\<lparr>world := world ex_main_worker\<rparr>) = None"
proof -
  let ?s = "ex_master\<lparr>world := world ex_main_worker\<rparr>"
  have rdy: "ready sim_view main_table ?s"
    by (auto simp: ready_def main_table_def ex_master_def ex_main_worker_def ex_world_def sim_view_def heap_ok_def timer_list_def)
  have idle: "tls_idle deaf_fork sim_view main_table" using main_idle by (simp add: tls_idle_def)
  have mem: "memory_ok deaf_fork" using deaf_memory_ok by (simp add: memory_ok_def)
  have efd: "\<forall>w. rv (fst (deaf_fork (Epoll_create 100) w)) \<noteq> -1"
  proof
    show "rv (fst (deaf_fork (Epoll_create 100) w)) \<noteq> -1" for w
      using sim_fresh_ge [of "w\<lparr>sim_batches := map (filter (\<lambda>(_, f). f \<notin> {4, 6})) (sim_batches w)\<rparr>"] by (simp add: deaf_def reply_def)
  qed
  have shm: "\<forall>x w. rv (fst (deaf_fork (Proc (Shmat x)) w)) \<notin> {0, -1}" by (simp add: deaf_def reply_def)
  show ?thesis
    using child_never_returns [OF deaf_fork_ok mem idle rdy efd shm, of "(zero_req, zero_timer)" 0]
    by (simp add: main_table_def deaf_def reply_def ex_master_def)
qed

end
