(* ===== verification/DmSupervise.thy ===== *)
theory DmSupervise
  imports DmMaster
begin

text \<open>
  Supervision: the master's starting loop and its checking passes against the documented behaviour
  of \<open>fork\<close> and \<open>waitpid\<close>. A process that has ended stays the master's child until \<open>waitpid\<close> has
  answered its number; children may end during any call.
\<close>

record 'w pview =
  children :: "'w \<Rightarrow> int set"
  ended :: "'w \<Rightarrow> int set"

fun proc_ok :: "'w pview \<Rightarrow> call \<Rightarrow> 'w \<Rightarrow> answer \<Rightarrow> 'w \<Rightarrow> bool" where
  "proc_ok v (Proc Fork) w a w' = (0 < rv a \<and> rv a \<notin> children v w \<and> children v w' = insert (rv a) (children v w) \<and>
     ended v w \<subseteq> ended v w')"
| "proc_ok v (Proc (Waitpid p)) w a w' = (0 < p \<and> p \<in> children v w \<longrightarrow> (rv a = 0 \<or> rv a = p) \<and> (p \<in> ended v w \<longrightarrow> rv a = p) \<and>
     ended v w - {p} \<subseteq> ended v w' \<and> children v w' = (if rv a = p then children v w - {p} else children v w))"
| "proc_ok v c w a w' = (children v w' = children v w \<and> ended v w \<subseteq> ended v w')"

definition procs_ok :: "'w kernel \<Rightarrow> 'w pview \<Rightarrow> bool" where
  "procs_ok os v \<longleftrightarrow> (\<forall>c w. proc_ok v c w (fst (os c w)) (snd (os c w)))"

lemma procs_okD: "procs_ok os v \<Longrightarrow> proc_ok v c w (fst (os c w)) (snd (os c w))"
  by (simp add: procs_ok_def)

text \<open>The table names distinct children of the master.\<close>

definition supervised :: "'w pview \<Rightarrow> ('w, 'a) master_scheme \<Rightarrow> bool" where
  "supervised v s \<longleftrightarrow> length (workers s) = WORKER_NUM \<and> distinct (workers s) \<and>
     (\<forall>p \<in> set (workers s). 0 < p \<and> p \<in> children v (world s))"

text \<open>
  What one turn of the checking loop may do to entry \<open>i\<close>: leave it, when its process had not ended
  at the start, or give it the number \<open>fork\<close> has answered.
\<close>

definition renewed :: "'w pview \<Rightarrow> nat \<Rightarrow> ('w, 'a) master_scheme \<Rightarrow> ('w, 'a) master_scheme \<Rightarrow> (call \<times> answer) list \<Rightarrow> bool" where
  "renewed v i s s' log \<longleftrightarrow> workers s' ! i = workers s ! i \<and> workers s ! i \<notin> ended v (world s) \<or>
     (\<exists>a. (Proc Fork, a) \<in> set log \<and> rv a = workers s' ! i)"

definition turned :: "'w pview \<Rightarrow> nat set \<Rightarrow> ('w, 'a) master_scheme \<Rightarrow> ('w, 'a) master_scheme \<Rightarrow> bool" where
  "turned v I s s' \<longleftrightarrow> supervised v s' \<and> server_running_flag s' = server_running_flag s \<and>
     (\<forall>j < WORKER_NUM. j \<notin> I \<longrightarrow> workers s' ! j = workers s ! j) \<and>
     (\<forall>p \<in> ended v (world s). p \<notin> (!) (workers s) ` I \<longrightarrow> p \<in> ended v (world s')) \<and>
     (\<exists>log. calls s' = log @ calls s \<and> (\<forall>i \<in> I. renewed v i s s' log))"

lemma check_worker_supervised:
  assumes "procs_ok os v" and "supervised v s" and "i < WORKER_NUM"
  shows "wp (check_worker os junk infs num i) (\<lambda>_. turned v {i} s) s"
proof -
  let ?p = "workers s ! i"
  have i: "i < length (workers s)" using assms(2,3) by (simp add: supervised_def)
  have p: "0 < ?p" "?p \<in> children v (world s)" using assms(2) i by (auto simp: supervised_def)
  define a w1 where "a = fst (os (Proc (Waitpid ?p)) (world s))" and "w1 = snd (os (Proc (Waitpid ?p)) (world s))"
  have wait: "rv a = 0 \<or> rv a = ?p" "?p \<in> ended v (world s) \<Longrightarrow> rv a = ?p" "ended v (world s) - {?p} \<subseteq> ended v w1"
    "children v w1 = (if rv a = ?p then children v (world s) - {?p} else children v (world s))"
    using procs_okD [OF assms(1), of "Proc (Waitpid ?p)" "world s"] p by (auto simp: a_def w1_def)
  define f w2 where "f = fst (os (Proc Fork) w1)" and "w2 = snd (os (Proc Fork) w1)"
  have fork: "0 < rv f" "rv f \<notin> children v w1" "children v w2 = insert (rv f) (children v w1)" "ended v w1 \<subseteq> ended v w2"
    using procs_okD [OF assms(1), of "Proc Fork" w1] by (auto simp: f_def w2_def)
  have quiet: "children v (snd (os (Printf m) w)) = children v w" "ended v w \<subseteq> ended v (snd (os (Printf m) w))" for m w
    using procs_okD [OF assms(1), of "Printf m" w] by auto
  note step = a_def [symmetric] w1_def [symmetric] f_def [symmetric] w2_def [symmetric]
  show ?thesis
  proof (cases "rv a = 0")
    case True
    then have "?p \<notin> ended v (world s)" using wait(2) p(1) by auto
    then show ?thesis
      using assms(2) i p wait(3,4) True
      by (auto simp: check_worker_def wp_simps step supervised_def turned_def renewed_def)
  next
    case False
    then have a: "rv a = ?p" using wait(1) by simp
    have others: "children v w1 = children v (world s) - {?p}" using wait(4) a by simp
    have sup: "length (workers s) = WORKER_NUM" "distinct (workers s)" "\<And>x. x \<in> set (workers s) \<Longrightarrow> 0 < x \<and> x \<in> children v (world s)"
      using assms(2) by (auto simp: supervised_def)
    have "distinct ((workers s)[i := rv f])"
    proof (rule distinct_list_update [OF sup(2)])
      show "rv f \<notin> set (workers s) - {?p}" using sup(3) fork(2) others by auto
    qed
    moreover have "x \<in> children v w2 \<and> 0 < x" if "x \<in> set ((workers s)[i := rv f])" for x
    proof -
      have "x = rv f \<or> (\<exists>j < length (workers s). j \<noteq> i \<and> x = workers s ! j)"
        using that i by (auto simp: in_set_conv_nth nth_list_update split: if_splits)
      then show ?thesis
        using sup(2,3) fork(1,3) others i by (auto simp: nth_eq_iff_index_eq)
    qed
    moreover have "x \<in> ended v (snd (os (Printf m) (snd (os (Printf m') w2))))" if "x \<in> ended v (world s)" "x \<noteq> ?p" for x m m'
      using that wait(3) fork(4) quiet(2) by blast
    ultimately show ?thesis
      using False fork(1) i sup(1) quiet(1)
      by (auto simp: check_worker_def wp_simps step a turned_def renewed_def supervised_def)
  qed
qed

lemma turned_trans:
  assumes "turned v I s s'" and "turned v J s' s''" and "I \<inter> J = {}" and "I \<union> J \<subseteq> {..<WORKER_NUM}" and "supervised v s"
  shows "turned v (I \<union> J) s s''"
proof -
  obtain l1 where l1: "calls s' = l1 @ calls s" "\<And>i. i \<in> I \<Longrightarrow> renewed v i s s' l1" using assms(1) by (auto simp: turned_def)
  obtain l2 where l2: "calls s'' = l2 @ calls s'" "\<And>i. i \<in> J \<Longrightarrow> renewed v i s' s'' l2" using assms(2) by (auto simp: turned_def)
  have same: "\<And>i. i \<in> I \<Longrightarrow> workers s'' ! i = workers s' ! i" "\<And>j. j \<in> J \<Longrightarrow> workers s' ! j = workers s ! j"
    using assms by (auto simp: turned_def)
  have dead: "workers s ! j \<notin> ended v (world s)" if "j \<in> J" "workers s' ! j \<notin> ended v (world s')" for j
  proof
    assume "workers s ! j \<in> ended v (world s)"
    moreover have "workers s ! j \<notin> (!) (workers s) ` I"
      using that(1) assms(3-5) by (auto simp: supervised_def nth_eq_iff_index_eq subset_iff)
    ultimately have "workers s ! j \<in> ended v (world s')" using assms(1) by (auto simp: turned_def)
    then show False using that same(2) by simp
  qed
  have "renewed v i s s'' (l2 @ l1)" if "i \<in> I \<union> J" for i
    using that l1(2) [of i] l2(2) [of i] same dead [of i] by (auto simp: renewed_def)
  moreover have "p \<in> ended v (world s'')" if "p \<in> ended v (world s)" "p \<notin> (!) (workers s) ` (I \<union> J)" for p
    using that assms(1,2) same(2) by (auto simp: turned_def image_iff)
  ultimately show ?thesis
    using assms(1,2) l1(1) l2(1) by (auto simp: turned_def)
qed

lemma check_workers_turned:
  assumes "procs_ok os v" and "supervised v s" and "k \<le> WORKER_NUM"
  shows "wp (forP [k..<WORKER_NUM] (check_worker os junk infs num)) (\<lambda>_. turned v {k..<WORKER_NUM} s) s"
  using assms(2,3)
proof (induction "WORKER_NUM - k" arbitrary: k s)
  case 0
  then show ?case by (simp add: wp_ret turned_def)
next
  case (Suc n)
  then have k: "k < WORKER_NUM" by simp
  have step: "wp (forP [Suc k..<WORKER_NUM] (check_worker os junk infs num)) (\<lambda>_. turned v {k..<WORKER_NUM} s) s'"
    if t: "turned v {k} s s'" for s'
  proof (rule wp_mono [OF Suc.hyps(1)])
    show "turned v {k..<WORKER_NUM} s s''" if "turned v {Suc k..<WORKER_NUM} s' s''" for s''
    proof -
      have "{k} \<union> {Suc k..<WORKER_NUM} = {k..<WORKER_NUM}" using k by auto
      then show ?thesis using turned_trans [OF t that] k Suc.prems(1) by (auto simp: subset_iff)
    qed
  qed (use Suc.hyps(2) k t in \<open>auto simp: turned_def\<close>)
  show ?case
    using wp_mono [OF check_worker_supervised [OF assms(1) Suc.prems(1) k] step] k by (simp add: upt_conv_Cons wp_seqP)
qed

lemma check_pass_supervised:
  assumes "procs_ok os v" and "supervised v s"
  shows "wp (check_pass os junk infs num 0) (\<lambda>_. supervised v) s"
  unfolding check_pass_def wp_seqP wp_proc_call
proof (rule wp_mono [OF check_workers_turned [OF assms, of 0]])
  show "supervised v (s'\<lparr>world := snd (os (Proc Sleep) (world s')), calls := cs\<rparr>)" if "turned v {0..<WORKER_NUM} s s'" for s' cs
    using that procs_okD [OF assms(1), of "Proc Sleep" "world s'"] by (simp add: turned_def supervised_def)
qed simp

text \<open>The checking loop is a service in the sense of \<open>Service\<close>, for as long as the flag is set.\<close>

interpretation sv: service_loop "check_pass os junk infs num 0" "\<lambda>s. procs_ok os v \<and> supervised v s" for os junk infs num v
  by unfold_locales (auto intro: wp_mono [OF check_pass_supervised])

text \<open>The starting loop fills the table from the front.\<close>

definition table_filled :: "'w pview \<Rightarrow> nat \<Rightarrow> ('w, 'a) master_scheme \<Rightarrow> bool" where
  "table_filled v k s \<longleftrightarrow> length (workers s) = WORKER_NUM \<and> distinct (take k (workers s)) \<and>
     (\<forall>p \<in> set (take k (workers s)). 0 < p \<and> p \<in> children v (world s))"

lemma start_worker_filled:
  assumes "procs_ok os v" and "table_filled v k s" and "k < WORKER_NUM"
  shows "wp (start_worker os junk infs num k) (\<lambda>_. table_filled v (Suc k)) s"
proof -
  have len: "k < length (workers s)" using assms(2,3) by (simp add: table_filled_def)
  have "take (Suc k) ((workers s)[k := q]) = take k (workers s) @ [q]" for q
    using len by (simp add: take_Suc_conv_app_nth)
  then show ?thesis
    using procs_okD [OF assms(1), of "Proc Fork" "world s"] assms(2) len
    by (auto simp: start_worker_def wp_simps table_filled_def)
qed

lemma start_workers_filled:
  assumes "procs_ok os v" and "table_filled v k s" and "k \<le> WORKER_NUM"
  shows "wp (forP [k..<WORKER_NUM] (start_worker os junk infs num)) (\<lambda>_. table_filled v WORKER_NUM) s"
  using assms(2,3)
proof (induction "WORKER_NUM - k" arbitrary: k s)
  case 0
  then show ?case by (simp add: wp_ret)
next
  case (Suc n)
  then have k: "k < WORKER_NUM" by simp
  have step: "wp (forP [Suc k..<WORKER_NUM] (start_worker os junk infs num)) (\<lambda>_. table_filled v WORKER_NUM) s'"
    if "table_filled v (Suc k) s'" for s' :: "('a, 'b) master_scheme"
    by (rule Suc.hyps(1)) (use Suc.hyps(2) k that in auto)
  show ?case
    using wp_mono [OF start_worker_filled [OF assms(1) Suc.prems(1) k] step] k by (simp add: upt_conv_Cons wp_seqP)
qed

section \<open>Properties\<close>

text \<open>
  C14: The master keeps its table: where \<open>fork\<close> succeeds in the parent, after the starting loop and after
  every number of checking passes the run goes on without a fault or an exit, and the 56 entries
  are the numbers of 56 different children that have not been reaped; \<open>waitpid\<close> is asked only
  about children, so it never fails.
\<close>

theorem master_supervises:
  assumes "procs_ok os v" and "length (workers s) = WORKER_NUM"
  shows "\<exists>s'. seqP (forP [0..<WORKER_NUM] (start_worker os junk infs num))
       (forP [0..<n] (\<lambda>_. check_pass os junk infs num 0)) s = Some (Ret (), s') \<and> supervised v s'"
proof -
  have "table_filled v 0 s" using assms(2) by (simp add: table_filled_def)
  then have "wp (forP [0..<WORKER_NUM] (start_worker os junk infs num)) (\<lambda>_. table_filled v WORKER_NUM) s"
    by (rule start_workers_filled [OF assms(1)]) simp
  then have "wp (seqP (forP [0..<WORKER_NUM] (start_worker os junk infs num))
      (forP [0..<n] (\<lambda>_. check_pass os junk infs num 0))) (\<lambda>_. supervised v) s"
    unfolding wp_seqP
    by (rule wp_mono)
      (use assms(1) in \<open>auto intro!: wp_mono [OF sv.turns [of os v]] simp: table_filled_def supervised_def\<close>)
  then show ?thesis by (auto simp: wp_iff)
qed

text \<open>A kernel of processes: its children, and those that have ended; all children end during \<open>sleep\<close>.\<close>

fun proc_os :: "(int list \<times> int list) kernel" where
  "proc_os (Proc Fork) (cs, es) = (reply (fold max cs 0 + 1) 0, ((fold max cs 0 + 1) # cs, es))"
| "proc_os (Proc (Waitpid p)) (cs, es) = (if p \<in> set es then (reply p 0, (removeAll p cs, removeAll p es)) else (reply 0 0, (cs, es)))"
| "proc_os (Proc Sleep) (cs, es) = (reply 0 0, (cs, cs))"
| "proc_os c w = (reply 0 0, w)"

definition proc_view :: "(int list \<times> int list) pview" where
  "proc_view = \<lparr>children = (\<lambda>w. set (fst w)), ended = (\<lambda>w. set (snd w) \<inter> set (fst w))\<rparr>"

lemma proc_os_ok: "procs_ok proc_os proc_view"
proof -
  have "proc_ok proc_view c (cs, es) (fst (proc_os c (cs, es))) (snd (proc_os c (cs, es)))" for c cs es
  proof (cases c)
    case (Proc d)
    have "fold max cs 0 + 1 \<notin> set cs" "0 < fold max cs 0 + 1" 
      using fold_max_ge(1) [of "fold max cs 0 + 1" cs 0] fold_max_ge(2) [of 0 cs] by auto
    then show ?thesis unfolding Proc by (cases d) (auto simp: proc_view_def reply_def)
  qed (simp_all add: proc_view_def)
  then show ?thesis by (simp add: procs_ok_def)
qed

definition ex_super :: "((int list \<times> int list), unit) master_scheme" where
  "ex_super = \<lparr>heap = NULL, tmem = (\<lambda>_. None), world = ([], []), calls = [], reqs = (\<lambda>_. None), brk = 100,
     ssls = {}, shm = shm ex_worker, g_ctx = 0, cpu_processer = 0, workers = replicate 56 0,
     server_running_flag = True, master_pid = 0\<rparr>"

theorem master_supervises_witness:
  "\<exists>s'. seqP (forP [0..<WORKER_NUM] (start_worker proc_os (zero_req, zero_timer) ex_infs 2))
       (forP [0..<3] (\<lambda>_. check_pass proc_os (zero_req, zero_timer) ex_infs 2 0)) ex_super = Some (Ret (), s') \<and> distinct (workers s')"
  using master_supervises [OF proc_os_ok, of ex_super "(zero_req, zero_timer)" ex_infs 2 3]
  by (auto simp: ex_super_def WORKER_NUM_def supervised_def)

text \<open>
  C28: Where \<open>fork\<close> succeeds in the parent (\<open>procs_ok\<close>), one pass revives every worker that had ended when
  the pass began: at its end the entry is a
  number that \<open>fork\<close> answered during the pass, and an entry that was not renewed belongs to a worker
  that had not ended.
\<close>

theorem check_pass_revives:
  assumes "procs_ok os v" and "supervised v s" and "i < WORKER_NUM"
  shows "\<exists>s' log. forP [0..<WORKER_NUM] (check_worker os junk infs num) s = Some (Ret (), s') \<and> calls s' = log @ calls s \<and>
     (workers s ! i \<in> ended v (world s) \<longrightarrow> (\<exists>a. (Proc Fork, a) \<in> set log \<and> rv a = workers s' ! i)) \<and>
     (workers s' ! i \<noteq> workers s ! i \<longrightarrow> (\<exists>a. (Proc Fork, a) \<in> set log \<and> rv a = workers s' ! i)) \<and>
     workers s' ! i \<in> children v (world s')"
proof -
  obtain s' where "forP [0..<WORKER_NUM] (check_worker os junk infs num) s = Some (Ret (), s')" "turned v {0..<WORKER_NUM} s s'"
    using check_workers_turned [OF assms(1,2), of 0 junk infs num] unfolding wp_iff by auto
  moreover from this(2) obtain log where "calls s' = log @ calls s" "renewed v i s s' log" "supervised v s'"
    using assms(3) by (auto simp: turned_def)
  ultimately show ?thesis
    using assms(3) by (intro exI [of _ s'] exI [of _ log]) (auto simp: renewed_def supervised_def)
qed

theorem check_pass_revives_witness:
  "\<exists>s' log a. forP [0..<WORKER_NUM] (check_worker proc_os (zero_req, zero_timer) ex_infs 2)
      (ex_super\<lparr>workers := map int [1..<57], world := (map int [1..<57], [5, 7])\<rparr>) = Some (Ret (), s') \<and>
     calls s' = log \<and> (Proc Fork, a) \<in> set log \<and> rv a = workers s' ! 6"
proof -
  let ?s = "ex_super\<lparr>workers := map int [1..<57], world := (map int [1..<57], [5, 7])\<rparr>"
  have "supervised proc_view ?s"
    by (auto simp: supervised_def proc_view_def ex_super_def WORKER_NUM_def distinct_map)
  from check_pass_revives [OF proc_os_ok this, of 6 "(zero_req, zero_timer)" ex_infs 2]
  show ?thesis by (auto simp: ex_super_def proc_view_def WORKER_NUM_def)
qed

end
