(* ===== verification/DmMain.thy ===== *)
theory DmMain
  imports DmMaster
begin

text \<open>
  The program's entry (\<open>moudles/server/main.c\<close>), and the properties of the small modules it puts
  together: sockets and shared counters.
\<close>

section \<open>The entry\<close>

definition SIGALRM :: int where "SIGALRM = 14"
definition SIGPIPE :: int where "SIGPIPE = 13"

text \<open>\<open>sd->counter = 0\<close>, through a pointer that may be NULL or the failure value of \<open>shmat\<close>.\<close>

definition reset :: "((32 word \<Rightarrow> 32 word) \<Rightarrow> shm_data_t \<Rightarrow> shm_data_t) \<Rightarrow> shm_ptr \<Rightarrow> (('w, 'a) worker_scheme, unit) prog" where
  "reset upd sd s = (case sd of ShmNull \<Rightarrow> fault NullDeref s | ShmFailed \<Rightarrow> fault BadPtr s
     | ShmAt \<Rightarrow> ret () (s\<lparr>shm := upd (\<lambda>_. 0) (shm s)\<rparr>))"

definition reset_counters :: "shm_ptr \<Rightarrow> (('w, 'a) worker_scheme, unit) prog" where
  "reset_counters sd = blockP
     [reset accept_mutex_update sd, reset accept_num_update sd, reset read_num_update sd,
      reset close_num_update sd, reset write_num_update sd]"

text \<open>The listener table; address and port keep what \<open>malloc\<close> left there.\<close>

definition listener_table :: "lis_inf_t \<Rightarrow> int \<Rightarrow> int \<Rightarrow> int \<Rightarrow> int \<Rightarrow> int \<Rightarrow> lis_inf_t list" where
  "listener_table junk http https http_proxy https_proxy tcp_proxy =
     [junk\<lparr>l_fd := http, l_type := HTTP\<rparr>, junk\<lparr>l_fd := https, l_type := HTTPS\<rparr>,
      junk\<lparr>l_fd := http_proxy, l_type := HTTP_PROXY\<rparr>, junk\<lparr>l_fd := https_proxy, l_type := HTTPS_PROXY\<rparr>,
      junk\<lparr>l_fd := tcp_proxy, l_type := TCP_PROXY\<rparr>]"

definition server_main ::
  "'w kernel \<Rightarrow> req_t \<times> Timer \<Rightarrow> lis_inf_t \<Rightarrow> string list \<Rightarrow> (('w, 'a) master_scheme, int) prog" where
  "server_main os junk ljunk args =
     seqP (events_ssl_init os)
    (seqP (bindP (ulimit os) (\<lambda>_. ret ()))
    (seqP (proc_call os (Sigaction SIGALRM))
    (seqP (proc_call os (Sigaction SIGPIPE))
    (bindP (create_socket os SERVER_DEFAULT_PORT) (\<lambda>http.
     bindP (create_socket os 443) (\<lambda>https.
     bindP (create_socket os 9000) (\<lambda>http_proxy.
     bindP (create_socket os 8443) (\<lambda>https_proxy.
     bindP (create_socket os 9090) (\<lambda>tcp_proxy.
     bindP (sys os (Malloc ''lis_inf_t[5]'')) (\<lambda>m.
       if rv m = 0 then fault NullDeref
       else bindP (create_get_shm os 66666) (\<lambda>sd.
         seqP (reset_counters sd)
        (seqP (whenP (length args = 2 \<and> args ! 1 = ''master'') (master_daemonize os))
        (seqP (master_start_multi_process_server os junk
                 (listener_table ljunk http https http_proxy https_proxy tcp_proxy) 5)
          (ret 0))))))))))))))"

section \<open>Properties\<close>

text \<open>
  \<open>set_non_blocking\<close> adds \<open>O_NONBLOCK\<close> to the descriptor's flags and keeps all others, and answers
  0 exactly when both system calls succeeded.
\<close>

lemma bit_power_int: "bit ((2 :: int) ^ n) k \<longleftrightarrow> k = n"
  by (auto simp: bit_exp_iff)

lemma bit_or_nonblock: "bit (or x O_NONBLOCK) k \<longleftrightarrow> bit x k \<or> k = 11"
proof -
  have "O_NONBLOCK = 2 ^ 11" by (simp add: O_NONBLOCK_def)
  then have "bit O_NONBLOCK k = bit ((2 :: int) ^ 11) k" by (rule arg_cong)
  then show ?thesis by (simp only: bit_or_iff bit_power_int)
qed

theorem set_non_blocking_flags:
  "\<exists>s' r. set_non_blocking os fd s = Some (Ret r, s') \<and> r \<in> {0, -1} \<and>
     (let g = fst (os (Fcntl_getfl fd) (world s)); w1 = snd (os (Fcntl_getfl fd) (world s)) in
       r = 0 \<longleftrightarrow> rv g \<noteq> -1 \<and> (\<exists>flags. rv (fst (os (Fcntl_setfl fd flags) w1)) \<noteq> -1 \<and>
         hd (calls s') = (Fcntl_setfl fd flags, fst (os (Fcntl_setfl fd flags) w1)) \<and>
         (\<forall>k. bit flags k \<longleftrightarrow> bit (rv g) k \<or> k = 11)))"
  by (auto simp: set_non_blocking_def run_simps Let_def bit_or_nonblock)

text \<open>
  What a process asked for since an earlier state, latest first, diagnostics and the flag update that
  follows a successful \<open>F_GETFL\<close> left out.
\<close>

fun essential :: "call \<Rightarrow> bool" where
  "essential (Perror m) = False"
| "essential (Fcntl_setfl fd fl) = False"
| "essential c = True"

definition asked :: "('w, 'a) process_scheme \<Rightarrow> call list \<Rightarrow> ('w, 'a) process_scheme \<Rightarrow> bool" where
  "asked s0 cs s \<longleftrightarrow> (\<exists>log. calls s = log @ calls s0 \<and> filter essential (map fst log) = cs)"

lemma asked_sys: "asked s0 cs s \<Longrightarrow>
    wp (sys os c) (\<lambda>a s'. a = fst (os c (world s)) \<and> asked s0 (if essential c then c # cs else cs) s') s"
  by (auto simp: wp_simps asked_def intro: exI [of _ "x # log" for x log])

lemma asked_call:
  assumes "asked s0 cs s"
    and "\<And>a s'. a = fst (os c (world s)) \<Longrightarrow> asked s0 (if essential c then c # cs else cs) s' \<Longrightarrow> wp (f a) Q s'"
  shows "wp (bindP (sys os c) f) Q s"
  using wp_mono [OF asked_sys [OF assms(1)]] assms(2) by (auto simp: wp_bindP)

lemma asked_warn:
  assumes "asked s0 cs s" and "\<And>s'. asked s0 cs s' \<Longrightarrow> Q () s'"
  shows "wp (whenP b (perror os m)) Q s"
  unfolding perror_def wp_whenP using assms by (auto intro!: asked_call simp: wp_ret)

lemma asked_non_blocking:
  assumes "asked s0 cs s" and "\<And>r s'. asked s0 (Fcntl_getfl fd # cs) s' \<Longrightarrow> Q r s'"
  shows "wp (set_non_blocking os fd) Q s"
  unfolding set_non_blocking_def using assms by (auto intro!: asked_call simp: wp_ret)

lemma create_socket_calls:
  "\<exists>s' log. let fd = rv (fst (os Socket (world s))) in
     create_socket os port s = Some (Ret fd, s') \<and> calls s' = log @ calls s \<and>
     filter essential (map fst (rev log)) =
       [Socket, Setsockopt fd SO_REUSEADDR 2, Fcntl_getfl fd, Bind fd (htons port), Listen fd 5,
        Setsockopt fd SO_RCVTIMEO 500]"
proof -
  let ?fd = "rv (fst (os Socket (world s)))"
  let ?cs = "[Setsockopt ?fd SO_RCVTIMEO 500, Listen ?fd 5, Bind ?fd (htons port), Fcntl_getfl ?fd, Setsockopt ?fd SO_REUSEADDR 2, Socket]"
  have start: "asked s [] s" by (simp add: asked_def)
  have "wp (create_socket os port) (\<lambda>r s'. r = ?fd \<and> asked s ?cs s') s"
    unfolding create_socket_def set_reuse_def
    by (rule asked_call [OF start], auto simp: wp_seqP wp_bindP wp_ret
      intro!: asked_call [unfolded wp_bindP] asked_warn asked_non_blocking)
  then show ?thesis by (auto simp: wp_iff asked_def Let_def rev_map [symmetric] rev_filter [symmetric])
qed

text \<open>
  \<open>create_socket\<close> reports no failure: whatever the kernel answers, it makes the same calls in the
  same order (socket, reuse, flags, bind of the port, listen with a backlog of 5, receive timeout)
  on whatever \<open>socket\<close> answered, and returns that, also when there is no socket or the port is taken.
\<close>

theorem create_socket_ignores_errors:
  "\<exists>s' log. let fd = rv (fst (os Socket (world s))) in
     create_socket os port s = Some (Ret fd, s') \<and> calls s' = log @ calls s \<and>
     filter essential (map fst (rev log)) =
       [Socket, Setsockopt fd SO_REUSEADDR 2, Fcntl_getfl fd, Bind fd (htons port), Listen fd 5,
        Setsockopt fd SO_RCVTIMEO 500]"
  by (rule create_socket_calls)

text \<open>
  When the back end refuses the connection, \<open>client_socket\<close> answers -1 and the descriptor it has
  opened stays open: one descriptor is lost per failed attempt.
\<close>

theorem client_socket_leaks:
  assumes "kernel_ok os v" and "rv (fst (os Socket (world s))) \<noteq> -1"
    and "\<forall>fd w. rv (fst (os (Connect fd ''127.0.0.1'' (htons 80)) w)) = -1"
  shows "\<exists>s'. client_socket os s = Some (Ret (-1), s') \<and>
     opened v (world s') = insert (rv (fst (os Socket (world s)))) (opened v (world s)) \<and>
     rv (fst (os Socket (world s))) \<notin> opened v (world s)"
proof -
  have "call_ok v Socket (world s) (fst (os Socket (world s))) (snd (os Socket (world s)))" by (rule kernel_okD [OF assms(1)])
  moreover have "same_fds v w (snd (os (Connect fd h p) w))" "same_fds v w (snd (os (Perror m) w))" for fd h p w m
    by (rule quiet_same [OF assms(1)], simp)+
  ultimately show ?thesis
    using assms(2,3) by (auto simp: client_socket_def run_simps perror_def same_fds_def)
qed

text \<open>\<open>sim_os\<close> without a back end.\<close>

fun refusing_os :: "sim kernel" where
  "refusing_os (Connect fd h p) w = (reply (-1) 111, w)"
| "refusing_os c w = sim_os c w"

lemma refusing_kernel_ok: "kernel_ok refusing_os sim_view"
  unfolding kernel_ok_def
proof (intro allI)
  fix c :: call and w :: sim
  have same: "call_ok sim_view c w (fst (sim_os c w)) (snd (sim_os c w))" by (rule kernel_okD [OF sim_kernel_ok])
  show "call_ok sim_view c w (fst (refusing_os c w)) (snd (refusing_os c w))"
  proof (cases "\<exists>fd h p. c = Connect fd h p")
    case True
    then show ?thesis by (auto simp: same_fds_def)
  next
    case False
    then have "refusing_os c w = sim_os c w" by (cases c) (simp_all del: sim_os.simps)
    with same show ?thesis by simp
  qed
qed

theorem client_socket_leaks_witness:
  "\<exists>s'. client_socket refusing_os ex_worker = Some (Ret (-1), s') \<and> set (sim_open (world s')) = {0, 1, 2, 3, 4, 5}"
  using client_socket_leaks [OF refusing_kernel_ok, of ex_worker]
  by (auto simp: reply_def sim_fresh_def ex_worker_def ex_world_def sim_view_def)

section \<open>Starting up\<close>

text \<open>
  What start-up has done since a state: the calls in \<open>X\<close> were made, and no process was forked.
\<close>

definition logged :: "('w, 'a) process_scheme \<Rightarrow> call set \<Rightarrow> ('w, 'a) process_scheme \<Rightarrow> bool" where
  "logged s0 X s \<longleftrightarrow> (\<exists>log. calls s = log @ calls s0 \<and> X \<subseteq> fst ` set log \<and> Proc Fork \<notin> fst ` set log)"

lemma logged_call:
  assumes "logged s0 X s" and "c \<noteq> Proc Fork" and "\<And>a s'. a = fst (os c (world s)) \<Longrightarrow> logged s0 X s' \<Longrightarrow> wp (f a) Q s'"
  shows "wp (bindP (sys os c) f) Q s"
proof -
  have "logged s0 X (s\<lparr>world := snd (os c (world s)), calls := (c, fst (os c (world s))) # calls s\<rparr>)"
    using assms(1,2) unfolding logged_def
    by (elim exE) (rule_tac x = "(c, fst (os c (world s))) # log" in exI, auto)
  with assms(3) show ?thesis by (simp add: wp_bindP wp_sys)
qed

lemma logged_perror:
  assumes "logged s0 X s" and "\<And>s'. logged s0 X s' \<Longrightarrow> Q () s'"
  shows "wp (perror os m) Q s"
  unfolding perror_def using assms by (auto intro!: logged_call simp: wp_ret)

lemma logged_printf:
  assumes "logged s0 X s" and "\<And>s'. logged s0 X s' \<Longrightarrow> Q () s'"
  shows "wp (printf os m) Q s"
  unfolding printf_def using assms by (auto intro!: logged_call simp: wp_ret)

lemma logged_proc_call:
  assumes "logged s0 X s" and "c \<noteq> Fork"
  shows "wp (proc_call os c) (\<lambda>_. logged s0 X) s"
  unfolding proc_call_def using assms by (auto intro!: logged_call simp: wp_ret)

lemma logged_ssl_init: "logged s0 X s \<Longrightarrow> wp (events_ssl_init os) (\<lambda>_. logged s0 X) s"
  unfolding events_ssl_init_def
  by (auto intro!: logged_call logged_perror simp: wp_if wp_modify) (auto simp: logged_def)

lemma logged_ulimit: "logged s0 X s \<Longrightarrow> wp (ulimit os) (\<lambda>_. logged s0 X) s"
  unfolding ulimit_def by (auto intro!: logged_call logged_perror logged_printf simp: wp_if wp_seqP wp_ret)

definition shm_pointer :: "int \<Rightarrow> shm_ptr" where
  "shm_pointer r = (if r = -1 then ShmFailed else if r = 0 then ShmNull else ShmAt)"

lemma logged_shm:
  assumes "logged s0 X s" and "\<And>x w. shm_pointer (rv (fst (os (Proc (Shmat x)) w))) = sd"
  shows "wp (create_get_shm os k) (\<lambda>r s'. logged s0 X s' \<and> r = sd) s"
  unfolding create_get_shm_def shm_pointer_def [symmetric] assms(2) 
  using assms(1) by (auto simp: wp_seqP wp_whenP wp_ret assms(2) intro!: logged_call logged_perror)

lemma logged_create_socket:
  assumes "logged s0 X s"
  shows "wp (create_socket os port) (\<lambda>fd. logged s0 (insert (Bind fd (htons port)) X)) s"
proof -
  obtain s' log fd where run: "create_socket os port s = Some (Ret fd, s')" "calls s' = log @ calls s"
    and calls: "filter essential (map fst (rev log)) = [Socket, Setsockopt fd SO_REUSEADDR 2, Fcntl_getfl fd, Bind fd (htons port),
      Listen fd 5, Setsockopt fd SO_RCVTIMEO 500]"
    using create_socket_calls [of os s port] by (auto simp: Let_def)
  have "c \<in> fst ` set log \<longleftrightarrow> c \<in> {Socket, Setsockopt fd SO_REUSEADDR 2, Fcntl_getfl fd, Bind fd (htons port),
      Listen fd 5, Setsockopt fd SO_RCVTIMEO 500}" if "essential c" for c
    using arg_cong [OF calls, of set] that by auto
  from this [of "Bind fd (htons port)"] this [of "Proc Fork"]
  have "Bind fd (htons port) \<in> fst ` set log" "Proc Fork \<notin> fst ` set log" by simp_all
  with run assms show ?thesis
    unfolding wp_iff logged_def by (elim exE) (rule exI, rule exI, rule conjI, assumption, rule_tac x = "log @ loga" in exI, auto)
qed

lemma logged_reset: "logged s0 X s \<Longrightarrow> wp (reset_counters ShmAt) (\<lambda>_ s'. logged s0 X s' \<and>
    shm s' = \<lparr>accept_mutex = 0, accept_num = 0, read_num = 0, write_num = 0, close_num = 0\<rparr>) s"
  by (simp add: reset_counters_def reset_def wp_def run_simps logged_def)

text \<open>Up to the shared counters, start-up returns: five sockets are bound, whatever the kernel answers.\<close>

lemma server_main_runs:
  assumes "memory_ok os" and "\<And>x w. shm_pointer (rv (fst (os (Proc (Shmat x)) w))) = sd"
    and "\<And>s' f1 f2 f3 f4 f5. logged s {Bind f5 (htons 9090), Bind f4 (htons 8443), Bind f3 (htons 9000), Bind f2 (htons 443),
        Bind f1 (htons SERVER_DEFAULT_PORT)} s' \<Longrightarrow>
      R (seqP (reset_counters sd)
          (seqP (whenP (length args = 2 \<and> args ! 1 = ''master'') (master_daemonize os))
          (seqP (master_start_multi_process_server os junk (listener_table ljunk f1 f2 f3 f4 f5) 5) (ret 0))) s')"
  shows "R (server_main os junk ljunk args s)"
proof -
  have start: "logged s {} s" by (simp add: logged_def)
  have mem: "rv (fst (os (Malloc m) w)) \<noteq> 0" for m w using assms(1) by (simp add: memory_ok_def)
  have malloc: "wp (sys os (Malloc m)) (\<lambda>a s''. rv a \<noteq> 0 \<and> logged s X s'') s'" if "logged s X s'" for m X and s' :: "('a, 'b) master_scheme"
    using logged_call [OF that, of "Malloc m" os ret] mem [of m "world s'"] by (auto simp: wp_bindP wp_ret wp_sys)
  have limit: "wp (bindP (ulimit os) (\<lambda>_. ret ())) (\<lambda>_. logged s X) s'" if "logged s X s'" for X and s' :: "('a, 'b) master_scheme"
    unfolding wp_bindP by (rule wp_mono [OF logged_ulimit [OF that]]) (simp add: wp_ret)
  show ?thesis
    unfolding server_main_def
    apply (rule run_seq [where R = R, OF logged_ssl_init [OF start]])
    apply (rule run_seq [where R = R, OF limit], assumption)
    apply (rule run_seq [where R = R, OF logged_proc_call], assumption, simp)
    apply (rule run_seq [where R = R, OF logged_proc_call], assumption, simp)
    apply (rule run_bind [where R = R, OF logged_create_socket], assumption)+
    apply (rule run_bind [where R = R, OF malloc], assumption, elim conjE, simp only: if_False)
    apply (rule run_bind [where R = R, OF logged_shm], assumption, rule assms(2), elim conjE, hypsubst)
    apply (rule assms(3), assumption)
    done
qed

text \<open>
  C30: Start-up composes the modules: with memory and the shared segment at hand, whatever else the
  kernel answers, the five ports are bound, one per listener of the table, no process has been
  forked, and the shared counters are 0 when the master (here not logged a daemon) starts its workers.
\<close>

theorem main_starts_master:
  assumes "memory_ok os" and "\<forall>x w. rv (fst (os (Proc (Shmat x)) w)) \<notin> {0, -1}" and "length args \<noteq> 2 \<or> args ! 1 \<noteq> ''master''"
  shows "\<exists>s' log f1 f2 f3 f4 f5.
     server_main os junk ljunk args s =
       seqP (master_start_multi_process_server os junk (listener_table ljunk f1 f2 f3 f4 f5) 5) (ret 0) s' \<and>
     map l_type (listener_table ljunk f1 f2 f3 f4 f5) = [HTTP, HTTPS, HTTP_PROXY, HTTPS_PROXY, TCP_PROXY] \<and>
     calls s' = log @ calls s \<and> Proc Fork \<notin> fst ` set log \<and>
     {Bind f1 (htons SERVER_DEFAULT_PORT), Bind f2 (htons 443), Bind f3 (htons 9000), Bind f4 (htons 8443), Bind f5 (htons 9090)}
       \<subseteq> fst ` set log \<and>
     shm s' = \<lparr>accept_mutex = 0, accept_num = 0, read_num = 0, write_num = 0, close_num = 0\<rparr>"
proof -
  have no_daemon: "seqP (whenP (length args = 2 \<and> args ! 1 = ''master'') (master_daemonize os)) k = k" for k :: "(('a, 'b) master_scheme, int) prog"
    using assms(3) by (auto simp: fun_eq_iff run_simps)
  show ?thesis
    apply (rule server_main_runs [of os ShmAt, OF assms(1)])
     apply (use assms(2) in \<open>simp add: shm_pointer_def\<close>)
    apply (rule run_seq [OF logged_reset], assumption, elim conjE)
    unfolding no_daemon logged_def
    apply (elim exE conjE, intro exI conjI, rule refl, simp add: listener_table_def, assumption, assumption)
     apply (simp only: insert_commute insert_subset empty_subsetI simp_thms)
    apply assumption
    done
qed

theorem main_starts_master_witness:
  "\<exists>s' f1 f2 f3 f4 f5. server_main sim_os (zero_req, zero_timer) (ex_infs ! 0) [''server''] ex_master =
       seqP (master_start_multi_process_server sim_os (zero_req, zero_timer) (listener_table (ex_infs ! 0) f1 f2 f3 f4 f5) 5) (ret 0) s' \<and>
     shm s' = \<lparr>accept_mutex = 0, accept_num = 0, read_num = 0, write_num = 0, close_num = 0\<rparr>"
proof -
  have segment: "\<forall>x w. rv (fst (sim_os (Proc (Shmat x)) w)) \<notin> {0, -1}" by (simp add: reply_def)
  have args: "length [''server''] \<noteq> 2 \<or> [''server''] ! 1 \<noteq> ''master''" by simp
  show ?thesis
    using main_starts_master [OF sim_memory_ok segment args, of "(zero_req, zero_timer)" "ex_infs ! 0" ex_master]
    by - (elim exE conjE, intro exI conjI, assumption, assumption)
qed

text \<open>
  Without the shared segment the server does not start: \<open>create_get_shm\<close> hands on the failure value
  of \<open>shmat\<close>, and the first store of a counter through it faults, before any process is forked.
\<close>

theorem main_faults_without_segment:
  assumes "memory_ok os" and "\<forall>x w. rv (fst (os (Proc (Shmat x)) w)) = -1"
  shows "\<exists>s' log. server_main os junk ljunk args s = Some (Fault BadPtr, s') \<and> calls s' = log @ calls s \<and> Proc Fork \<notin> fst ` set log"
  by (rule server_main_runs [of os ShmFailed, OF assms(1)])
    (use assms(2) in \<open>auto simp: shm_pointer_def run_simps reset_counters_def reset_def logged_def\<close>)

fun no_shm_os :: "sim kernel" where
  "no_shm_os (Proc (Shmat i)) w = (reply (-1) 22, w)"
| "no_shm_os c w = sim_os c w"

theorem main_faults_without_segment_witness:
  "\<exists>s'. server_main no_shm_os (zero_req, zero_timer) (ex_infs ! 0) [''server''] ex_master = Some (Fault BadPtr, s')"
  using main_faults_without_segment [of no_shm_os "(zero_req, zero_timer)" "ex_infs ! 0" "[''server'']" ex_master]
  by (auto simp: reply_def memory_ok_def)

end
