(* ===== verification/DmSslServer.thy ===== *)
theory DmSslServer
  imports DmServer
begin

text \<open>
  The rest of \<open>moudles/server/dm_server.c\<close>: the threaded start of the server, and the stand-alone TLS
  server \<open>epoll_ssl_server\<close>, which finds the TLS object of a descriptor in a linked list behind a head
  node. The head's own descriptor and object are never set: they are what \<open>malloc\<close> left there.
\<close>

section \<open>The threaded start\<close>

text \<open>The joined thread runs \<open>server_make\<close> to its end; nothing reads the pool the arguments point to.\<close>

definition start_multi_threading_server ::
  "'w kernel \<Rightarrow> req_t \<times> Timer \<Rightarrow> lis_inf_t list \<Rightarrow> int \<Rightarrow> (('w, 'a) worker_scheme, unit) prog" where
  "start_multi_threading_server os junk infs n =
     (let args = \<lparr>lis_infs = infs, lis_num = n\<rparr> in
      seqP (server_make os junk args)
        (forP [0..<1] (\<lambda>k. blockP
          [bindP (sys os (Thread (Pthread_create k))) (\<lambda>_. ret ()),
           server_make os junk args,
           bindP (sys os (Thread (Pthread_join k))) (\<lambda>_. ret ())])))"

section \<open>The map from descriptors to TLS objects\<close>

record fd_ssl_map =
  m_fd :: int
  m_ssl :: int
  m_next :: ptr

record 'w ssl_server = "'w worker" +
  fsm :: "addr \<Rightarrow> fd_ssl_map option"

definition mget :: "ptr \<Rightarrow> (('w, 'a) ssl_server_scheme, fd_ssl_map) prog" where
  "mget p s = (case p of None \<Rightarrow> fault NullDeref s
     | Some a \<Rightarrow> (case fsm s a of None \<Rightarrow> fault BadPtr s | Some n \<Rightarrow> ret n s))"

definition mput :: "ptr \<Rightarrow> (fd_ssl_map \<Rightarrow> fd_ssl_map) \<Rightarrow> (('w, 'a) ssl_server_scheme, unit) prog" where
  "mput p f s = (case p of None \<Rightarrow> fault NullDeref s
     | Some a \<Rightarrow> (case fsm s a of None \<Rightarrow> fault BadPtr s
         | Some n \<Rightarrow> ret () (s\<lparr>fsm := (fsm s)(a := Some (f n))\<rparr>)))"

definition malloc_map :: "'w kernel \<Rightarrow> fd_ssl_map \<Rightarrow> (('w, 'a) ssl_server_scheme, ptr) prog" where
  "malloc_map os junk = bindP (sys os (Malloc ''fd_ssl_map'')) (\<lambda>m.
     if rv m = 0 then ret NULL
     else bindP (gets brk) (\<lambda>a.
       seqP (modify (\<lambda>s. s\<lparr>brk := Suc a, fsm := (fsm s)(a := Some junk)\<rparr>)) (ret (Some a))))"

text \<open>A TLS object handed to the library is live, or NULL.\<close>

definition live_ssl :: "int \<Rightarrow> (('w, 'a) worker_scheme, unit) prog" where
  "live_ssl p s = (if p = 0 \<or> p \<in> ssls s then ret () s else fault BadPtr s)"

section \<open>Set-up\<close>

definition get_ssl_ctx1 :: "'w kernel \<Rightarrow> (('w, 'a) process_scheme, int) prog" where
  "get_ssl_ctx1 os =
     bindP (sys os (Ssl (SSL_setup ''SSL_library_init''))) (\<lambda>_.
     bindP (sys os (Ssl (SSL_setup ''OpenSSL_add_all_algorithms''))) (\<lambda>_.
     bindP (sys os (Ssl (SSL_setup ''SSL_load_error_strings''))) (\<lambda>_.
     bindP (sys os (Ssl (SSL_setup ''SSL_CTX_new''))) (\<lambda>ctx.
       if rv ctx = 0 then seqP (printf os ''ERR_print_errors_fp'') (ret 0)
       else bindP (sys os (Ssl (SSL_setup ''SSL_CTX_use_certificate_file''))) (\<lambda>r.
         if rv r \<le> 0 then seqP (printf os ''ERR_print_errors_fp'') (ret 0)
         else bindP (sys os (Ssl (SSL_setup ''SSL_CTX_use_PrivateKey_file''))) (\<lambda>r.
           if rv r \<le> 0 then seqP (printf os ''ERR_print_errors_fp'') (ret 0)
           else bindP (sys os (Ssl (SSL_setup ''SSL_CTX_check_private_key''))) (\<lambda>r.
             if rv r = 0 then seqP (printf os ''ERR_print_errors_fp'') (ret 0)
             else ret (rv ctx))))))))"

section \<open>A new client\<close>

partial_function (option) ssl_retry ::
  "'w kernel \<Rightarrow> int \<Rightarrow> int \<Rightarrow> ('w, 'a) worker_scheme \<Rightarrow> (int res \<times> ('w, 'a) worker_scheme) option" where
  "ssl_retry os ssl retryTimes s = bindP (sys os (Ssl (SSL_accept ssl))) (\<lambda>code.
     ifP (rv code \<le> 0 \<and> retryTimes < 100)
       (bindP (sys os (Ssl (SSL_get_error ssl (rv code)))) (\<lambda>e.
         ifP (rv e \<noteq> SSL_ERROR_WANT_READ)
           (bindP (sys os (Ssl (SSL_get_error ssl (rv code)))) (\<lambda>_.
             seqP (printf os ''ssl accept error.'') (ret (rv code))))
           (bindP (sys os (Proc Sleep)) (\<lambda>_. seqP (printf os ''-------|'') (ssl_retry os ssl (retryTimes + 1))))))
       (ret (rv code))) s"

text \<open>Putting a new node behind the head.\<close>

definition insert_map :: "'w kernel \<Rightarrow> fd_ssl_map \<Rightarrow> ptr \<Rightarrow> int \<Rightarrow> int \<Rightarrow> (('w, 'a) ssl_server_scheme, unit) prog" where
  "insert_map os junk fsm_head cfd ssl = bindP (malloc_map os junk) (\<lambda>per.
     seqP (mput per (\<lambda>n. n\<lparr>m_fd := cfd\<rparr>))
    (seqP (mput per (\<lambda>n. n\<lparr>m_ssl := ssl\<rparr>))
    (seqP (mput per (\<lambda>n. n\<lparr>m_next := NULL\<rparr>))
    (bindP (mget fsm_head) (\<lambda>h.
      if m_next h = NULL then mput fsm_head (\<lambda>n. n\<lparr>m_next := per\<rparr>)
      else seqP (mput per (\<lambda>n. n\<lparr>m_next := m_next h\<rparr>)) (mput fsm_head (\<lambda>n. n\<lparr>m_next := per\<rparr>)))))))"

definition accept_client ::
  "'w kernel \<Rightarrow> fd_ssl_map \<Rightarrow> int \<Rightarrow> int \<Rightarrow> ptr \<Rightarrow> (('w, 'a) ssl_server_scheme, unit) prog" where
  "accept_client os junk efd serfd fsm_head = bindP (sys os (Accept serfd)) (\<lambda>cfd.
     if 0 < rv cfd
     then seqP (printf os ''accept client'')
       (bindP (gets g_ctx) (\<lambda>ctx. bindP (sys os (Ssl (SSL_new ctx))) (\<lambda>ssl.
         if rv ssl = 0 then printf os ''SSL_new error.''
         else seqP (modify (\<lambda>s. s\<lparr>ssls := insert (rv ssl) (ssls s)\<rparr>))
           (bindP (sys os (Fcntl_getfl (rv cfd))) (\<lambda>flags.
            bindP (sys os (Fcntl_setfl (rv cfd) (or (rv flags) O_NONBLOCK))) (\<lambda>_.
            bindP (sys os (Ssl (SSL_set_fd (rv ssl) (rv cfd)))) (\<lambda>_.
            bindP (ssl_retry os (rv ssl) 0) (\<lambda>code.
            seqP (printf os ''code, retry times'')
              (if code \<noteq> 1
               then bindP (sys os (Close (rv cfd))) (\<lambda>_.
                 bindP (sys os (Ssl (SSL_free (rv ssl)))) (\<lambda>_. release_ssl (rv ssl)))
               else bindP (sys os (Epoll_add efd (rv cfd) \<lparr>ev_events = or EPOLLET EPOLLIN, ev_data = DFd (rv cfd)\<rparr>)) (\<lambda>_.
                 insert_map os junk fsm_head (rv cfd) (rv ssl)))))))))))
     else perror os ''accept error'')"

section \<open>An event of a client\<close>

text \<open>The search; \<open>pre\<close> is unset until the loop has advanced once.\<close>

partial_function (option) find_loop ::
  "int \<Rightarrow> ptr \<Rightarrow> ptr option \<Rightarrow> ('w, 'a) ssl_server_scheme \<Rightarrow> ((ptr \<times> ptr option) res \<times> ('w, 'a) ssl_server_scheme) option" where
  "find_loop fd it pre s = bindP (mget it) (\<lambda>n.
     ifP (m_next n = NULL \<or> m_fd n = fd) (ret (it, pre)) (find_loop fd (m_next n) (Some it))) s"

definition put_pre :: "ptr option \<Rightarrow> ptr \<Rightarrow> (('w, 'a) ssl_server_scheme, unit) prog" where
  "put_pre pre p = (case pre of None \<Rightarrow> fault Uninit | Some q \<Rightarrow> mput q (\<lambda>n. n\<lparr>m_next := p\<rparr>))"

text \<open>The client has gone.\<close>

definition hang_up :: "'w kernel \<Rightarrow> int \<Rightarrow> int \<Rightarrow> ptr \<Rightarrow> ptr option \<Rightarrow> (('w, 'a) ssl_server_scheme, unit) prog" where
  "hang_up os efd fd it pre =
     seqP (printf os ''client quit!'')
    (bindP (sys os (Close fd)) (\<lambda>_. bindP (mget it) (\<lambda>n.
     seqP (live_ssl (m_ssl n))
    (bindP (sys os (Ssl (SSL_shutdown (m_ssl n)))) (\<lambda>_. bindP (sys os (Ssl (SSL_free (m_ssl n)))) (\<lambda>_.
     seqP (release_ssl (m_ssl n))
    (seqP (whenP (m_next n = NULL) (put_pre pre NULL))
    (bindP (mget it) (\<lambda>n. seqP (put_pre pre (m_next n))
      (bindP (sys os (Epoll_del efd fd)) (\<lambda>_. ret ())))))))))))"

text \<open>
  A request: up to 512 bytes, printed as a string - which needs a NUL among them - and sent back
  behind a header.
\<close>

definition echo :: "'w kernel \<Rightarrow> ptr \<Rightarrow> (('w, 'a) ssl_server_scheme, unit) prog" where
  "echo os it = bindP (mget it) (\<lambda>n. seqP (live_ssl (m_ssl n))
     (bindP (sys os (Ssl (SSL_read (m_ssl n) 512))) (\<lambda>a.
       if rv a \<le> 0 then ssl_error os (m_ssl n) (rv a) ''SSL_read error.''
       else bindP (ret (filled 512 (data_in a))) (\<lambda>buf. blockP
         [if NUL \<in> set buf then printf os (''read: '' @ show_int (rv a) @ CHR 0x0A # c_str buf) else fault OutOfBounds,
          printf os (https_response (rv a)),
          bindP (sys os (Ssl (SSL_write (m_ssl n) (https_response (rv a))))) (\<lambda>w. seqP (printf os ''format size, write size'')
            (whenP (rv w \<le> 0) (ssl_error os (m_ssl n) (rv w) ''SSL_write error.''))),
          bindP (sys os (Ssl (SSL_write (m_ssl n) (take (nat (rv a)) buf)))) (\<lambda>w. seqP
            (whenP (rv w \<le> 0) (ssl_error os (m_ssl n) (rv w) ''SSL_write error.'')) (printf os ''format size, write size''))]))))"

definition ssl_event ::
  "'w kernel \<Rightarrow> fd_ssl_map \<Rightarrow> int \<Rightarrow> int \<Rightarrow> ptr \<Rightarrow> epoll_event \<Rightarrow> (('w, 'a) ssl_server_scheme, unit) prog" where
  "ssl_event os junk efd serfd fsm_head ev = (case ev_data ev of
       DPtr _ \<Rightarrow> fault BadPtr
     | DFd fd \<Rightarrow>
         if fd = serfd then accept_client os junk efd serfd fsm_head
         else bindP (find_loop fd fsm_head None) (\<lambda>(it, pre).
           if and (ev_events ev) (or EPOLLRDHUP EPOLLHUP) \<noteq> 0 then hang_up os efd fd it pre
           else whenP (and (ev_events ev) EPOLLIN \<noteq> 0) (echo os it)))"

section \<open>The server\<close>

partial_function (option) ssl_loop ::
  "'w kernel \<Rightarrow> fd_ssl_map \<Rightarrow> int \<Rightarrow> int \<Rightarrow> ptr \<Rightarrow> ('w, 'a) ssl_server_scheme \<Rightarrow> (unit res \<times> ('w, 'a) ssl_server_scheme) option" where
  "ssl_loop os junk efd serfd fsm_head s = bindP (sys os (Epoll_wait efd 100 (-1))) (\<lambda>nev.
     ifP (rv nev < 0) (printf os ''epoll_wait error.'')
      (seqP (forP (take (nat (rv nev)) (events_in nev)) (ssl_event os junk efd serfd fsm_head))
        (ssl_loop os junk efd serfd fsm_head))) s"

text \<open>The loop over the map at the end, which does not advance.\<close>

partial_function (option) close_maps :: "'w kernel \<Rightarrow> ptr \<Rightarrow> ('w, 'a) ssl_server_scheme \<Rightarrow> (unit res \<times> ('w, 'a) ssl_server_scheme) option" where
  "close_maps os it s = bindP (mget it) (\<lambda>n.
     ifP (m_next n = NULL) (ret ())
      (bindP (sys os (Close (m_fd n))) (\<lambda>_. bindP (sys os (Ssl (SSL_free (m_ssl n)))) (\<lambda>_.
        seqP (release_ssl (m_ssl n)) (close_maps os it))))) s"

text \<open>A failed \<open>assert\<close> aborts the process (status 134).\<close>

definition epoll_ssl_server :: "'w kernel \<Rightarrow> fd_ssl_map \<Rightarrow> int \<Rightarrow> (('w, 'a) ssl_server_scheme, int) prog" where
  "epoll_ssl_server os junk serfd = bindP (get_ssl_ctx1 os) (\<lambda>ctx.
     if ctx = 0 then ret 1
     else seqP (modify (\<lambda>s. s\<lparr>g_ctx := ctx\<rparr>))
       (seqP (printf os ''ssl load ok'')
       (bindP (sys os (Epoll_create 100)) (\<lambda>efd.
         if rv efd \<le> 0 then quit 134
         else seqP (printf os ''epoll fd'')
           (bindP (sys os (Epoll_add (rv efd) serfd \<lparr>ev_events = or EPOLLET EPOLLIN, ev_data = DFd serfd\<rparr>)) (\<lambda>_.
            bindP (malloc_map os junk) (\<lambda>fsm_head.
            seqP (mput fsm_head (\<lambda>n. n\<lparr>m_next := NULL\<rparr>))
           (seqP (printf os ''server is listening...'')
           (seqP (ssl_loop os junk (rv efd) serfd fsm_head)
           (seqP (close_maps os fsm_head)
             (bindP (sys os (Ssl (SSL_setup ''SSL_CTX_free''))) (\<lambda>_.
              bindP (sys os (Close serfd)) (\<lambda>_. bindP (sys os (Close (rv efd))) (\<lambda>_. ret 0))))))))))))))"

section \<open>The map as a list\<close>

text \<open>The nodes reached from a pointer, with the descriptor and the TLS object each holds.\<close>

fun mlist :: "(addr \<Rightarrow> fd_ssl_map option) \<Rightarrow> ptr \<Rightarrow> (addr \<times> int \<times> int) list \<Rightarrow> bool" where
  "mlist m p [] \<longleftrightarrow> p = NULL"
| "mlist m p ((a, fd, ssl) # xs) \<longleftrightarrow> p = Some a \<and>
     (\<exists>n. m a = Some n \<and> m_fd n = fd \<and> m_ssl n = ssl \<and> mlist m (m_next n) xs)"

definition map_ok :: "('w, 'a) ssl_server_scheme \<Rightarrow> addr \<Rightarrow> (addr \<times> int \<times> int) list \<Rightarrow> bool" where
  "map_ok s h xs \<longleftrightarrow> (\<exists>n. fsm s h = Some n \<and> mlist (fsm s) (m_next n) xs) \<and> distinct (h # map fst xs)"

lemma wp_mget [wp_simps]: "wp (mget p) Q s = (\<exists>a n. p = Some a \<and> fsm s a = Some n \<and> Q n s)"
  by (auto simp: wp_def mget_def run_simps split: option.splits)

lemma wp_mput [wp_simps]:
  "wp (mput p f) Q s = (\<exists>a n. p = Some a \<and> fsm s a = Some n \<and> Q () (s\<lparr>fsm := (fsm s)(a := Some (f n))\<rparr>))"
  by (auto simp: wp_def mput_def run_simps split: option.splits)

lemma wp_live_ssl [wp_simps]: "wp (live_ssl p) Q s = ((p = 0 \<or> p \<in> ssls s) \<and> Q () s)"
  by (simp add: wp_def live_ssl_def run_simps)

lemma mlist_upd: "a \<notin> fst ` set xs \<Longrightarrow> mlist (m(a := n)) p xs = mlist m p xs"
  by (induction xs arbitrary: p) auto

lemma mlist_append:
  "mlist m p (xs @ (a, fd, ssl) # ys) \<Longrightarrow> \<exists>n. m a = Some n \<and> m_fd n = fd \<and> m_ssl n = ssl \<and> mlist m (m_next n) ys"
  by (induction xs arbitrary: p) auto

text \<open>Taking a node out: its predecessor points to what follows it.\<close>

lemma mlist_remove:
  assumes "mlist m p (xs @ (b, x, y) # (a, fd, ssl) # ys)" and "m b = Some nb" and "m a = Some na"
    and "distinct (map fst (xs @ (b, x, y) # (a, fd, ssl) # ys))"
  shows "mlist (m(b := Some (nb\<lparr>m_next := m_next na\<rparr>))) p (xs @ (b, x, y) # ys)"
  using assms
proof (induction xs arbitrary: p)
  case Nil
  then show ?case
    using mlist_upd [of b ys m "Some (nb\<lparr>m_next := m_next na\<rparr>)" "m_next na"] by (auto simp: fun_upd_def)
next
  case (Cons c xs)
  then show ?case by (cases c) auto
qed

text \<open>Inserting puts a node behind the head, whatever \<open>malloc\<close> left in it.\<close>

lemma mlist_fresh: "mlist m p xs \<Longrightarrow> m b = None \<Longrightarrow> b \<notin> fst ` set xs"
  by (induction xs arbitrary: p) force+

text \<open>What the nodes hold, apart from their links.\<close>

definition tags :: "('w, 'a) ssl_server_scheme \<Rightarrow> addr \<Rightarrow> (int \<times> int) option" where
  "tags s b = map_option (\<lambda>n. (m_fd n, m_ssl n)) (fsm s b)"

lemma insert_map_spec:
  assumes mem: "memory_ok os" and s: "map_ok s h xs" "fsm s (brk s) = None"
  shows "wp (insert_map os junk (Some h) cfd ssl) (\<lambda>_ s'. map_ok s' h ((brk s, cfd, ssl) # xs) \<and> brk s' = Suc (brk s) \<and>
     ssls s' = ssls s \<and> tags s' = (tags s)(brk s := Some (cfd, ssl))) s"
proof -
  obtain n where n: "fsm s h = Some n" "mlist (fsm s) (m_next n) xs" "distinct (h # map fst xs)" using s(1) by (auto simp: map_ok_def)
  have new: "brk s \<noteq> h" "brk s \<notin> fst ` set xs" using s(2) n(1) mlist_fresh [OF n(2)] by auto
  have m: "rv (fst (os (Malloc ''fd_ssl_map'') (world s))) \<noteq> 0" using mem by (simp add: memory_ok_def)
  have empty: "m_next n = NULL \<longleftrightarrow> xs = []" using n(2) by (cases xs) auto
  show ?thesis
    using n new m empty
    by (auto simp: insert_map_def malloc_map_def wp_simps map_ok_def mlist_upd tags_def fun_eq_iff)
qed

lemma wp_find_loop: "wp (find_loop fd it pre) Q s = wp (bindP (mget it) (\<lambda>n.
     ifP (m_next n = NULL \<or> m_fd n = fd) (ret (it, pre)) (find_loop fd (m_next n) (Some it)))) Q s"
  unfolding wp_def by (subst find_loop.simps) (rule refl)

text \<open>The search from a node of the list stops at the descriptor's node, with its predecessor.\<close>

lemma find_loop_finds:
  assumes "fsm s q = Some nq" and "m_fd nq \<noteq> fd" and "mlist (fsm s) (m_next nq) (xs @ (a, fd, ssl) # ys)"
    and "fd \<notin> fst ` snd ` set xs"
  shows "wp (find_loop fd (Some q) pre) (\<lambda>r s'. r = (Some a, Some (Some (last (q # map fst xs)))) \<and> s' = s) s"
  using assms
proof (induction xs arbitrary: q nq pre)
  case Nil
  then show ?case
    by (auto simp: wp_find_loop [of fd "Some q"] wp_find_loop [of fd "Some a"] wp_bindP wp_mget wp_ifP wp_ret)
next
  case (Cons c xs)
  obtain b x y where c: "c = (b, x, y)" by (cases c)
  with Cons.prems(3) obtain nb where nb: "m_next nq = Some b" "fsm s b = Some nb" "m_fd nb = x" "mlist (fsm s) (m_next nb) (xs @ (a, fd, ssl) # ys)"
    by auto
  have "wp (find_loop fd (Some b) (Some (Some q))) (\<lambda>r s'. r = (Some a, Some (Some (last (b # map fst xs)))) \<and> s' = s) s"
    by (rule Cons.IH [OF nb(2) _ nb(4)]) (use Cons.prems(4) nb(3) c in auto)
  then show ?case
    using Cons.prems(1,2) nb(1) c by (auto simp: wp_find_loop [of fd "Some q"] wp_bindP wp_mget wp_ifP)
qed

text \<open>Pointing the predecessor past a node takes it out of the map.\<close>

lemma map_ok_unlink:
  assumes "map_ok s h (xs @ (a, fd, ssl) # ys)" and "fsm s a = Some na" and "fsm s (last (h # map fst xs)) = Some nq"
  shows "map_ok (s\<lparr>fsm := (fsm s)(last (h # map fst xs) := Some (nq\<lparr>m_next := m_next na\<rparr>))\<rparr>) h (xs @ ys)"
proof -
  obtain nh where nh: "fsm s h = Some nh" "mlist (fsm s) (m_next nh) (xs @ (a, fd, ssl) # ys)" "distinct (h # map fst (xs @ (a, fd, ssl) # ys))"
    using assms(1) by (auto simp: map_ok_def)
  show ?thesis
  proof (cases xs rule: rev_cases)
    case Nil
    then have "mlist (fsm s) (m_next na) ys" "h \<notin> fst ` set ys" using nh assms(2) by auto
    then show ?thesis using Nil nh assms(3) by (auto simp: map_ok_def mlist_upd)
  next
    case (snoc zs c)
    obtain b x y where c: "c = (b, x, y)" by (cases c)
    have last: "last (h # map fst xs) = b" using snoc c by simp
    have "mlist ((fsm s)(b := Some (nq\<lparr>m_next := m_next na\<rparr>))) (m_next nh) (zs @ (b, x, y) # ys)"
      by (rule mlist_remove [where ssl = ssl and fd = fd and a = a]) (use nh snoc c assms(2,3) last in auto)
    then show ?thesis unfolding last using nh snoc c by (auto simp: map_ok_def)
  qed
qed

text \<open>A client hangs up: its node is found, its TLS object freed, its entry taken out of the list.\<close>

lemma hung_up_spec:
  assumes "map_ok s h (xs @ (a, fd, ssl) # ys)" and "distinct (map (fst \<circ> snd) (xs @ (a, fd, ssl) # ys))"
    and "map_option m_fd (fsm s h) \<noteq> Some fd" and "fd \<noteq> serfd" and "ssl \<in> ssls s" "ssl \<noteq> 0"
    and "and (ev_events ev) (or EPOLLRDHUP EPOLLHUP) \<noteq> 0" and "ev_data ev = DFd fd"
  shows "wp (ssl_event os junk efd serfd (Some h) ev) (\<lambda>_ s'. map_ok s' h (xs @ ys) \<and> ssls s' = ssls s - {ssl} \<and>
     brk s' = brk s \<and> tags s' = tags s \<and>
     (\<exists>log. calls s' = log @ calls s \<and> {Close fd, Ssl (SSL_free ssl), Epoll_del efd fd} \<subseteq> fst ` set log)) s"
proof -
  obtain nh where nh: "fsm s h = Some nh" "mlist (fsm s) (m_next nh) (xs @ (a, fd, ssl) # ys)"
    using assms(1) by (auto simp: map_ok_def)
  obtain na where na: "fsm s a = Some na" "m_fd na = fd" "m_ssl na = ssl" using mlist_append [OF nh(2)] by auto
  let ?q = "last (h # map fst xs)"
  obtain nq where nq: "fsm s ?q = Some nq"
  proof (cases xs rule: rev_cases)
    case Nil
    with nh that show ?thesis by simp
  next
    case (snoc zs c)
    obtain b x y where c: "c = (b, x, y)" by (cases c)
    then show ?thesis using snoc nh(2) mlist_append [of "fsm s" "m_next nh" zs b x y] that by auto
  qed
  define q where "q = ?q"
  have "?q \<in> set (h # map fst xs)" by (rule last_in_set) simp
  moreover have "a \<notin> set (h # map fst xs)" using assms(1) by (auto simp: map_ok_def)
  ultimately have q: "q \<noteq> a" "fsm s q = Some nq" using nq unfolding q_def by (metis, simp)
  have find: "find_loop fd (Some h) None s = Some (Ret (Some a, Some (Some ?q)), s)"
    using find_loop_finds [OF nh(1) _ nh(2), of None] assms(2,3) nh(1) by (auto simp: wp_iff image_comp)
  have ok: "map_ok t h (xs @ ys)" if "fsm t = (fsm s)(q := Some (nq\<lparr>m_next := m_next na\<rparr>))" for t :: "('a, 'b) ssl_server_scheme"
    using map_ok_unlink [OF assms(1) na(1) nq] that by (simp add: map_ok_def q_def)
  have "wp (hang_up os efd fd (Some a) (Some (Some q))) (\<lambda>_ s'. map_ok s' h (xs @ ys) \<and> ssls s' = ssls s - {ssl} \<and>
     brk s' = brk s \<and> tags s' = tags s \<and>
     (\<exists>log. calls s' = log @ calls s \<and> {Close fd, Ssl (SSL_free ssl), Epoll_del efd fd} \<subseteq> fst ` set log)) s"
    using na q assms(5,6) by (auto simp: hang_up_def wp_simps put_pre_def tags_def fun_eq_iff intro!: ok)
  then show ?thesis
    using find assms(4,7,8) by (auto simp: ssl_event_def bindP_run wp_iff q_def)
qed

section \<open>Clients that come and go\<close>

text \<open>
  What the server relies on of its map: a table of clients, latest first, to which a new client is
  added with an object not in use and from which a client is removed by its descriptor.
\<close>

locale client_table =
  fixes table :: "'s \<Rightarrow> ('k \<times> 'v) list \<Rightarrow> bool"
    and usable :: "'s \<Rightarrow> 'k \<Rightarrow> 'v \<Rightarrow> bool"
    and add :: "'k \<Rightarrow> 'v \<Rightarrow> ('s, unit) prog"
    and remove :: "'k \<Rightarrow> ('s, unit) prog"
  assumes distinct_keys: "table s xs \<Longrightarrow> distinct (map fst xs)"
    and add_spec: "table s xs \<Longrightarrow> k \<notin> fst ` set xs \<Longrightarrow> usable s k v \<Longrightarrow>
      wp (add k v) (\<lambda>_ s'. table s' ((k, v) # xs) \<and> (\<forall>l u. u \<noteq> v \<longrightarrow> usable s l u \<longrightarrow> usable s' l u)) s"
    and remove_spec: "table s (xs @ (k, v) # ys) \<Longrightarrow> wp (remove k) (\<lambda>_ s'. table s' (xs @ ys)) s"
begin

lemma add_all:
  "table s xs \<Longrightarrow> distinct (map fst kvs @ map fst xs) \<Longrightarrow> distinct (map snd kvs) \<Longrightarrow>
   \<forall>(k, v) \<in> set kvs. usable s k v \<Longrightarrow> wp (forP kvs (\<lambda>(k, v). add k v)) (\<lambda>_ s'. table s' (rev kvs @ xs)) s"
proof (induction kvs arbitrary: s xs)
  case Nil
  then show ?case by (simp add: wp_ret)
next
  case (Cons c kvs)
  obtain k v where c: "c = (k, v)" by (cases c)
  have "wp (forP kvs (\<lambda>(k, v). add k v)) (\<lambda>_ s'. table s' (rev (c # kvs) @ xs)) s'"
    if "table s' ((k, v) # xs) \<and> (\<forall>l u. u \<noteq> v \<longrightarrow> usable s l u \<longrightarrow> usable s' l u)" for s'
    using Cons.IH [of s' "(k, v) # xs"] Cons.prems c that by (fastforce simp: image_iff)
  moreover have "k \<notin> fst ` set xs" "usable s k v" using Cons.prems c by (auto simp: image_iff)
  ultimately show ?case
    using wp_mono [OF add_spec [OF Cons.prems(1), of k v]] c by (simp add: wp_seqP)
qed

lemma remove_all:
  "table s xs \<Longrightarrow> distinct ks \<Longrightarrow> set ks \<subseteq> fst ` set xs \<Longrightarrow>
   wp (forP ks remove) (\<lambda>_ s'. table s' (filter (\<lambda>x. fst x \<notin> set ks) xs)) s"
proof (induction ks arbitrary: s xs)
  case Nil
  then show ?case by (simp add: wp_ret)
next
  case (Cons k ks)
  then obtain v where "(k, v) \<in> set xs" by auto
  then obtain ys zs where xs: "xs = ys @ (k, v) # zs" by (auto simp: in_set_conv_decomp)
  have k: "k \<notin> fst ` set ys" "k \<notin> fst ` set zs" using distinct_keys [OF Cons.prems(1)] xs by auto
  have eq: "filter (\<lambda>x. fst x \<notin> set (k # ks)) xs = filter (\<lambda>x. fst x \<notin> set ks) (ys @ zs)"
    using k Cons.prems(2) unfolding xs by (auto intro!: arg_cong2 [where f = "(@)"] filter_cong)
  have "wp (forP ks remove) (\<lambda>_ s'. table s' (filter (\<lambda>x. fst x \<notin> set (k # ks)) xs)) s'" if "table s' (ys @ zs)" for s'
    unfolding eq by (rule Cons.IH [OF that]) (use Cons.prems(2,3) xs in auto)
  then show ?case
    using wp_mono [OF remove_spec] Cons.prems(1) xs by (simp add: wp_seqP)
qed

text \<open>Clients that connect and then leave, in whatever order, leave the table as it was.\<close>

lemma come_and_go:
  assumes "table s xs" and "distinct (map fst kvs @ map fst xs)" and "distinct (map snd kvs)"
    and "\<forall>(k, v) \<in> set kvs. usable s k v" and "distinct ks" and "set ks = fst ` set kvs"
  shows "wp (seqP (forP kvs (\<lambda>(k, v). add k v)) (forP ks remove)) (\<lambda>_ s'. table s' xs) s"
proof -
  have "filter (\<lambda>x. fst x \<notin> set ks) xs = xs" "filter (\<lambda>x. fst x \<notin> set ks) (rev kvs) = []"
    using assms(2,6) by (auto simp: filter_id_conv filter_empty_conv)
  then have "wp (forP ks remove) (\<lambda>_ s'. table s' xs) s'" if "table s' (rev kvs @ xs)" for s'
    using remove_all [OF that assms(5)] assms(6) by auto
  then show ?thesis
    unfolding wp_seqP by (intro wp_mono [OF add_all [OF assms(1-4)]]) auto
qed

end

text \<open>The linked map is such a table, for the clients other than the server's own descriptor.\<close>

definition client_map :: "int \<Rightarrow> addr \<Rightarrow> ('w, 'a) ssl_server_scheme \<Rightarrow> (int \<times> int) list \<Rightarrow> bool" where
  "client_map serfd h s xs \<longleftrightarrow> (\<exists>ns. map_ok s h ns \<and> map snd ns = xs) \<and> distinct (map fst xs) \<and> distinct (map snd xs) \<and>
     serfd \<notin> fst ` set xs \<and> map_option fst (tags s h) \<notin> Some ` fst ` set xs \<and> snd ` set xs \<subseteq> ssls s - {0} \<and>
     snd ` set xs \<subseteq> snd ` ran (tags s) \<and> fsm s (brk s) = None \<and> (\<forall>b > brk s. fsm s b = None)"

definition ssl_usable :: "int \<Rightarrow> addr \<Rightarrow> ('w, 'a) ssl_server_scheme \<Rightarrow> int \<Rightarrow> int \<Rightarrow> bool" where
  "ssl_usable serfd h s fd ssl \<longleftrightarrow> fd \<noteq> serfd \<and> map_option fst (tags s h) \<noteq> Some fd \<and> ssl \<in> ssls s - {0} \<and>
     ssl \<notin> snd ` ran (tags s)"

lemma tags_dom: "dom (tags s) = dom (fsm s)"
  by (auto simp: tags_def)

lemma insert_map_table:
  assumes mem: "memory_ok os" and s: "client_map serfd h s xs" and new: "fd \<notin> fst ` set xs" "ssl_usable serfd h s fd ssl"
  shows "wp (insert_map os junk (Some h) fd ssl) (\<lambda>_ s'. client_map serfd h s' ((fd, ssl) # xs) \<and>
     (\<forall>l u. u \<noteq> ssl \<longrightarrow> ssl_usable serfd h s l u \<longrightarrow> ssl_usable serfd h s' l u)) s"
proof -
  obtain ns where ns: "map_ok s h ns" "map snd ns = xs" using s by (auto simp: client_map_def)
  have free: "fsm s (brk s) = None" and h: "h \<noteq> brk s" using s ns(1) by (auto simp: client_map_def map_ok_def)
  have ran: "ran ((tags s)(brk s := Some (fd, ssl))) = insert (fd, ssl) (ran (tags s))"
    using free by (simp add: tags_def)
  have above: "fsm s' b = None" if "brk s' = Suc (brk s)" "tags s' = (tags s)(brk s := Some (fd, ssl))" "brk s' \<le> b"
    for s' :: "('a, 'b) ssl_server_scheme" and b
    using s that tags_dom [of s'] by (auto simp: client_map_def tags_def fun_eq_iff dest: spec [of _ b])
  show ?thesis
    by (rule wp_mono [OF insert_map_spec [OF mem ns(1) free]])
      (use s new ns(2) h ran above in \<open>auto simp: client_map_def ssl_usable_def\<close>)
qed

lemma client_map_removed:
  assumes s: "client_map serfd h s (xs @ (fd, ssl) # ys)"
    and s': "map_ok s' h ns" "map snd ns = xs @ ys" "ssls s' = ssls s - {ssl}" "brk s' = brk s" "tags s' = tags s"
  shows "client_map serfd h s' (xs @ ys)"
proof -
  note c = s [unfolded client_map_def]
  have d: "distinct (map fst (xs @ (fd, ssl) # ys))" "distinct (map snd (xs @ (fd, ssl) # ys))" using c by blast+
  have dom: "fsm s' b = None \<longleftrightarrow> fsm s b = None" for b using tags_dom [of s] tags_dom [of s'] s'(5) by (metis domIff)
  show ?thesis
    unfolding client_map_def s'(3-5) dom
  proof (intro conjI)
    show "\<exists>ns. map_ok s' h ns \<and> map snd ns = xs @ ys" using s'(1,2) by blast
    have "ssl \<notin> snd ` set (xs @ ys)" using d(2) by auto
    moreover have "snd ` set (xs @ (fd, ssl) # ys) \<subseteq> ssls s - {0}" using c by blast
    ultimately show "snd ` set (xs @ ys) \<subseteq> ssls s - {ssl} - {0}" by auto
    have "snd ` set (xs @ (fd, ssl) # ys) \<subseteq> snd ` ran (tags s)" using c by blast
    then show "snd ` set (xs @ ys) \<subseteq> snd ` ran (tags s)" by auto
    have "serfd \<notin> fst ` set (xs @ (fd, ssl) # ys)" using c by blast
    then show "serfd \<notin> fst ` set (xs @ ys)" by auto
    have "map_option fst (tags s h) \<notin> Some ` fst ` set (xs @ (fd, ssl) # ys)" using c by blast
    then show "map_option fst (tags s h) \<notin> Some ` fst ` set (xs @ ys)" by auto
  qed (use c d in auto)
qed

interpretation cm: client_table "\<lambda>s xs. memory_ok os \<and> client_map serfd h s xs" "ssl_usable serfd h"
  "insert_map os junk (Some h)" "\<lambda>fd. ssl_event os junk efd serfd (Some h) \<lparr>ev_events = EPOLLHUP, ev_data = DFd fd\<rparr>"
  for os junk serfd efd h
proof
  fix s :: "('a, 'b) ssl_server_scheme" and xs fd ssl ys
  assume m: "memory_ok os \<and> client_map serfd h s (xs @ (fd, ssl) # ys)"
  then obtain ns where ns: "map_ok s h ns" "map snd ns = xs @ (fd, ssl) # ys" by (auto simp: client_map_def)
  then obtain ls a rs where n: "ns = ls @ (a, fd, ssl) # rs" "map snd ls = xs" "map snd rs = ys"
    by (auto simp: map_eq_append_conv map_eq_Cons_conv)
  have "map (fst \<circ> snd) ns = map fst (xs @ (fd, ssl) # ys)" using ns(2) by (metis map_map)
  then have keys: "distinct (map (fst \<circ> snd) (ls @ (a, fd, ssl) # rs))" using m n(1) by (metis client_map_def)
  have "wp (ssl_event os junk efd serfd (Some h) \<lparr>ev_events = EPOLLHUP, ev_data = DFd fd\<rparr>)
      (\<lambda>_ s'. map_ok s' h (ls @ rs) \<and> ssls s' = ssls s - {ssl} \<and> brk s' = brk s \<and> tags s' = tags s \<and>
       (\<exists>log. calls s' = log @ calls s \<and> {Close fd, Ssl (SSL_free ssl), Epoll_del efd fd} \<subseteq> fst ` set log)) s"
    by (rule hung_up_spec [OF _ keys])
      (use m ns n in \<open>auto simp: client_map_def tags_def EPOLLHUP_def EPOLLRDHUP_def option.map_comp comp_def\<close>)
  then show "wp (ssl_event os junk efd serfd (Some h) \<lparr>ev_events = EPOLLHUP, ev_data = DFd fd\<rparr>)
      (\<lambda>_ s'. memory_ok os \<and> client_map serfd h s' (xs @ ys)) s"
  proof (rule wp_mono)
    fix s'
    assume s': "map_ok s' h (ls @ rs) \<and> ssls s' = ssls s - {ssl} \<and> brk s' = brk s \<and> tags s' = tags s \<and>
       (\<exists>log. calls s' = log @ calls s \<and> {Close fd, Ssl (SSL_free ssl), Epoll_del efd fd} \<subseteq> fst ` set log)"
    then show "memory_ok os \<and> client_map serfd h s' (xs @ ys)"
      using m n client_map_removed [of serfd h s xs fd ssl ys s' "ls @ rs"] by simp
  qed
next
  show "distinct (map fst xs)" if "memory_ok os \<and> client_map serfd h s xs" for s :: "('a, 'b) ssl_server_scheme" and xs
    using that by (simp add: client_map_def)
  show "wp (insert_map os junk (Some h) fd ssl) (\<lambda>_ s'. (memory_ok os \<and> client_map serfd h s' ((fd, ssl) # xs)) \<and>
      (\<forall>l u. u \<noteq> ssl \<longrightarrow> ssl_usable serfd h s l u \<longrightarrow> ssl_usable serfd h s' l u)) s"
    if "memory_ok os \<and> client_map serfd h s xs" "fd \<notin> fst ` set xs" "ssl_usable serfd h s fd ssl"
    for s :: "('a, 'b) ssl_server_scheme" and xs fd ssl
    by (rule wp_mono [OF insert_map_table]) (use that in auto)
qed

section \<open>Property\<close>

text \<open>
  C24: The linked map behaves as a table of the clients: when a client hangs up, the search finds its
  node, its descriptor is closed, its own TLS object is freed, and exactly its entry leaves the
  list, provided the head's indeterminate descriptor is not by chance the client's.
\<close>

theorem ssl_hang_up_unlinks:
  assumes "map_ok s h (xs @ (a, fd, ssl) # ys)" and "distinct (map (fst \<circ> snd) (xs @ (a, fd, ssl) # ys))"
    and "map_option m_fd (fsm s h) \<noteq> Some fd" and "fd \<noteq> serfd" and "ssl \<in> ssls s" "ssl \<noteq> 0"
    and "and (ev_events ev) (or EPOLLRDHUP EPOLLHUP) \<noteq> 0" and "ev_data ev = DFd fd"
  shows "\<exists>s' log. ssl_event os junk efd serfd (Some h) ev s = Some (Ret (), s') \<and> map_ok s' h (xs @ ys) \<and>
     ssls s' = ssls s - {ssl} \<and> calls s' = log @ calls s \<and> {Close fd, Ssl (SSL_free ssl), Epoll_del efd fd} \<subseteq> fst ` set log"
  using hung_up_spec [OF assms, of os junk efd] by (auto simp: wp_iff)

text \<open>A head whose own fields are 0, and two clients.\<close>

definition ex_ssl :: "(sim, unit) ssl_server_scheme" where
  "ex_ssl = \<lparr>heap = NULL, tmem = (\<lambda>_. None), world = \<lparr>sim_open = [0, 1, 2, 3, 4, 5, 6], sim_watch = (\<lambda>_ _. None),
     sim_waiting = 0, sim_chunks = [], sim_batches = []\<rparr>, calls = [], reqs = (\<lambda>_. None), brk = 20, ssls = {77, 78},
     shm = \<lparr>accept_mutex = 0, accept_num = 0, read_num = 0, write_num = 0, close_num = 0\<rparr>, g_ctx = 9,
     fsm = [10 \<mapsto> \<lparr>m_fd = 0, m_ssl = 0, m_next = Some 11\<rparr>, 11 \<mapsto> \<lparr>m_fd = 5, m_ssl = 77, m_next = Some 12\<rparr>,
       12 \<mapsto> \<lparr>m_fd = 6, m_ssl = 78, m_next = NULL\<rparr>]\<rparr>"

theorem ssl_hang_up_unlinks_witness:
  "\<exists>s'. ssl_event sim_os \<lparr>m_fd = 0, m_ssl = 0, m_next = NULL\<rparr> 4 3 (Some 10) \<lparr>ev_events = EPOLLHUP, ev_data = DFd 6\<rparr> ex_ssl =
     Some (Ret (), s') \<and> map_ok s' 10 [(11, 5, 77)] \<and> ssls s' = {77}"
proof -
  have "map_ok ex_ssl 10 ([(11, 5, 77)] @ (12, 6, 78) # [])" by (simp add: map_ok_def ex_ssl_def)
  then show ?thesis
    using ssl_hang_up_unlinks [of ex_ssl 10 "[(11, 5, 77)]" 12 6 78 "[]" 3 "\<lparr>ev_events = EPOLLHUP, ev_data = DFd 6\<rparr>" sim_os
        "\<lparr>m_fd = 0, m_ssl = 0, m_next = NULL\<rparr>" 4]
    by (auto simp: ex_ssl_def EPOLLHUP_def EPOLLRDHUP_def)
qed

text \<open>
  C40: Clients that connect and hang up leave nothing behind: when any clients with their own descriptors
  and TLS objects are put into the map and then hang up, in whatever order, the server does not fault and the
  map names exactly the clients it named before, each with its live object.
\<close>

theorem ssl_clients_come_and_go:
  assumes "memory_ok os" and "client_map serfd h s xs" and "distinct (map fst kvs @ map fst xs)" and "distinct (map snd kvs)"
    and "\<forall>(fd, ssl) \<in> set kvs. ssl_usable serfd h s fd ssl" and "distinct fds" and "set fds = fst ` set kvs"
  shows "\<exists>s'. seqP (forP kvs (\<lambda>(fd, ssl). insert_map os junk (Some h) fd ssl))
       (forP fds (\<lambda>fd. ssl_event os junk efd serfd (Some h) \<lparr>ev_events = EPOLLHUP, ev_data = DFd fd\<rparr>)) s = Some (Ret (), s') \<and>
     client_map serfd h s' xs"
  using cm.come_and_go [of os serfd h s xs kvs fds junk efd] assms by (auto simp: wp_iff)

theorem ssl_clients_come_and_go_witness:
  "\<exists>s'. seqP (forP [(7, 79), (8, 80)] (\<lambda>(fd, ssl). insert_map sim_os \<lparr>m_fd = 0, m_ssl = 0, m_next = NULL\<rparr> (Some 10) fd ssl))
       (forP [7, 8] (\<lambda>fd. ssl_event sim_os \<lparr>m_fd = 0, m_ssl = 0, m_next = NULL\<rparr> 4 3 (Some 10)
          \<lparr>ev_events = EPOLLHUP, ev_data = DFd fd\<rparr>)) (ex_ssl\<lparr>ssls := {77, 78, 79, 80}\<rparr>) = Some (Ret (), s') \<and>
     client_map 3 10 s' [(5, 77), (6, 78)]"
proof (rule ssl_clients_come_and_go [OF sim_memory_ok])
  let ?s = "ex_ssl\<lparr>ssls := {77, 78, 79, 80}\<rparr>"
  have "map_ok ?s 10 [(11, 5, 77), (12, 6, 78)]" by (simp add: map_ok_def ex_ssl_def)
  then have "\<exists>ns. map_ok ?s 10 ns \<and> map snd ns = [(5, 77), (6, 78)]" by (intro exI [of _ "[(11, 5, 77), (12, 6, 78)]"]) simp
  moreover have tags: "tags ?s = [10 \<mapsto> (0, 0), 11 \<mapsto> (5, 77), 12 \<mapsto> (6, 78)]" by (auto simp: tags_def ex_ssl_def fun_eq_iff)
  moreover have ran: "ran [10 \<mapsto> (0 :: int, 0 :: int), 11 \<mapsto> (5, 77), (12 :: addr) \<mapsto> (6, 78)] = {(0, 0), (5, 77), (6, 78)}"
    by auto
  ultimately show "client_map 3 10 ?s [(5, 77), (6, 78)]"
    unfolding client_map_def by (simp add: ran) (simp add: ex_ssl_def)
  show "\<forall>(fd, ssl) \<in> set [(7, 79), (8, 80)]. ssl_usable 3 10 ?s fd ssl"
    unfolding ssl_usable_def tags ran by simp
qed auto

text \<open>
  The clean-up after a failed wait starts at the head and does not advance: with a client connected
  it frees the head's indeterminate object.
\<close>

lemma close_maps_frees_junk:
  assumes "map_ok s h (x # xs)" and "fsm s h = Some n" and "m_ssl n \<notin> insert 0 (ssls s)"
  shows "\<exists>s'. close_maps os (Some h) s = Some (Fault DoubleFree, s')"
proof -
  have "m_next n \<noteq> NULL" using assms(1,2) by (cases x) (auto simp: map_ok_def)
  with assms(2,3) show ?thesis
    by (subst close_maps.simps) (simp add: bindP_run mget_def run_simps release_ssl_def)
qed

end
