(* ===== verification/CStrings.thy ===== *)
theory CStrings
  imports Prelude
begin

text \<open>
  The string functions of the C library that the benchmark client uses, on NUL-free lists of
  characters (the contents of C strings) and on fixed-size buffers.
\<close>

section \<open>Searching\<close>

fun strchr :: "string \<Rightarrow> char \<Rightarrow> nat option" where
  "strchr [] c = None"
| "strchr (x # xs) c = (if x = c then Some 0 else map_option Suc (strchr xs c))"

definition strrchr :: "string \<Rightarrow> char \<Rightarrow> nat option" where
  "strrchr s c = map_option (\<lambda>k. length s - 1 - k) (strchr (rev s) c)"

fun strstr :: "string \<Rightarrow> string \<Rightarrow> nat option" where
  "strstr [] t = (if t = [] then Some 0 else None)"
| "strstr (x # xs) t = (if take (length t) (x # xs) = t then Some 0 else map_option Suc (strstr xs t))"

text \<open>\<open>strcspn s [c]\<close>: the length of the longest prefix without \<open>c\<close>.\<close>

definition strcspn :: "string \<Rightarrow> char \<Rightarrow> nat" where
  "strcspn s c = length (takeWhile (\<lambda>x. x \<noteq> c) s)"

definition to_lower :: "char \<Rightarrow> char" where
  "to_lower c = (if 65 \<le> (of_char c :: nat) \<and> (of_char c :: nat) \<le> 90 then char_of ((of_char c :: nat) + 32) else c)"

text \<open>\<open>0 == strncasecmp(p, s, strlen(p))\<close>.\<close>

definition has_prefix_nocase :: "string \<Rightarrow> string \<Rightarrow> bool" where
  "has_prefix_nocase p s \<longleftrightarrow> map to_lower (take (length p) s) = map to_lower p"

section \<open>Numbers\<close>

definition is_space :: "char \<Rightarrow> bool" where
  "is_space c \<longleftrightarrow> c \<in> {CHR '' '', CHR 0x09, CHR 0x0A, CHR 0x0B, CHR 0x0C, CHR 0x0D}"

definition is_digit :: "char \<Rightarrow> bool" where
  "is_digit c \<longleftrightarrow> 48 \<le> (of_char c :: nat) \<and> (of_char c :: nat) \<le> 57"

definition digit_val :: "char \<Rightarrow> nat" where
  "digit_val c = of_char c - 48"

definition digits_val :: "string \<Rightarrow> nat" where
  "digits_val ds = foldl (\<lambda>v d. v * 10 + digit_val d) 0 ds"

text \<open>
  A decimal number at the front of a string: blanks, a sign, digits. \<open>strtol\<close> stops at the bounds of
  \<open>long\<close>, and \<open>atoi\<close> and \<open>%d\<close> keep the low 32 bits. \<open>None\<close>: there is no digit.
\<close>

definition drop_sign :: "string \<Rightarrow> string" where
  "drop_sign s = (case s of [] \<Rightarrow> [] | c # cs \<Rightarrow> if c = CHR ''-'' \<or> c = CHR ''+'' then cs else s)"

definition negative :: "string \<Rightarrow> bool" where
  "negative s \<longleftrightarrow> s \<noteq> [] \<and> hd s = CHR ''-''"

definition clamp_long :: "int \<Rightarrow> int" where
  "clamp_long v = max (- (2 ^ 63)) (min v (2 ^ 63 - 1))"

definition num_rest :: "string \<Rightarrow> string" where
  "num_rest s = dropWhile is_digit (drop_sign (dropWhile is_space s))"

definition parse_int :: "string \<Rightarrow> (int \<times> string) option" where
  "parse_int s =
     (let t = dropWhile is_space s; ds = takeWhile is_digit (drop_sign t); v = int (digits_val ds)
      in if ds = [] then None
         else Some (signed_take_bit 31 (clamp_long (if negative t then - v else v)), num_rest s))"

definition atoi :: "string \<Rightarrow> int" where
  "atoi s = (case parse_int s of None \<Rightarrow> 0 | Some (v, _) \<Rightarrow> v)"

text \<open>\<open>n\<close> conversions \<open>%d\<close> in a row, the ones that succeed.\<close>

fun scan_ints :: "nat \<Rightarrow> string \<Rightarrow> int list" where
  "scan_ints 0 s = []"
| "scan_ints (Suc n) s = (case parse_int s of None \<Rightarrow> [] | Some (v, rest) \<Rightarrow> v # scan_ints n rest)"

section \<open>Buffers\<close>

text \<open>The first \<open>n\<close> bytes \<open>strncpy\<close> stores: the source, filled up with NULs.\<close>

definition strncpy_bytes :: "string \<Rightarrow> nat \<Rightarrow> string" where
  "strncpy_bytes src n = take n src @ replicate (n - length src) NUL"

definition terminated :: "string \<Rightarrow> bool" where
  "terminated buf \<longleftrightarrow> NUL \<in> set buf"

section \<open>Lemmas\<close>

lemma length_strncpy_bytes [simp]: "length (strncpy_bytes src n) = n"
  by (simp add: strncpy_bytes_def)

lemma strchr_None: "strchr s c = None \<longleftrightarrow> c \<notin> set s"
  by (induction s) auto

lemma strchr_split:
  "strchr s c = Some i \<longleftrightarrow> i < length s \<and> s ! i = c \<and> c \<notin> set (take i s)"
proof (induction s arbitrary: i)
  case (Cons x xs)
  then show ?case by (cases i) (auto split: if_splits)
qed simp

lemma strchr_append: "c \<notin> set xs \<Longrightarrow> strchr (xs @ c # ys) c = Some (length xs)"
  by (induction xs) auto

lemma strchr_append_later: "c \<notin> set xs \<Longrightarrow> strchr (xs @ ys) c = map_option ((+) (length xs)) (strchr ys c)"
  by (induction xs) (cases "strchr ys c"; auto)+

lemma strcspn_append: "c \<notin> set xs \<Longrightarrow> strcspn (xs @ c # ys) c = length xs"
proof -
  assume "c \<notin> set xs"
  then have "takeWhile (\<lambda>x. x \<noteq> c) (xs @ c # ys) = xs" by (induction xs) auto
  then show ?thesis by (simp add: strcspn_def)
qed

lemma strrchr_append: "c \<notin> set ys \<Longrightarrow> strrchr (xs @ c # ys) c = Some (length xs)"
  by (simp add: strrchr_def strchr_append)

lemma strrchr_None: "strrchr s c = None \<longleftrightarrow> c \<notin> set s"
  by (simp add: strrchr_def strchr_None)

lemma c_str_append: "NUL \<notin> set t \<Longrightarrow> c_str (t @ NUL # rest) = t"
proof -
  assume "NUL \<notin> set t"
  then show ?thesis unfolding c_str_def by (induction t) auto
qed

text \<open>\<open>is_text buf t\<close>: the buffer holds the C string \<open>t\<close>.\<close>

definition is_text :: "string \<Rightarrow> string \<Rightarrow> bool" where
  "is_text buf t \<longleftrightarrow> NUL \<notin> set t \<and> (\<exists>rest. buf = t @ NUL # rest)"

lemma is_text_c_str: "is_text buf t \<Longrightarrow> c_str buf = t"
  by (auto simp: is_text_def c_str_append)

lemma is_text_terminated: "is_text buf t \<Longrightarrow> terminated buf"
  by (auto simp: is_text_def terminated_def)

lemma is_text_append:
  assumes "is_text buf t" and "NUL \<notin> set src"
  shows "is_text (write_at buf (length t) (src @ [NUL])) (t @ src)"
  using assms by (auto simp: is_text_def write_at_def)

lemma is_text_write: "NUL \<notin> set src \<Longrightarrow> is_text (write_at buf 0 (src @ [NUL])) src"
  by (auto simp: is_text_def write_at_def)

text \<open>Decimal numbers: what \<open>%d\<close> prints, \<open>%d\<close> and \<open>atoi\<close> read back.\<close>

lemma digit_of: "n < 10 \<Longrightarrow> is_digit (char_of (48 + n)) \<and> digit_val (char_of (48 + n)) = n"
  for n :: nat
  by (simp add: is_digit_def digit_val_def)

lemma show_nat_digits: "list_all is_digit (show_nat n) \<and> show_nat n \<noteq> [] \<and> digits_val (show_nat n) = n"
proof (induction n rule: show_nat.induct)
  case (1 n)
  show ?case
  proof (cases "n < 10")
    case True
    then show ?thesis by (simp add: show_nat.simps [of n] digit_of digits_val_def)
  next
    case False
    then have "list_all is_digit (show_nat (n div 10))" "digits_val (show_nat (n div 10)) = n div 10" using 1 by auto
    with False show ?thesis
      by (simp add: show_nat.simps [of n] digit_of digits_val_def)
  qed
qed

lemma show_nat_takeWhile:
  assumes "rest = [] \<or> \<not> is_digit (hd rest)"
  shows "takeWhile is_digit (show_nat n @ rest) = show_nat n" and "dropWhile is_digit (show_nat n @ rest) = rest"
proof -
  have "\<forall>c \<in> set (show_nat n). is_digit c" using show_nat_digits [of n] by (simp add: list_all_iff)
  with assms show "takeWhile is_digit (show_nat n @ rest) = show_nat n" "dropWhile is_digit (show_nat n @ rest) = rest"
    by (cases rest; simp)+
qed

lemma digit_no_blank: "is_digit c \<Longrightarrow> \<not> is_space c \<and> c \<noteq> CHR ''-'' \<and> c \<noteq> CHR ''+'' \<and> c \<noteq> NUL \<and> c \<noteq> CHR '':'' \<and> c \<noteq> CHR ''/''"
  by (auto simp: is_digit_def is_space_def)

lemma show_nat_hd: "\<exists>c cs. show_nat n = c # cs \<and> is_digit c"
  using show_nat_digits [of n] by (cases "show_nat n") auto

lemma signed_small: "- (2 ^ 31) \<le> i \<Longrightarrow> i < 2 ^ 31 \<Longrightarrow> signed_take_bit 31 (clamp_long i) = i"
  by (simp add: clamp_long_def signed_take_bit_int_eq_self)

lemma parse_show_int:
  assumes "- (2 ^ 31) \<le> i" and "i < 2 ^ 31" and "rest = [] \<or> \<not> is_digit (hd rest)"
  shows "parse_int (show_int i @ rest) = Some (i, rest)"
proof (cases "i < 0")
  case True
  then have "dropWhile is_space (show_int i @ rest) = CHR ''-'' # show_nat (nat (- i)) @ rest"
    by (simp add: show_int_def is_space_def)
  with True assms show ?thesis
    using show_nat_digits [of "nat (- i)"]
    by (simp add: parse_int_def num_rest_def Let_def drop_sign_def negative_def show_nat_takeWhile signed_small)
next
  case False
  obtain c cs where c: "show_nat (nat i) = c # cs" "is_digit c" using show_nat_hd by blast
  then have "dropWhile is_space (show_int i @ rest) = show_nat (nat i) @ rest" "drop_sign (show_nat (nat i) @ rest) = show_nat (nat i) @ rest"
    "\<not> negative (show_nat (nat i) @ rest)"
    using False digit_no_blank [of c] by (auto simp: show_int_def drop_sign_def negative_def)
  with False assms show ?thesis
    using show_nat_digits [of "nat i"]
    by (simp add: parse_int_def num_rest_def Let_def show_nat_takeWhile signed_small)
qed

lemma parse_int_blank: "is_space c \<Longrightarrow> parse_int (c # s) = parse_int s"
  by (simp add: parse_int_def num_rest_def Let_def)

end
