(* ===== verification/WebBench.thy ===== *)
theory WebBench
  imports Kernel CStrings
begin

text \<open>
  The benchmark client WebBench (\<open>webbench/webbench.c\<close>, \<open>webbench/socket.c\<close>): its globals, the command
  line, the request it builds in fixed-size buffers, the connection helper, the measuring loop of
  a child and the collecting loop of the parent.

  The handler of SIGALRM only sets \<open>timerexpired\<close>, which the program reads in two places; a signal
  that arrives before such a read is a \<open>Signal_point\<close> there that answers nonzero. The counters are
  32-bit words: C leaves the overflow of an \<open>int\<close> open, compiled code wraps around. Text for
  \<open>stderr\<close> and \<open>stdout\<close> goes to the same call \<open>printf\<close>.
\<close>

section \<open>Globals\<close>

definition METHOD_GET :: int where "METHOD_GET = 0"
definition METHOD_HEAD :: int where "METHOD_HEAD = 1"
definition METHOD_OPTIONS :: int where "METHOD_OPTIONS = 2"
definition METHOD_TRACE :: int where "METHOD_TRACE = 3"
definition PROGRAM_VERSION :: string where "PROGRAM_VERSION = ''1.5''"
definition REQUEST_SIZE :: nat where "REQUEST_SIZE = 2048"
definition MAXHOSTNAMELEN :: nat where "MAXHOSTNAMELEN = 64"
definition INADDR_NONE :: int where "INADDR_NONE = 4294967295"
definition SIGALRM :: int where "SIGALRM = 14"

record 'w webbench = "'w process" +
  timerexpired :: int
  speed :: "32 word"
  failed :: "32 word"
  bytes :: "32 word"
  http10 :: int              \<comment> \<open>0 - http/0.9, 1 - http/1.0, 2 - http/1.1\<close>
  http_method :: int
  clients :: int
  force :: int
  force_reload :: int
  proxyport :: int
  proxyhost :: "string option"
  benchtime :: int
  host :: string             \<comment> \<open>the buffer \<open>host[MAXHOSTNAMELEN]\<close>\<close>
  request :: string          \<comment> \<open>the buffer \<open>request[REQUEST_SIZE]\<close>\<close>

definition alarm_handler :: "(('w, 'a) webbench_scheme, unit) prog" where
  "alarm_handler = modify (\<lambda>s. s\<lparr>timerexpired := 1\<rparr>)"

section \<open>Connecting\<close>

text \<open>The four bytes of an IPv4 address given as an integer in network order (a little-endian machine).\<close>

definition le32 :: "int \<Rightarrow> string" where
  "le32 a = map (\<lambda>k. char_of (nat (a div 256 ^ k mod 256))) [0..<4]"

text \<open>\<open>Socket\<close> of \<open>socket.c\<close>; the address the resolver answers is in its \<open>data_in\<close>.\<close>

definition bench_socket :: "'w kernel \<Rightarrow> string \<Rightarrow> int \<Rightarrow> (('w, 'a) process_scheme, int) prog" where
  "bench_socket os hst clientPort =
     bindP (sys os (Name (Inet_addr hst))) (\<lambda>inaddr.
     bindP (if rv inaddr \<noteq> INADDR_NONE then ret (Some (le32 (rv inaddr)))
            else bindP (sys os (Name (Gethostbyname hst))) (\<lambda>hp. ret (if rv hp = 0 then None else Some (data_in hp)))) (\<lambda>ad.
       if ad = None then ret (-1)
       else bindP (sys os Socket) (\<lambda>sock.
         if rv sock < 0 then ret (rv sock)
         else bindP (sys os (Connect (rv sock) (the ad) (htons clientPort))) (\<lambda>r.
           if rv r < 0 then ret (-1) else ret (rv sock)))))"

section \<open>The request\<close>

text \<open>\<open>strcpy\<close> and \<open>strcat\<close> on the request buffer, and reading the host buffer as a string.\<close>

definition strcpy_request :: "string \<Rightarrow> (('w, 'a) webbench_scheme, unit) prog" where
  "strcpy_request src s = (if length src < REQUEST_SIZE
     then ret () (s\<lparr>request := write_at (request s) 0 (src @ [NUL])\<rparr>) else fault OutOfBounds s)"

definition strcat_request :: "string \<Rightarrow> (('w, 'a) webbench_scheme, unit) prog" where
  "strcat_request src s = (let n = length (c_str (request s)) in
     if n + length src < REQUEST_SIZE
     then ret () (s\<lparr>request := write_at (request s) n (src @ [NUL])\<rparr>) else fault OutOfBounds s)"

definition strncpy_host :: "string \<Rightarrow> nat \<Rightarrow> (('w, 'a) webbench_scheme, unit) prog" where
  "strncpy_host src n s = (if n \<le> MAXHOSTNAMELEN
     then ret () (s\<lparr>host := write_at (host s) 0 (strncpy_bytes src n)\<rparr>) else fault OutOfBounds s)"

definition host_text :: "(('w, 'a) webbench_scheme, string) prog" where
  "host_text s = (if terminated (host s) then ret (c_str (host s)) s else fault OutOfBounds s)"

text \<open>\<open>atoi\<close> on \<open>tmp[10]\<close>, into which \<open>n\<close> bytes have been copied: it reads on while it finds digits.\<close>

definition atoi_tmp :: "string \<Rightarrow> nat \<Rightarrow> ('s, int) prog" where
  "atoi_tmp src n = (if 10 < n then fault OutOfBounds
     else let tmp = strncpy_bytes (take n src) 10 in
       if \<not> terminated tmp \<and> num_rest tmp = [] then fault OutOfBounds else ret (atoi tmp))"

definition method_name :: "int \<Rightarrow> string" where
  "method_name m = (if m = METHOD_HEAD then ''HEAD'' else if m = METHOD_OPTIONS then ''OPTIONS''
     else if m = METHOD_TRACE then ''TRACE'' else ''GET'')"

text \<open>The method and the proxy call for a protocol version.\<close>

definition raise_http :: "(('w, 'a) webbench_scheme, unit) prog" where
  "raise_http = blockP
     [modify (\<lambda>s. if force_reload s \<noteq> 0 \<and> proxyhost s \<noteq> None \<and> http10 s < 1 then s\<lparr>http10 := 1\<rparr> else s),
      modify (\<lambda>s. if http_method s = METHOD_HEAD \<and> http10 s < 1 then s\<lparr>http10 := 1\<rparr> else s),
      modify (\<lambda>s. if http_method s = METHOD_OPTIONS \<and> http10 s < 2 then s\<lparr>http10 := 2\<rparr> else s),
      modify (\<lambda>s. if http_method s = METHOD_TRACE \<and> http10 s < 2 then s\<lparr>http10 := 2\<rparr> else s)]"

text \<open>The checks of the URL; each failure ends the program.\<close>

definition check_url :: "'w kernel \<Rightarrow> string \<Rightarrow> (('w, 'a) process_scheme, nat) prog" where
  "check_url os url =
     (if strstr url ''://'' = None
      then seqP (printf os (CHR 0x0A # url @ '': is not a valid URL.'' @ [CHR 0x0A])) (quit 2)
      else if 1500 < length url then seqP (printf os (''URL is too long.'' @ [CHR 0x0A])) (quit 2)
      else if \<not> has_prefix_nocase ''http://'' url
      then seqP (printf os (CHR 0x0A # ''Only HTTP protocol is directly supported, set --proxy for others.'' @ [CHR 0x0A])) (quit 2)
      else let i = the (strstr url ''://'') + 3 in
        if strchr (drop i url) (CHR ''/'') = None
        then seqP (printf os (CHR 0x0A # ''Invalid URL syntax - hostname don't ends with '/'.'' @ [CHR 0x0A])) (quit 2)
        else ret i)"

text \<open>Host, port and path from the part of the URL after \<open>://\<close>.\<close>

definition take_host :: "string \<Rightarrow> (('w, 'a) webbench_scheme, unit) prog" where
  "take_host rest =
     (let slash = the (strchr rest (CHR ''/'')) in
      seqP (case strchr rest (CHR '':'') of
          Some colon \<Rightarrow> if colon < slash
            then seqP (strncpy_host rest colon)
              (bindP (atoi_tmp (drop (colon + 1) rest) (slash - colon - 1)) (\<lambda>p.
                modify (\<lambda>s. s\<lparr>proxyport := (if p = 0 then 80 else p)\<rparr>)))
            else strncpy_host rest (strcspn rest (CHR ''/''))
        | None \<Rightarrow> strncpy_host rest (strcspn rest (CHR ''/'')))
       (strcat_request (drop (strcspn rest (CHR ''/'')) rest)))"

text \<open>The version and the header lines.\<close>

definition add_headers :: "(('w, 'a) webbench_scheme, unit) prog" where
  "add_headers =
     seqP (bindP (gets http10) (\<lambda>v. if v = 1 then strcat_request '' HTTP/1.0''
        else if v = 2 then strcat_request '' HTTP/1.1'' else ret ()))
    (seqP (strcat_request CRLF)
    (bindP (gets http10) (\<lambda>v. bindP (gets proxyhost) (\<lambda>proxy. bindP (gets force_reload) (\<lambda>reload.
      blockP
       [whenP (v > 0) (strcat_request (''User-Agent: WebBench '' @ PROGRAM_VERSION @ CRLF)),
        whenP (proxy = None \<and> v > 0)
          (seqP (strcat_request ''Host: '') (seqP (bindP host_text strcat_request) (strcat_request CRLF))),
        whenP (reload \<noteq> 0 \<and> proxy \<noteq> None) (strcat_request (''Pragma: no-cache'' @ CRLF)),
        whenP (v > 1) (strcat_request (''Connection: close'' @ CRLF)),
        whenP (v > 0) (strcat_request CRLF)])))))"

text \<open>From the checks on.\<close>

definition finish_request :: "'w kernel \<Rightarrow> string \<Rightarrow> (('w, 'a) webbench_scheme, unit) prog" where
  "finish_request os url =
     bindP (check_url os url) (\<lambda>i.
     seqP (bindP (gets proxyhost) (\<lambda>p. if p = None then take_host (drop i url) else strcat_request url))
    (seqP add_headers
      (bindP (gets request) (\<lambda>r. printf os (CHR 0x0A # ''Request:'' @ CHR 0x0A # c_str r @ [CHR 0x0A])))))"

definition build_request :: "'w kernel \<Rightarrow> string \<Rightarrow> (('w, 'a) webbench_scheme, unit) prog" where
  "build_request os url =
     seqP (modify (\<lambda>s. s\<lparr>host := replicate MAXHOSTNAMELEN NUL, request := replicate REQUEST_SIZE NUL\<rparr>))
    (seqP raise_http
    (seqP (bindP (gets http_method) (\<lambda>m. strcpy_request (method_name m)))
    (seqP (strcat_request '' '') (finish_request os url))))"

section \<open>A client\<close>

text \<open>\<open>if(timerexpired)\<close>.\<close>

definition timer_expired :: "'w kernel \<Rightarrow> (('w, 'a) webbench_scheme, bool) prog" where
  "timer_expired os = bindP (sys os (Stdio Signal_point)) (\<lambda>a.
     seqP (whenP (rv a \<noteq> 0) alarm_handler) (gets (\<lambda>s. timerexpired s \<noteq> 0)))"

definition count_failed :: "(('w, 'a) webbench_scheme, unit) prog" where
  "count_failed = modify (\<lambda>s. s\<lparr>failed := failed s + 1\<rparr>)"

text \<open>Reading the answer; \<open>True\<close> is the jump to \<open>nexttry\<close>.\<close>

partial_function (option) read_answer :: "'w kernel \<Rightarrow> int \<Rightarrow> ('w, 'a) webbench_scheme \<Rightarrow> (bool res \<times> ('w, 'a) webbench_scheme) option" where
  "read_answer os sock s = bindP (timer_expired os) (\<lambda>t.
     ifP t (ret False)
      (bindP (sys os (Read sock 1500)) (\<lambda>i.
        ifP (rv i < 0) (seqP count_failed (seqP (bindP (sys os (Close sock)) (\<lambda>_. ret ())) (ret True)))
         (ifP (rv i = 0) (ret False)
           (seqP (modify (\<lambda>s. s\<lparr>bytes := bytes s + word_of_int (rv i)\<rparr>)) (read_answer os sock)))))) s"

text \<open>One attempt: the body of the loop after the test of the timer.\<close>

definition attempt :: "'w kernel \<Rightarrow> string \<Rightarrow> int \<Rightarrow> string \<Rightarrow> (('w, 'a) webbench_scheme, unit) prog" where
  "attempt os hst port req =
     bindP (bench_socket os hst port) (\<lambda>sock.
       if sock < 0 then count_failed
       else bindP (sys os (Write sock req)) (\<lambda>r.
         if rv r \<noteq> int (length req) then seqP count_failed (bindP (sys os (Close sock)) (\<lambda>_. ret ()))
         else bindP (gets http10) (\<lambda>v.
           bindP (if v = 0 then bindP (sys os (Shutdown sock 1)) (\<lambda>r. ret (rv r \<noteq> 0)) else ret False) (\<lambda>bad.
             if bad then seqP count_failed (bindP (sys os (Close sock)) (\<lambda>_. ret ()))
             else bindP (gets force) (\<lambda>f. bindP (if f = 0 then read_answer os sock else ret False) (\<lambda>again.
               if again then ret ()
               else bindP (sys os (Close sock)) (\<lambda>r.
                 if rv r \<noteq> 0 then count_failed
                 else modify (\<lambda>s. s\<lparr>speed := speed s + 1\<rparr>))))))))"

text \<open>An attempt the alarm has cut short is not counted as failed.\<close>

definition correct_failed :: "(('w, 'a) webbench_scheme, unit) prog" where
  "correct_failed = modify (\<lambda>s. if 0 <s failed s then s\<lparr>failed := failed s - 1\<rparr> else s)"

partial_function (option) bench_loop ::
  "'w kernel \<Rightarrow> string \<Rightarrow> int \<Rightarrow> string \<Rightarrow> ('w, 'a) webbench_scheme \<Rightarrow> (unit res \<times> ('w, 'a) webbench_scheme) option" where
  "bench_loop os hst port req s = bindP (timer_expired os) (\<lambda>t.
     ifP t correct_failed (seqP (attempt os hst port req) (bench_loop os hst port req))) s"

definition benchcore :: "'w kernel \<Rightarrow> string \<Rightarrow> int \<Rightarrow> string \<Rightarrow> (('w, 'a) webbench_scheme, unit) prog" where
  "benchcore os hst port req =
     bindP (sys os (Proc (Sigaction SIGALRM))) (\<lambda>r.
       if rv r \<noteq> 0 then quit 3
       else bindP (gets benchtime) (\<lambda>t. bindP (sys os (Proc (Alarm t))) (\<lambda>_. bench_loop os hst port req)))"

section \<open>The benchmark\<close>

text \<open>Forking \<open>k\<close> children from number \<open>i\<close> on: the last answer of \<open>fork\<close> and the loop counter.\<close>

fun fork_loop :: "'w kernel \<Rightarrow> nat \<Rightarrow> int \<Rightarrow> int \<Rightarrow> (('w, 'a) process_scheme, int \<times> int) prog" where
  "fork_loop os 0 i pid = ret (pid, i)"
| "fork_loop os (Suc k) i pid = bindP (sys os (Proc Fork)) (\<lambda>p.
     if rv p \<le> 0 then bindP (sys os (Proc Sleep)) (\<lambda>_. ret (rv p, i))
     else fork_loop os k (i + 1) (rv p))"

text \<open>The line a child writes into the pipe.\<close>

definition report_line :: "32 word \<Rightarrow> 32 word \<Rightarrow> 32 word \<Rightarrow> string" where
  "report_line sp fl by = show_int (sint sp) @ '' '' @ show_int (sint fl) @ '' '' @ show_int (sint by) @ [CHR 0x0A]"

definition run_child :: "'w kernel \<Rightarrow> string \<Rightarrow> (('w, 'a) webbench_scheme, int) prog" where
  "run_child os target =
     bindP (gets proxyport) (\<lambda>port. bindP (gets request) (\<lambda>req.
     seqP (benchcore os target port (c_str req))
      (bindP (sys os (Stdio (Fdopen Write_end ''w''))) (\<lambda>f.
        if rv f = 0 then seqP (perror os ''open pipe for writing failed.'') (ret 3)
        else bindP (gets (\<lambda>s. report_line (speed s) (failed s) (bytes s))) (\<lambda>line.
          bindP (sys os (Stdio (Fprintf (rv f) line))) (\<lambda>_.
          bindP (sys os (Stdio (Fclose (rv f)))) (\<lambda>_. ret 0)))))))"

text \<open>
  The parent's collecting loop; its locals \<open>i\<close>, \<open>j\<close>, \<open>k\<close> may be unset. \<open>fscanf\<close> stores as many numbers
  as it converts.
\<close>

definition stored :: "int list \<Rightarrow> nat \<Rightarrow> int option \<Rightarrow> int option" where
  "stored ns k old = (if k < length ns then Some (ns ! k) else old)"

definition add_results :: "int option \<Rightarrow> int option \<Rightarrow> int option \<Rightarrow> (('w, 'a) webbench_scheme, unit) prog" where
  "add_results i j k = (if i = None \<or> j = None \<or> k = None then fault Uninit
     else modify (\<lambda>s. s\<lparr>speed := speed s + word_of_int (the i), failed := failed s + word_of_int (the j),
       bytes := bytes s + word_of_int (the k)\<rparr>))"

partial_function (option) collect ::
  "'w kernel \<Rightarrow> int \<Rightarrow> int option \<Rightarrow> int option \<Rightarrow> int option \<Rightarrow> ('w, 'a) webbench_scheme \<Rightarrow> (int option res \<times> ('w, 'a) webbench_scheme) option" where
  "collect os f i j k s = bindP (sys os (Stdio (Fscanf f))) (\<lambda>a.
     bindP (ret (scan_ints 3 (data_in a))) (\<lambda>ns.
     bindP (ret (stored ns 0 i)) (\<lambda>i. bindP (ret (stored ns 1 j)) (\<lambda>j. bindP (ret (stored ns 2 k)) (\<lambda>k.
     ifP (length ns < 2) (seqP (printf os (''Some of our childrens died.'' @ [CHR 0x0A])) (ret i))
      (seqP (add_results i j k)
        (bindP (gets (\<lambda>s. clients s - 1)) (\<lambda>n. seqP (modify (\<lambda>s. s\<lparr>clients := n\<rparr>))
          (ifP (n = 0) (ret i) (collect os f i j k)))))))))) s"

definition run_parent :: "'w kernel \<Rightarrow> int \<Rightarrow> (('w, 'a) webbench_scheme, int) prog" where
  "run_parent os i =
     bindP (sys os (Stdio (Fdopen Read_end ''r''))) (\<lambda>f.
       if rv f = 0 then seqP (perror os ''open pipe for reading failed.'') (ret 3)
       else bindP (sys os (Stdio (Setvbuf (rv f)))) (\<lambda>_.
         seqP (modify (\<lambda>s. s\<lparr>speed := 0, failed := 0, bytes := 0\<rparr>))
        (bindP (collect os (rv f) (Some i) None None) (\<lambda>i.
         bindP (sys os (Stdio (Fclose (rv f)))) (\<lambda>_.
         bindP (gets (\<lambda>s. Rates (sint (speed s + failed s)) (sint (bytes s)) (benchtime s) (sint (speed s)) (sint (failed s)))) (\<lambda>r.
         bindP (sys os (Stdio r)) (\<lambda>_. ret (the i))))))))"

definition bench :: "'w kernel \<Rightarrow> (('w, 'a) webbench_scheme, int) prog" where
  "bench os =
     bindP (gets proxyhost) (\<lambda>p. bindP (if p = None then host_text else ret (the p)) (\<lambda>target.
     bindP (gets proxyport) (\<lambda>port. bindP (bench_socket os target port) (\<lambda>i.
       if i < 0 then seqP (printf os (CHR 0x0A # ''Connect to server failed. Aborting benchmark.'' @ [CHR 0x0A])) (ret 1)
       else bindP (sys os (Close i)) (\<lambda>_. bindP (sys os (Stdio Pipe)) (\<lambda>r.
         if rv r \<noteq> 0 then seqP (perror os ''pipe failed.'') (ret 3)
         else bindP (gets clients) (\<lambda>n. bindP (fork_loop os (nat n) 0 0) (\<lambda>(pid, i).
           if pid < 0
           then seqP (printf os (''problems forking worker no. '' @ show_int i @ [CHR 0x0A])) (seqP (perror os ''fork failed.'') (ret 3))
           else if pid = 0 then run_child os target
           else run_parent os i)))))))) "

section \<open>The command line\<close>

datatype flag_var = Force | Force_reload | Method

text \<open>
  What an entry of \<open>long_options\<close> does when it is met: store a value in a variable (\<open>getopt_long\<close>
  answers 0), or be answered as a letter.
\<close>

datatype long_action = Set_flag flag_var int | Letter char

text \<open>Name, whether an argument is required, action.\<close>

definition long_options :: "(string \<times> bool \<times> long_action) list" where
  "long_options =
     [(''force'', False, Set_flag Force 1), (''reload'', False, Set_flag Force_reload 1),
      (''time'', True, Letter (CHR ''t'')), (''help'', False, Letter (CHR ''?'')),
      (''http09'', False, Letter (CHR ''9'')), (''http10'', False, Letter (CHR ''1'')),
      (''http11'', False, Letter (CHR ''2'')),
      (''get'', False, Set_flag Method METHOD_GET), (''head'', False, Set_flag Method METHOD_HEAD),
      (''options'', False, Set_flag Method METHOD_OPTIONS), (''trace'', False, Set_flag Method METHOD_TRACE),
      (''version'', False, Letter (CHR ''V'')), (''proxy'', True, Letter (CHR ''p'')),
      (''clients'', True, Letter (CHR ''c''))]"

text \<open>The results of successive calls of \<open>getopt_long\<close>.\<close>

datatype opt = Flag flag_var int | Opt char string

definition short_flags :: "char set" where
  "short_flags = {CHR ''9'', CHR ''1'', CHR ''2'', CHR ''V'', CHR ''f'', CHR ''r'', CHR ''?'', CHR ''h''}"

definition short_args :: "char set" where
  "short_args = {CHR ''t'', CHR ''p'', CHR ''c''}"

text \<open>A cluster of short options, and the arguments left after it.\<close>

fun getopt_short :: "string \<Rightarrow> string list \<Rightarrow> opt list \<times> string list" where
  "getopt_short [] args = ([], args)"
| "getopt_short (c # cs) args =
     (if c \<in> short_args
      then if cs \<noteq> [] then ([Opt c cs], args)
        else (case args of [] \<Rightarrow> ([Opt (CHR ''?'') []], []) | a # as \<Rightarrow> ([Opt c a], as))
      else let (os, as) = getopt_short cs args in (Opt (if c \<in> short_flags then c else CHR ''?'') [] # os, as))"

text \<open>
  A long option, whole or up to the first \<open>=\<close>: an exact name, or else an abbreviation of exactly one.
\<close>

definition getopt_long_one :: "string \<Rightarrow> string list \<Rightarrow> opt \<times> string list" where
  "getopt_long_one text args =
     (let name = takeWhile (\<lambda>c. c \<noteq> CHR ''='') text; val = drop (length name) text;
          exact = filter (\<lambda>(n, _). n = name) long_options;
          found = (if exact \<noteq> [] then exact else filter (\<lambda>(n, _). take (length name) n = name) long_options)
      in case found of
          [(_, needs, act)] \<Rightarrow>
            (case act of
               Set_flag v n \<Rightarrow> (if val = [] then Flag v n else Opt (CHR ''?'') [], args)
             | Letter c \<Rightarrow>
                 if \<not> needs then (if val = [] then Opt c [] else Opt (CHR ''?'') [], args)
                 else if val \<noteq> [] then (Opt c (tl val), args)
                 else (case args of [] \<Rightarrow> (Opt (CHR ''?'') [], []) | a # as \<Rightarrow> (Opt c a, as)))
        | _ \<Rightarrow> (Opt (CHR ''?'') [], args))"

lemma getopt_short_length: "length (snd (getopt_short cs args)) \<le> length args"
  by (induction cs args rule: getopt_short.induct) (auto split: prod.splits list.splits)

lemma getopt_long_length: "length (snd (getopt_long_one t args)) \<le> length args"
  by (auto simp: getopt_long_one_def Let_def split: list.splits prod.splits long_action.splits)

text \<open>All options in the order of the command line, and the other arguments, which \<open>getopt_long\<close> moves behind.\<close>

function getopt_long :: "string list \<Rightarrow> opt list \<times> string list" where
  "getopt_long [] = ([], [])"
| "getopt_long (a # as) =
     (if a = ''--'' then ([], as)
      else if take 2 a = ''--''
      then (case getopt_long_one (drop 2 a) as of (opt, rest) \<Rightarrow> (case getopt_long rest of (opts, others) \<Rightarrow> (opt # opts, others)))
      else if take 1 a = ''-'' \<and> a \<noteq> ''-''
      then (case getopt_short (tl a) as of (new, rest) \<Rightarrow> (case getopt_long rest of (opts, others) \<Rightarrow> (new @ opts, others)))
      else (case getopt_long as of (opts, others) \<Rightarrow> (opts, a # others)))"
  by pat_completeness auto

termination
proof (relation "measure length")
  show "(rest, a # as) \<in> measure length" if "(opt, rest) = getopt_long_one (drop 2 a) as"
    for a as rest and opt :: opt
    using getopt_long_length [of "drop 2 a" as] that [symmetric] by simp
  show "(rest, a # as) \<in> measure length" if "(new, rest) = getopt_short (tl a) as"
    for a as rest and new :: "opt list"
    using getopt_short_length [of "tl a" as] that [symmetric] by simp
qed auto

definition set_var :: "flag_var \<Rightarrow> int \<Rightarrow> (('w, 'a) webbench_scheme, unit) prog" where
  "set_var v n = modify (\<lambda>s. case v of Force \<Rightarrow> s\<lparr>force := n\<rparr> | Force_reload \<Rightarrow> s\<lparr>force_reload := n\<rparr>
     | Method \<Rightarrow> s\<lparr>http_method := n\<rparr>)"

definition usage :: "'w kernel \<Rightarrow> (('w, 'a) process_scheme, unit) prog" where
  "usage os = printf os (concat (map (\<lambda>l. l @ [CHR 0x0A])
     [''webbench [option]... URL'',
      ''  -f|--force               Don't wait for reply from server.'',
      ''  -r|--reload              Send reload request - Pragma: no-cache.'',
      ''  -t|--time <sec>          Run benchmark for <sec> seconds. Default 30.'',
      ''  -p|--proxy <server:port> Use proxy server for request.'',
      ''  -c|--clients <n>         Run <n> HTTP clients at once. Default one.'',
      ''  -9|--http09              Use HTTP/0.9 style requests.'',
      ''  -1|--http10              Use HTTP/1.0 protocol.'',
      ''  -2|--http11              Use HTTP/1.1 protocol.'',
      ''  --get                    Use GET request method.'',
      ''  --head                   Use HEAD request method.'',
      ''  --options                Use OPTIONS request method.'',
      ''  --trace                  Use TRACE request method.'',
      ''  -?|-h|--help             This information.'',
      ''  -V|--version             Display program version.'']))"

text \<open>\<open>-p server:port\<close>; the answer is the exit status of a bad argument.\<close>

definition proxy_option :: "'w kernel \<Rightarrow> string \<Rightarrow> (('w, 'a) webbench_scheme, int option) prog" where
  "proxy_option os optarg =
     seqP (modify (\<lambda>s. s\<lparr>proxyhost := Some optarg\<rparr>))
      (case strrchr optarg (CHR '':'') of
         None \<Rightarrow> ret None
       | Some tmp \<Rightarrow>
           if tmp = 0 then seqP (printf os (''Error in option --proxy '' @ optarg @ '': Missing hostname.'' @ [CHR 0x0A])) (ret (Some 2))
           else if tmp = length optarg - 1
           then seqP (printf os (''Error in option --proxy '' @ optarg @ '' Port number is missing.'' @ [CHR 0x0A])) (ret (Some 2))
           else seqP (modify (\<lambda>s. s\<lparr>proxyhost := Some (take tmp optarg), proxyport := atoi (drop (tmp + 1) optarg)\<rparr>)) (ret None))"

definition apply_opt :: "'w kernel \<Rightarrow> opt \<Rightarrow> (('w, 'a) webbench_scheme, int option) prog" where
  "apply_opt os opt = (case opt of
       Flag v n \<Rightarrow> seqP (set_var v n) (ret None)
     | Opt c optarg \<Rightarrow>
         if c = CHR ''f'' then seqP (set_var Force 1) (ret None)
         else if c = CHR ''r'' then seqP (set_var Force_reload 1) (ret None)
         else if c = CHR ''9'' then seqP (modify (\<lambda>s. s\<lparr>http10 := 0\<rparr>)) (ret None)
         else if c = CHR ''1'' then seqP (modify (\<lambda>s. s\<lparr>http10 := 1\<rparr>)) (ret None)
         else if c = CHR ''2'' then seqP (modify (\<lambda>s. s\<lparr>http10 := 2\<rparr>)) (ret None)
         else if c = CHR ''V'' then seqP (printf os (PROGRAM_VERSION @ [CHR 0x0A])) (quit 0)
         else if c = CHR ''t'' then seqP (modify (\<lambda>s. s\<lparr>benchtime := atoi optarg\<rparr>)) (ret None)
         else if c = CHR ''p'' then proxy_option os optarg
         else if c = CHR ''c'' then seqP (modify (\<lambda>s. s\<lparr>clients := atoi optarg\<rparr>)) (ret None)
         else seqP (usage os) (ret (Some 2)))"

fun apply_opts :: "'w kernel \<Rightarrow> opt list \<Rightarrow> (('w, 'a) webbench_scheme, int option) prog" where
  "apply_opts os [] = ret None"
| "apply_opts os (opt # opts) = bindP (apply_opt os opt) (\<lambda>r. if r = None then apply_opts os opts else ret r)"

text \<open>What \<open>main\<close> prints of the run it starts.\<close>

definition run_info :: "('w, 'a) webbench_scheme \<Rightarrow> string list" where
  "run_info s =
     [''Runing info: '', if clients s = 1 then ''1 client'' else show_int (clients s) @ '' clients'',
      '', running '' @ show_int (benchtime s) @ '' sec''] @
     (if force s \<noteq> 0 then ['', early socket close''] else []) @
     (case proxyhost s of None \<Rightarrow> [] | Some h \<Rightarrow> ['', via proxy server '' @ h @ '':'' @ show_int (proxyport s)]) @
     (if force_reload s \<noteq> 0 then ['', forcing reload''] else []) @ [''.'' @ [CHR 0x0A]]"

definition webbench_main :: "'w kernel \<Rightarrow> string list \<Rightarrow> (('w, 'a) webbench_scheme, int) prog" where
  "webbench_main os argv =
     (if length argv = 1 then seqP (usage os) (ret 2)
      else case getopt_long (tl argv) of (opts, others) \<Rightarrow>
        bindP (apply_opts os opts) (\<lambda>r.
          if r \<noteq> None then ret (the r)
          else if others = [] then seqP (printf os (''webbench: Missing URL!'' @ [CHR 0x0A])) (seqP (usage os) (ret 2))
          else
            seqP (modify (\<lambda>s. if clients s = 0 then s\<lparr>clients := 1\<rparr> else s))
           (seqP (modify (\<lambda>s. if benchtime s = 0 then s\<lparr>benchtime := 30\<rparr> else s))
           (seqP (printf os (''Webbench - Simple Web Benchmark '' @ PROGRAM_VERSION @ CHR 0x0A #
                ''Copyright (c) Radim Kolar 1997-2004, GPL Open Source Software.'' @ [CHR 0x0A]))
           (seqP (build_request os (others ! 0))
           (seqP (bindP (gets run_info) (\<lambda>ms. forP ms (printf os)))
              (bench os)))))))"

end
