(* ===== verification/WebRequest.thy ===== *)
theory WebRequest
  imports WebBench
begin

text \<open>
  The request WebBench sends: a reference text for it, and that \<open>build_request\<close> writes exactly this
  text into its buffer, for every URL whose host and port fit theirs.
\<close>

section \<open>The reference\<close>

text \<open>The version used: at least what the method and a forced reload through a proxy need.\<close>

definition http_version :: "('w, 'a) webbench_scheme \<Rightarrow> int" where
  "http_version s = max (http10 s)
     (if http_method s \<in> {METHOD_OPTIONS, METHOD_TRACE} then 2
      else if http_method s = METHOD_HEAD \<or> force_reload s \<noteq> 0 \<and> proxyhost s \<noteq> None then 1 else http10 s)"

definition version_text :: "int \<Rightarrow> string" where
  "version_text v = (if v = 1 then '' HTTP/1.0'' else if v = 2 then '' HTTP/1.1'' else '''')"

definition header_lines :: "int \<Rightarrow> string option \<Rightarrow> bool \<Rightarrow> string \<Rightarrow> string list" where
  "header_lines v proxy reload h =
     (if 0 < v then [''User-Agent: WebBench 1.5''] @ (if proxy = None then [''Host: '' @ h] else []) else []) @
     (if reload \<and> proxy \<noteq> None then [''Pragma: no-cache''] else []) @ (if 1 < v then [''Connection: close''] else [])"

definition request_text :: "('w, 'a) webbench_scheme \<Rightarrow> string \<Rightarrow> string \<Rightarrow> string" where
  "request_text s h target =
     (let v = http_version s in
      method_name (http_method s) @ '' '' @ target @ version_text v @ CRLF @
      concat (map (\<lambda>l. l @ CRLF) (header_lines v (proxyhost s) (force_reload s \<noteq> 0) h)) @
      (if 0 < v then CRLF else []))"

section \<open>Writing into the buffer\<close>

text \<open>\<open>built t s0 s\<close>: the state is \<open>s0\<close>, but for the request buffer, which holds the text \<open>t\<close>.\<close>

definition built :: "string \<Rightarrow> ('w, 'a) webbench_scheme \<Rightarrow> ('w, 'a) webbench_scheme \<Rightarrow> bool" where
  "built t s0 s \<longleftrightarrow> (\<exists>buf. s = s0\<lparr>request := buf\<rparr> \<and> is_text buf t \<and> length buf = REQUEST_SIZE)"

lemma wp_strcat_request:
  assumes "built t s0 s" and "NUL \<notin> set src" and "length t + length src < REQUEST_SIZE"
  shows "wp (strcat_request src) (\<lambda>_. built (t @ src) s0) s"
proof -
  obtain buf where buf: "s = s0\<lparr>request := buf\<rparr>" "is_text buf t" "length buf = REQUEST_SIZE"
    using assms(1) by (auto simp: built_def)
  let ?buf = "write_at buf (length t) (src @ [NUL])"
  have "is_text ?buf (t @ src)" "length ?buf = REQUEST_SIZE"
    using is_text_append [OF buf(2) assms(2)] assms(3) buf(3) by simp_all
  then have "built (t @ src) s0 (s0\<lparr>request := ?buf\<rparr>)" unfolding built_def by blast
  moreover have "strcat_request src s = Some (Ret (), s0\<lparr>request := ?buf\<rparr>)"
    using assms(3) buf by (simp add: strcat_request_def run_simps is_text_c_str [OF buf(2)] Let_def)
  ultimately show ?thesis by (simp add: wp_def)
qed

lemma wp_when_strcat:
  assumes "built t s0 s" and "b \<Longrightarrow> NUL \<notin> set src" and "length t + length src < REQUEST_SIZE"
  shows "wp (whenP b (strcat_request src)) (\<lambda>_. built (t @ (if b then src else [])) s0) s"
  using wp_strcat_request [OF assms(1) _ assms(3)] assms(1,2) by (simp add: wp_whenP)

lemma built_fields:
  "built t s0 s \<Longrightarrow> http10 s = http10 s0 \<and> proxyhost s = proxyhost s0 \<and> force_reload s = force_reload s0 \<and>
     http_method s = http_method s0 \<and> host s = host s0"
  by (auto simp: built_def)

lemma wp_host_text: "is_text (host s) h \<Longrightarrow> wp host_text (\<lambda>r s'. r = h \<and> s' = s) s"
  by (simp add: wp_def host_text_def is_text_terminated is_text_c_str run_simps)

lemma wp_host_line:
  assumes "built t s0 s" and "is_text (host s0) h" and "length t + length h + 8 < REQUEST_SIZE"
  shows "wp (seqP (strcat_request ''Host: '') (seqP (bindP host_text strcat_request) (strcat_request CRLF)))
     (\<lambda>_. built (t @ ''Host: '' @ h @ CRLF) s0) s"
proof -
  have h: "NUL \<notin> set h" using assms(2) by (simp add: is_text_def)
  have one: "wp (strcat_request ''Host: '') (\<lambda>_. built (t @ ''Host: '') s0) s"
    by (rule wp_strcat_request [OF assms(1)]) (use assms(3) in auto)
  have two: "wp (bindP host_text strcat_request) (\<lambda>_. built ((t @ ''Host: '') @ h) s0) s'" if b: "built (t @ ''Host: '') s0 s'" for s'
    unfolding wp_bindP
  proof (rule wp_mono [OF wp_host_text])
    show "is_text (host s') h" using built_fields [OF b] assms(2) by simp
    show "wp (strcat_request r) (\<lambda>_. built ((t @ ''Host: '') @ h) s0) s''" if "r = h \<and> s'' = s'" for r s''
      using that wp_strcat_request [OF b h] assms(3) by simp
  qed
  have three: "wp (strcat_request CRLF) (\<lambda>_. built (((t @ ''Host: '') @ h) @ CRLF) s0) s'" if "built ((t @ ''Host: '') @ h) s0 s'" for s'
    by (rule wp_strcat_request [OF that]) (use assms(3) in \<open>auto simp: CRLF_def\<close>)
  show ?thesis
    unfolding wp_seqP
    by (rule wp_mono [OF one]) (rule wp_mono [OF two], assumption, use three in simp)
qed

text \<open>The part of the request after its target.\<close>

definition tail_text :: "int \<Rightarrow> string option \<Rightarrow> bool \<Rightarrow> string \<Rightarrow> string" where
  "tail_text v proxy reload h = version_text v @ CRLF @
     concat (map (\<lambda>l. l @ CRLF) (header_lines v proxy reload h)) @ (if 0 < v then CRLF else [])"

lemma wp_add_headers:
  assumes "built t s0 s" and "proxyhost s0 = None \<Longrightarrow> is_text (host s0) h" and "length h < 64" and "length t \<le> 1508"
  shows "wp add_headers (\<lambda>_. built (t @ tail_text (http10 s0) (proxyhost s0) (force_reload s0 \<noteq> 0) h) s0) s"
proof -
  let ?v = "http10 s0" and ?p = "proxyhost s0" and ?r = "force_reload s0 \<noteq> 0"
  define t1 where "t1 = t @ version_text ?v"
  define t2 where "t2 = t1 @ CRLF"
  define t3 where "t3 = t2 @ (if ?v > 0 then ''User-Agent: WebBench '' @ PROGRAM_VERSION @ CRLF else [])"
  define t4 where "t4 = t3 @ (if ?p = None \<and> ?v > 0 then ''Host: '' @ h @ CRLF else [])"
  define t5 where "t5 = t4 @ (if ?r \<and> ?p \<noteq> None then ''Pragma: no-cache'' @ CRLF else [])"
  define t6 where "t6 = t5 @ (if ?v > 1 then ''Connection: close'' @ CRLF else [])"
  note ts = t1_def t2_def t3_def t4_def t5_def t6_def
  have len: "length t1 \<le> 1517" "length t2 \<le> 1519" "length t3 \<le> 1545" "length t4 \<le> 1616" "length t5 \<le> 1634" "length t6 \<le> 1653"
    using assms(3,4) by (simp_all add: ts version_text_def CRLF_def PROGRAM_VERSION_def)
  have size: "REQUEST_SIZE = 2048" by (simp add: REQUEST_SIZE_def)
  have a1: "wp (bindP (gets http10) (\<lambda>v. if v = 1 then strcat_request '' HTTP/1.0'' else if v = 2 then strcat_request '' HTTP/1.1'' else ret ()))
      (\<lambda>_. built t1 s0) s"
    using built_fields [OF assms(1)] wp_strcat_request [OF assms(1)] assms(1,4)
    by (simp add: wp_bindP wp_gets wp_ret t1_def version_text_def size)
  have a2: "wp (strcat_request CRLF) (\<lambda>_. built t2 s0) s'" if "built t1 s0 s'" for s'
    unfolding t2_def by (rule wp_strcat_request [OF that]) (use len size in \<open>auto simp: CRLF_def\<close>)
  have a3: "wp (whenP (?v > 0) (strcat_request (''User-Agent: WebBench '' @ PROGRAM_VERSION @ CRLF))) (\<lambda>_. built t3 s0) s'"
    if "built t2 s0 s'" for s'
    unfolding t3_def by (rule wp_when_strcat [OF that]) (use len size in \<open>auto simp: CRLF_def PROGRAM_VERSION_def\<close>)
  have a4: "wp (whenP (?p = None \<and> ?v > 0)
      (seqP (strcat_request ''Host: '') (seqP (bindP host_text strcat_request) (strcat_request CRLF)))) (\<lambda>_. built t4 s0) s'"
    if "built t3 s0 s'" for s'
    using wp_host_line [OF that assms(2)] assms(3) len(3) that by (auto simp: wp_whenP t4_def size)
  have a5: "wp (whenP (force_reload s0 \<noteq> 0 \<and> ?p \<noteq> None) (strcat_request (''Pragma: no-cache'' @ CRLF))) (\<lambda>_. built t5 s0) s'"
    if "built t4 s0 s'" for s'
    unfolding t5_def by (rule wp_when_strcat [OF that]) (use len size in \<open>auto simp: CRLF_def\<close>)
  have a6: "wp (whenP (?v > 1) (strcat_request (''Connection: close'' @ CRLF))) (\<lambda>_. built t6 s0) s'"
    if "built t5 s0 s'" for s'
    unfolding t6_def by (rule wp_when_strcat [OF that]) (use len size in \<open>auto simp: CRLF_def\<close>)
  have a7: "wp (whenP (?v > 0) (strcat_request CRLF)) (\<lambda>_. built (t6 @ (if ?v > 0 then CRLF else [])) s0) s'"
    if "built t6 s0 s'" for s'
    by (rule wp_when_strcat [OF that]) (use len size in \<open>auto simp: CRLF_def\<close>)
  have all: "t6 @ (if ?v > 0 then CRLF else []) = t @ tail_text ?v ?p ?r h"
    by (simp add: ts tail_text_def header_lines_def PROGRAM_VERSION_def)
  have block: "wp (blockP [whenP (?v > 0) (strcat_request (''User-Agent: WebBench '' @ PROGRAM_VERSION @ CRLF)),
        whenP (?p = None \<and> ?v > 0) (seqP (strcat_request ''Host: '') (seqP (bindP host_text strcat_request) (strcat_request CRLF))),
        whenP (force_reload s0 \<noteq> 0 \<and> ?p \<noteq> None) (strcat_request (''Pragma: no-cache'' @ CRLF)),
        whenP (?v > 1) (strcat_request (''Connection: close'' @ CRLF)), whenP (?v > 0) (strcat_request CRLF)])
      (\<lambda>_. built (t @ tail_text ?v ?p ?r h) s0) s'" if "built t2 s0 s'" for s'
    unfolding wp_blockP
    by (rule wp_mono [OF a3 [OF that]], rule wp_mono [OF a4], assumption, rule wp_mono [OF a5], assumption,
        rule wp_mono [OF a6], assumption, rule wp_mono [OF a7], assumption) (simp add: all)
  have headers: "wp (bindP (gets http10) (\<lambda>v. bindP (gets proxyhost) (\<lambda>proxy. bindP (gets force_reload) (\<lambda>reload. blockP
      [whenP (v > 0) (strcat_request (''User-Agent: WebBench '' @ PROGRAM_VERSION @ CRLF)),
        whenP (proxy = None \<and> v > 0) (seqP (strcat_request ''Host: '') (seqP (bindP host_text strcat_request) (strcat_request CRLF))),
        whenP (reload \<noteq> 0 \<and> proxy \<noteq> None) (strcat_request (''Pragma: no-cache'' @ CRLF)),
        whenP (v > 1) (strcat_request (''Connection: close'' @ CRLF)), whenP (v > 0) (strcat_request CRLF)]))))
      (\<lambda>_. built (t @ tail_text ?v ?p ?r h) s0) s'" if b: "built t2 s0 s'" for s'
  proof -
    have fields: "http10 s' = ?v" "proxyhost s' = ?p" "force_reload s' = force_reload s0" using built_fields [OF b] by simp_all
    show ?thesis unfolding wp_bindP wp_gets fields by (rule block [OF b])
  qed
  show ?thesis
    unfolding add_headers_def wp_seqP [of "bindP _ _"] wp_seqP [of "strcat_request CRLF" "bindP _ _"]
    by (rule wp_mono [OF a1], rule wp_mono [OF a2], assumption, rule headers)
qed

end
