(* ===== verification/WebUrl.thy ===== *)
theory WebUrl
  imports WebRequest
begin

text \<open>
  The URL as \<open>build_request\<close> takes it apart, and the properties of the request as a whole.
\<close>

section \<open>Parts of a URL\<close>

definition url_rest :: "string \<Rightarrow> string" where
  "url_rest url = drop (the (strstr url ''://'') + 3) url"

definition url_slash :: "string \<Rightarrow> nat" where
  "url_slash url = the (strchr (url_rest url) (CHR ''/''))"

definition url_colon :: "string \<Rightarrow> nat option" where
  "url_colon url = (case strchr (url_rest url) (CHR '':'') of
     Some c \<Rightarrow> if c < url_slash url then Some c else None | None \<Rightarrow> None)"

definition url_host :: "string \<Rightarrow> string" where
  "url_host url = take (case url_colon url of Some c \<Rightarrow> c | None \<Rightarrow> url_slash url) (url_rest url)"

definition url_port :: "string \<Rightarrow> string option" where
  "url_port url = map_option (\<lambda>c. take (url_slash url - c - 1) (drop (c + 1) (url_rest url))) (url_colon url)"

definition url_path :: "string \<Rightarrow> string" where
  "url_path url = drop (url_slash url) (url_rest url)"

definition valid_url :: "string \<Rightarrow> bool" where
  "valid_url url \<longleftrightarrow> NUL \<notin> set url \<and> strstr url ''://'' \<noteq> None \<and> length url \<le> 1500 \<and>
     has_prefix_nocase ''http://'' url \<and> strchr (url_rest url) (CHR ''/'') \<noteq> None"

definition port_number :: "string option \<Rightarrow> int \<Rightarrow> int" where
  "port_number p old = (case p of None \<Rightarrow> old | Some t \<Rightarrow> if atoi t = 0 then 80 else atoi t)"

lemma strcspn_strchr: "strchr s c = Some i \<Longrightarrow> strcspn s c = i"
proof (induction s arbitrary: i)
  case (Cons x xs)
  then show ?case by (auto simp: strcspn_def split: if_splits)
qed simp

lemma url_slash_less: "valid_url url \<Longrightarrow> strchr (url_rest url) (CHR ''/'') = Some (url_slash url) \<and> url_slash url < length (url_rest url)"
proof -
  assume "valid_url url"
  then obtain k where "strchr (url_rest url) (CHR ''/'') = Some k" by (auto simp: valid_url_def)
  moreover from this have "k < length (url_rest url)" by (simp add: strchr_split)
  ultimately show ?thesis by (simp add: url_slash_def)
qed

lemma url_colon_less: "url_colon url = Some c \<Longrightarrow> c < url_slash url \<and> strchr (url_rest url) (CHR '':'') = Some c"
  by (auto simp: url_colon_def split: option.splits if_splits)

lemma url_rest_text: "valid_url url \<Longrightarrow> NUL \<notin> set (url_rest url) \<and> length (url_rest url) \<le> 1500"
  by (auto simp: valid_url_def url_rest_def dest: in_set_dropD)

section \<open>Single steps\<close>

lemma http_version_raise:
  "raise_http s = Some (Ret (), s\<lparr>http10 := http_version s\<rparr>)"
proof -
  have one: "(if c then t\<lparr>http10 := a\<rparr> else t) = t\<lparr>http10 := if c then a else http10 t\<rparr>" for c a and t :: "('a, 'b) webbench_scheme"
    by simp
  consider "http_method s = METHOD_HEAD" | "http_method s = METHOD_OPTIONS" | "http_method s = METHOD_TRACE"
    | "http_method s \<notin> {METHOD_HEAD, METHOD_OPTIONS, METHOD_TRACE}" by auto
  then show ?thesis
    by cases (simp_all add: raise_http_def run_simps one http_version_def max_def METHOD_HEAD_def METHOD_OPTIONS_def METHOD_TRACE_def)
qed

lemma check_url_valid: "valid_url url \<Longrightarrow> check_url os url s = Some (Ret (the (strstr url ''://'') + 3), s)"
proof -
  assume "valid_url url"
  then obtain j k where "strstr url ''://'' = Some j" "length url \<le> 1500" "has_prefix_nocase ''http://'' url"
    "strchr (drop (j + 3) url) (CHR ''/'') = Some k" by (auto simp: valid_url_def url_rest_def)
  then show ?thesis by (simp add: check_url_def Let_def run_simps)
qed

text \<open>Numbers in a zero-filled buffer.\<close>

lemma drop_sign_append: "t \<noteq> [] \<Longrightarrow> drop_sign (t @ r) = drop_sign t @ r"
  by (cases t) (auto simp: drop_sign_def)

lemma dropWhile_stop: "\<not> P c \<Longrightarrow> dropWhile P (t @ c # r) = dropWhile P t @ c # r"
  by (induction t) auto

lemma takeWhile_stop: "\<not> P c \<Longrightarrow> takeWhile P (t @ c # r) = takeWhile P t"
  by (induction t) auto

lemma atoi_stop:
  assumes "\<not> is_digit c" and "\<not> is_space c" and "c \<noteq> CHR ''-''" and "c \<noteq> CHR ''+''"
  shows "atoi (t @ c # r) = atoi t"
proof -
  let ?d = "dropWhile is_space t"
  have d: "dropWhile is_space (t @ c # r) = ?d @ c # r" using assms(2) by (rule dropWhile_stop)
  show ?thesis
  proof (cases "?d = []")
    case True
    with d have "dropWhile is_space (t @ c # r) = c # r" by simp
    moreover have "drop_sign (c # r) = c # r" using assms(3,4) by (simp add: drop_sign_def)
    ultimately have "parse_int (t @ c # r) = None" "parse_int t = None"
      unfolding parse_int_def using True assms(1) by (simp_all only: Let_def) (simp_all add: drop_sign_def)
    then show ?thesis by (simp add: atoi_def)
  next
    case False
    then have "drop_sign (?d @ c # r) = drop_sign ?d @ c # r" "negative (?d @ c # r) = negative ?d"
      by (auto simp: drop_sign_append negative_def)
    with d assms(1) show ?thesis by (simp add: atoi_def parse_int_def Let_def takeWhile_stop)
  qed
qed

lemma atoi_tmp_short:
  assumes "n < 10" and "n \<le> length src"
  shows "atoi_tmp src n s = Some (Ret (atoi (take n src)), s)"
proof -
  obtain k where k: "10 - n = Suc k" using assms(1) by (cases "10 - n") auto
  then have tmp: "strncpy_bytes (take n src) 10 = take n src @ NUL # replicate k NUL"
    using assms by (simp add: strncpy_bytes_def min_absorb2 take_all)
  have "atoi (take n src @ NUL # replicate k NUL) = atoi (take n src)"
    by (rule atoi_stop) (auto simp: is_digit_def is_space_def)
  then show ?thesis
    using assms tmp by (simp add: atoi_tmp_def Let_def run_simps terminated_def)
qed

lemma strncpy_host_short:
  assumes "n < MAXHOSTNAMELEN" and "n \<le> length src" and "NUL \<notin> set src" and "host s = replicate MAXHOSTNAMELEN NUL"
  shows "\<exists>hb. strncpy_host src n s = Some (Ret (), s\<lparr>host := hb\<rparr>) \<and> is_text hb (take n src)"
proof -
  obtain k where k: "MAXHOSTNAMELEN - n = Suc k" using assms(1) by (cases "MAXHOSTNAMELEN - n") auto
  have "write_at (host s) 0 (strncpy_bytes src n) = take n src @ NUL # replicate k NUL"
    using assms k by (simp add: write_at_def strncpy_bytes_def min_absorb2)
  moreover have "is_text (take n src @ NUL # replicate k NUL) (take n src)"
    using assms(3) by (auto simp: is_text_def dest: in_set_takeD)
  ultimately show ?thesis using assms(1) by (auto simp: strncpy_host_def run_simps)
qed

text \<open>\<open>take_host\<close> on a valid URL, without and with a port.\<close>

lemma take_host_plain:
  assumes "valid_url url" and "url_colon url = None"
  shows "take_host (url_rest url) = seqP (strncpy_host (url_rest url) (url_slash url)) (strcat_request (url_path url))"
proof -
  have slash: "strchr (url_rest url) (CHR ''/'') = Some (url_slash url)" "strcspn (url_rest url) (CHR ''/'') = url_slash url"
    using url_slash_less [OF assms(1)] by (simp_all add: strcspn_strchr)
  with assms(2) show ?thesis
    by (simp add: take_host_def url_colon_def url_path_def Let_def split: option.splits if_splits)
qed

lemma take_host_port:
  assumes "valid_url url" and "url_colon url = Some c"
  shows "take_host (url_rest url) = seqP (seqP (strncpy_host (url_rest url) c)
     (bindP (atoi_tmp (drop (c + 1) (url_rest url)) (url_slash url - c - 1)) (\<lambda>p.
       modify (\<lambda>s. s\<lparr>proxyport := (if p = 0 then 80 else p)\<rparr>)))) (strcat_request (url_path url))"
proof -
  have slash: "strchr (url_rest url) (CHR ''/'') = Some (url_slash url)" "strcspn (url_rest url) (CHR ''/'') = url_slash url"
    using url_slash_less [OF assms(1)] by (simp_all add: strcspn_strchr)
  with url_colon_less [OF assms(2)] show ?thesis
    by (simp add: take_host_def url_path_def Let_def)
qed

lemma wp_take_host:
  assumes "valid_url url" and "built t s0 s" and "length t \<le> 8" and "host s0 = replicate MAXHOSTNAMELEN NUL"
    and "length (url_host url) < MAXHOSTNAMELEN" and "\<And>p. url_port url = Some p \<Longrightarrow> length p < 10"
  shows "wp (take_host (url_rest url)) (\<lambda>_ s'. \<exists>hb. is_text hb (url_host url) \<and>
      built (t @ url_path url) (s0\<lparr>host := hb, proxyport := port_number (url_port url) (proxyport s0)\<rparr>) s') s"
proof -
  let ?r = "url_rest url" and ?n = "case url_colon url of Some c \<Rightarrow> c | None \<Rightarrow> url_slash url"
  obtain buf where buf: "s = s0\<lparr>request := buf\<rparr>" "is_text buf t" "length buf = REQUEST_SIZE"
    using assms(2) by (auto simp: built_def)
  have slash: "strchr ?r (CHR ''/'') = Some (url_slash url)" "url_slash url < length ?r" "strcspn ?r (CHR ''/'') = url_slash url"
    using url_slash_less [OF assms(1)] by (simp_all add: strcspn_strchr)
  have nul: "NUL \<notin> set ?r" "length ?r \<le> 1500" using url_rest_text [OF assms(1)] by simp_all
  have n: "?n \<le> length ?r" using slash(2) by (auto dest: url_colon_less split: option.splits)
  then have "?n < MAXHOSTNAMELEN" using assms(5) by (simp add: url_host_def)
  moreover have "host s = replicate MAXHOSTNAMELEN NUL" using buf(1) assms(4) by simp
  ultimately obtain hb where hb: "strncpy_host ?r ?n s = Some (Ret (), s\<lparr>host := hb\<rparr>)" "is_text hb (url_host url)"
    using strncpy_host_short [of ?n ?r s] n nul(1) by (auto simp: url_host_def)
  have path: "wp (strcat_request (url_path url)) (\<lambda>_. built (t @ url_path url) s1) (s1\<lparr>request := buf\<rparr>)" for s1 :: "('a, 'b) webbench_scheme"
    by (rule wp_strcat_request)
      (use buf nul assms(3) in \<open>auto simp: built_def url_path_def REQUEST_SIZE_def dest: in_set_dropD\<close>)
  show ?thesis
  proof (cases "url_colon url")
    case None
    then have "take_host ?r s = strcat_request (url_path url) (s\<lparr>host := hb\<rparr>)"
      using hb by (simp add: take_host_plain [OF assms(1) None] seqP_run bindP_run)
    moreover have "s\<lparr>host := hb\<rparr> = (s0\<lparr>host := hb, proxyport := proxyport s0\<rparr>)\<lparr>request := buf\<rparr>" using buf(1) by simp
    ultimately show ?thesis
      using path [of "s0\<lparr>host := hb, proxyport := proxyport s0\<rparr>"] hb(2) None
      by (auto simp: wp_def url_port_def port_number_def split: option.splits res.splits prod.splits)
  next
    case (Some c)
    note c = url_colon_less [OF Some]
    let ?p = "take (url_slash url - c - 1) (drop (c + 1) ?r)"
    let ?s1 = "s0\<lparr>host := hb, proxyport := port_number (url_port url) (proxyport s0)\<rparr>"
    have "length ?p < 10" using assms(6) [of ?p] Some by (simp add: url_port_def)
    moreover have "length ?p = url_slash url - c - 1" using c slash(2) by simp
    ultimately have "atoi_tmp (drop (c + 1) ?r) (url_slash url - c - 1) s' = Some (Ret (atoi ?p), s')" for s' :: "('a, 'b) webbench_scheme"
      using slash(2) by (intro atoi_tmp_short) auto
    then have "take_host ?r s = strcat_request (url_path url) (s\<lparr>host := hb, proxyport := port_number (url_port url) (proxyport s0)\<rparr>)"
      using hb Some by (simp add: take_host_port [OF assms(1) Some] run_simps url_port_def port_number_def)
    moreover have "s\<lparr>host := hb, proxyport := port_number (url_port url) (proxyport s0)\<rparr> = ?s1\<lparr>request := buf\<rparr>" using buf(1) by simp
    ultimately show ?thesis
      using path [of ?s1] hb(2) by (auto simp: wp_def split: option.splits res.splits prod.splits)
  qed
qed

section \<open>The whole request\<close>

lemma method_name_text: "NUL \<notin> set (method_name m) \<and> length (method_name m) \<le> 7"
  by (simp add: method_name_def)

lemma wp_via: "m s = m' s' \<Longrightarrow> wp m' Q s' \<Longrightarrow> wp m Q s"
  by (simp add: wp_def)

text \<open>Up to the blank after the method, the request is under way whatever the URL.\<close>

lemma build_request_start:
  "\<exists>s'. built (method_name (http_method s) @ '' '') (s\<lparr>host := replicate MAXHOSTNAMELEN NUL, http10 := http_version s\<rparr>) s' \<and>
     build_request os url s = finish_request os url s'"
proof -
  let ?s1 = "s\<lparr>host := replicate MAXHOSTNAMELEN NUL, http10 := http_version s\<rparr>" and ?m = "method_name (http_method s)"
  let ?s0 = "s\<lparr>host := replicate MAXHOSTNAMELEN NUL, request := replicate REQUEST_SIZE NUL\<rparr>"
  let ?s2 = "s\<lparr>host := replicate MAXHOSTNAMELEN NUL, request := replicate REQUEST_SIZE NUL, http10 := http_version s\<rparr>"
  have "wp (strcpy_request ?m) (\<lambda>_. built ?m ?s1) ?s2"
    using method_name_text [of "http_method s"]
    by (auto simp: wp_def strcpy_request_def run_simps built_def REQUEST_SIZE_def is_text_write
        intro!: exI [of _ "write_at (replicate 2048 NUL) 0 (?m @ [NUL])"])
  then obtain s3 where s3: "strcpy_request ?m ?s2 = Some (Ret (), s3)" "built ?m ?s1 s3" by (auto simp: wp_iff)
  have "wp (strcat_request '' '') (\<lambda>_. built (?m @ '' '') ?s1) s3"
    by (rule wp_strcat_request [OF s3(2)]) (use method_name_text [of "http_method s"] in \<open>auto simp: REQUEST_SIZE_def\<close>)
  then obtain s4 where s4: "strcat_request '' '' s3 = Some (Ret (), s4)" "built (?m @ '' '') ?s1 s4" by (auto simp: wp_iff)
  have v: "http_version ?s0 = http_version s" by (auto simp: http_version_def)
  have raised: "raise_http ?s0 = Some (Ret (), ?s2)" using http_version_raise [of ?s0] by (simp only: v) 
  have m: "http_method ?s2 = http_method s" by simp
  show ?thesis
    by (rule exI [of _ s4], rule conjI [OF s4(2)])
      (simp only: build_request_def seqP_run bindP_run modify_run gets_run raised m s3(1) s4(1) option.case prod.case res.case)
qed

text \<open>What \<open>build_request\<close> leaves alone.\<close>

definition settings_of :: "('w, 'a) webbench_scheme \<Rightarrow> int \<times> int \<times> int \<times> int \<times> string option \<times> int" where
  "settings_of s = (clients s, benchtime s, force s, force_reload s, proxyhost s, http_method s)"

lemma wp_build_request:
  assumes "valid_url url" and "proxyhost s = None \<Longrightarrow> length (url_host url) < MAXHOSTNAMELEN"
    and "\<And>p. proxyhost s = None \<Longrightarrow> url_port url = Some p \<Longrightarrow> length p < 10"
  shows "wp (build_request os url) (\<lambda>_ s'. c_str (request s') = request_text s (url_host url) (if proxyhost s = None then url_path url else url) \<and>
     length (request s') = REQUEST_SIZE \<and>
     (proxyhost s = None \<longrightarrow> c_str (host s') = url_host url \<and> proxyport s' = port_number (url_port url) (proxyport s)) \<and>
     (proxyhost s \<noteq> None \<longrightarrow> proxyport s' = proxyport s) \<and>
     http10 s' = http_version s \<and> settings_of s' = settings_of s) s"
proof -
  let ?s1 = "s\<lparr>host := replicate MAXHOSTNAMELEN NUL, http10 := http_version s\<rparr>"
  let ?m = "method_name (http_method s)" and ?i = "the (strstr url ''://'') + 3"
  have target: "wp (bindP (gets proxyhost) (\<lambda>p. if p = None then take_host (drop ?i url) else strcat_request url))
      (\<lambda>_ s''. \<exists>s2. built (?m @ '' '' @ (if proxyhost s = None then url_path url else url)) s2 s'' \<and>
        http10 s2 = http_version s \<and> settings_of s2 = settings_of s \<and> proxyhost s2 = proxyhost s \<and> force_reload s2 = force_reload s \<and>
        (proxyhost s = None \<longrightarrow> is_text (host s2) (url_host url) \<and> proxyport s2 = port_number (url_port url) (proxyport s)) \<and>
        (proxyhost s \<noteq> None \<longrightarrow> proxyport s2 = proxyport s)) s'"
    if b: "built (?m @ '' '') ?s1 s'" for s'
  proof (cases "proxyhost s = None")
    case True
    then have p: "proxyhost s' = None" using built_fields [OF b] by simp
    have "wp (take_host (url_rest url)) (\<lambda>_ s''. \<exists>hb. is_text hb (url_host url) \<and>
        built ((?m @ '' '') @ url_path url) (?s1\<lparr>host := hb, proxyport := port_number (url_port url) (proxyport ?s1)\<rparr>) s'') s'"
      by (rule wp_take_host [OF assms(1) b]) (use method_name_text [of "http_method s"] assms(2,3) True in auto)
    then show ?thesis
      unfolding wp_bindP wp_gets if_P [OF p] if_P [OF True] url_rest_def [symmetric]
      by (rule wp_mono) (use True in \<open>force simp: settings_of_def\<close>)
  next
    case False
    then have p: "proxyhost s' \<noteq> None" using built_fields [OF b] by simp
    have "wp (strcat_request url) (\<lambda>_. built ((?m @ '' '') @ url) ?s1) s'"
      by (rule wp_strcat_request [OF b])
        (use method_name_text [of "http_method s"] assms(1) in \<open>auto simp: valid_url_def REQUEST_SIZE_def\<close>)
    then show ?thesis
      unfolding wp_bindP wp_gets if_not_P [OF p] if_not_P [OF False]
      by (rule wp_mono) (use False in \<open>auto simp: settings_of_def intro!: exI [of _ ?s1]\<close>)
  qed
  let ?t = "?m @ '' '' @ (if proxyhost s = None then url_path url else url)"
  have short: "length ?t \<le> 1508"
    using method_name_text [of "http_method s"] url_rest_text [OF assms(1)] assms(1)
    by (auto simp: url_path_def valid_url_def)
  have whole: "?t @ tail_text (http_version s) (proxyhost s) (force_reload s \<noteq> 0) h = request_text s (url_host url) (if proxyhost s = None then url_path url else url)"
    if "proxyhost s = None \<Longrightarrow> h = url_host url" for h
    using that by (auto simp: request_text_def tail_text_def header_lines_def Let_def)
  have headers: "wp (seqP add_headers (bindP (gets request) (\<lambda>r. printf os (CHR 0x0A # ''Request:'' @ CHR 0x0A # c_str r @ [CHR 0x0A]))))
      (\<lambda>_ s'. c_str (request s') = request_text s (url_host url) (if proxyhost s = None then url_path url else url) \<and>
        length (request s') = REQUEST_SIZE \<and>
        (proxyhost s = None \<longrightarrow> c_str (host s') = url_host url \<and> proxyport s' = port_number (url_port url) (proxyport s)) \<and>
     (proxyhost s \<noteq> None \<longrightarrow> proxyport s' = proxyport s) \<and>
        http10 s' = http_version s \<and> settings_of s' = settings_of s) s''"
    if b: "built ?t s2 s''" and s2: "http10 s2 = http_version s" "settings_of s2 = settings_of s" "proxyhost s2 = proxyhost s" "force_reload s2 = force_reload s"
      and h: "proxyhost s = None \<longrightarrow> (is_text (host s2) (url_host url) \<and> proxyport s2 = port_number (url_port url) (proxyport s))"
        "proxyhost s \<noteq> None \<longrightarrow> proxyport s2 = proxyport s"
    for s2 s'' :: "('a, 'b) webbench_scheme"
  proof -
    let ?h = "if proxyhost s = None then url_host url else []"
    have "wp add_headers (\<lambda>_. built (?t @ tail_text (http10 s2) (proxyhost s2) (force_reload s2 \<noteq> 0) ?h) s2) s''"
      by (rule wp_add_headers [OF b]) (use h s2 assms(2) short in \<open>auto simp: MAXHOSTNAMELEN_def\<close>)
    then have "wp add_headers (\<lambda>_. built (request_text s (url_host url) (if proxyhost s = None then url_path url else url)) s2) s''"
      unfolding s2 by (subst (asm) whole) simp_all
    then show ?thesis
      unfolding wp_seqP
      by (rule wp_mono)
        (use s2 h in \<open>auto simp: wp_bindP wp_gets wp_printf built_def settings_of_def is_text_c_str\<close>)
  qed
  obtain s' where b: "built (?m @ '' '') ?s1 s'" and run: "build_request os url s = finish_request os url s'"
    using build_request_start by blast
  show ?thesis
    apply (rule wp_via [of "build_request os url" _ "finish_request os url", OF run])
    apply (unfold finish_request_def wp_bindP [of "check_url os url"])
    apply (rule wpI [OF check_url_valid [OF assms(1)]])
    apply (simp only: wp_seqP [of "bindP (gets proxyhost) _"])
    apply (rule wp_mono [OF target [OF b]], elim exE conjE)
    apply (rule headers, assumption+)
    done
qed

section \<open>Properties\<close>

text \<open>
  C7: The buffers suffice and the request is right: for every URL that is accepted, with a host below
  64 bytes and a port below 10 (or a proxy), \<open>build_request\<close> returns without writing outside its
  buffers, and the request is the reference text: the method, the path (or the whole URL for a
  proxy), the version the method needs, and the header lines in their order.
\<close>

theorem request_built:
  assumes "valid_url url" and "proxyhost s \<noteq> None \<or> length (url_host url) < MAXHOSTNAMELEN \<and> (\<forall>p \<in> set_option (url_port url). length p < 10)"
  shows "\<exists>s'. build_request os url s = Some (Ret (), s') \<and> length (request s') = REQUEST_SIZE \<and>
     c_str (request s') = request_text s (url_host url) (if proxyhost s = None then url_path url else url) \<and> http10 s' = http_version s"
  using wp_build_request [of url s os] assms by (auto simp: wp_iff)

definition ex_bench :: "(sim, unit) webbench_scheme" where
  "ex_bench = \<lparr>heap = NULL, tmem = (\<lambda>_. None), world = \<lparr>sim_open = [0, 1, 2], sim_watch = (\<lambda>_ _. None), sim_waiting = 0,
     sim_chunks = [], sim_batches = []\<rparr>, calls = [], timerexpired = 0, speed = 0, failed = 0, bytes = 0, http10 = 1,
     http_method = METHOD_OPTIONS, clients = 1, force = 0, force_reload = 0, proxyport = 80, proxyhost = None, benchtime = 30,
     host = [], request = []\<rparr>"

theorem request_built_witness:
  "\<exists>s'. build_request sim_os ''http://a.b:8080/x'' ex_bench = Some (Ret (), s') \<and>
     c_str (request s') = ''OPTIONS /x HTTP/1.1'' @ CRLF @ ''User-Agent: WebBench 1.5'' @ CRLF @ ''Host: a.b'' @ CRLF @
       ''Connection: close'' @ CRLF @ CRLF"
proof -
  have "valid_url ''http://a.b:8080/x''" "length (url_host ''http://a.b:8080/x'') < MAXHOSTNAMELEN"
    "url_port ''http://a.b:8080/x'' = Some ''8080''" by code_simp+
  moreover have "proxyhost ex_bench = None" by (simp add: ex_bench_def)
  ultimately obtain s' where run: "build_request sim_os ''http://a.b:8080/x'' ex_bench = Some (Ret (), s')"
    and text_is: "c_str (request s') = request_text ex_bench (url_host ''http://a.b:8080/x'')
      (if proxyhost ex_bench = None then url_path ''http://a.b:8080/x'' else ''http://a.b:8080/x'')"
    using request_built [of "''http://a.b:8080/x''" ex_bench sim_os] by auto
  have "c_str (request s') = ''OPTIONS /x HTTP/1.1'' @ CRLF @ ''User-Agent: WebBench 1.5'' @ CRLF @ ''Host: a.b'' @ CRLF @
      ''Connection: close'' @ CRLF @ CRLF"
    unfolding text_is by code_simp
  with run show ?thesis by blast
qed

text \<open>A URL put together from its parts.\<close>

definition make_url :: "string \<Rightarrow> int \<Rightarrow> string \<Rightarrow> string" where
  "make_url h p path = ''http://'' @ h @ '':'' @ show_int p @ ''/'' @ path"

lemma length_show_nat: "n < 10 ^ k \<Longrightarrow> 0 < k \<Longrightarrow> length (show_nat n) \<le> k"
proof (induction n arbitrary: k rule: show_nat.induct)
  case (1 n)
  show ?case
  proof (cases "n < 10")
    case True
    then show ?thesis using 1(3) by (simp add: show_nat.simps [of n])
  next
    case False
    then obtain j where j: "k = Suc j" "0 < j" using 1(2,3) by (cases k; cases "k - 1") auto
    then have "n div 10 < 10 ^ j" using 1(2) by auto
    then show ?thesis using 1(1) [OF False _ j(2)] j False by (simp add: show_nat.simps [of n])
  qed
qed

lemma make_url_parts:
  assumes "set h \<inter> {NUL, CHR '':'', CHR ''/''} = {}" and "NUL \<notin> set path" and "0 < p" and "p \<le> 65535"
    and "length h < MAXHOSTNAMELEN" and "length path \<le> 1400"
  shows "valid_url (make_url h p path)" and "url_host (make_url h p path) = h"
    and "url_port (make_url h p path) = Some (show_int p)" and "url_path (make_url h p path) = CHR ''/'' # path"
proof -
  let ?n = "show_nat (nat p)" and ?u = "make_url h p path"
  have num: "show_int p = ?n" using assms(3) by (simp add: show_int_def)
  have len: "length ?n \<le> 5" by (rule length_show_nat) (use assms(4) in auto)
  have digits: "c \<noteq> NUL \<and> c \<noteq> CHR '':'' \<and> c \<noteq> CHR ''/''" if "c \<in> set ?n" for c
    using that show_nat_digits [of "nat p"] digit_no_blank [of c] by (auto simp: list_all_iff)
  have start: "strstr ?u ''://'' = Some 4" by (simp add: make_url_def)
  then have rest: "url_rest ?u = h @ CHR '':'' # ?n @ CHR ''/'' # path" by (simp add: url_rest_def make_url_def num)
  have slash: "strchr (url_rest ?u) (CHR ''/'') = Some (length (h @ CHR '':'' # ?n))"
    using strchr_append [of "CHR ''/''" "h @ CHR '':'' # ?n" path] assms(1) digits unfolding rest by auto
  have colon: "strchr (url_rest ?u) (CHR '':'') = Some (length h)"
    using strchr_append [of "CHR '':''" h "?n @ CHR ''/'' # path"] assms(1) unfolding rest by auto
  show "valid_url ?u"
    using start slash len assms digits
    by (auto simp: valid_url_def has_prefix_nocase_def MAXHOSTNAMELEN_def make_url_def num)
  show "url_host ?u = h" "url_port ?u = Some (show_int p)" "url_path ?u = CHR ''/'' # path"
    using slash colon unfolding url_host_def url_port_def url_path_def url_colon_def url_slash_def by (simp_all add: rest num)
qed

lemma atoi_show_int: "- (2 ^ 31) \<le> i \<Longrightarrow> i < 2 ^ 31 \<Longrightarrow> atoi (show_int i) = i"
  using parse_show_int [of i "[]"] by (simp add: atoi_def)

text \<open>
  C27: Round trip: from a URL written for a host, a port and a path, \<open>build_request\<close> recovers exactly
  the host (into its buffer), the port and, as the target of the request, the path.
\<close>

theorem url_roundtrip:
  assumes "set h \<inter> {NUL, CHR '':'', CHR ''/''} = {}" and "NUL \<notin> set path" and "0 < p" and "p \<le> 65535"
    and "length h < MAXHOSTNAMELEN" and "length path \<le> 1400" and "proxyhost s = None"
  shows "\<exists>s'. build_request os (make_url h p path) s = Some (Ret (), s') \<and> c_str (host s') = h \<and> proxyport s' = p \<and>
     c_str (request s') = request_text s h (CHR ''/'' # path)"
proof -
  note parts = make_url_parts [OF assms(1-6)]
  have short: "length (show_int p) < 10"
  proof -
    have "length (show_nat (nat p)) \<le> 5" by (rule length_show_nat) (use assms(4) in auto)
    then show ?thesis using assms(3) by (simp add: show_int_def)
  qed
  have "atoi (show_int p) = p" by (rule atoi_show_int) (use assms(3,4) in auto)
  then show ?thesis
    using wp_build_request [of "make_url h p path" s os] parts assms(3,5,7) short by (auto simp: wp_iff port_number_def)
qed

theorem url_roundtrip_witness:
  "\<exists>s'. build_request sim_os (make_url ''localhost'' 8080 ''index.html'') ex_bench = Some (Ret (), s') \<and>
     c_str (host s') = ''localhost'' \<and> proxyport s' = 8080"
  using url_roundtrip [of "''localhost''" "''index.html''" 8080 ex_bench sim_os] by (auto simp: MAXHOSTNAMELEN_def ex_bench_def)

text \<open>
  C39: A host of more than 64 bytes overruns its buffer: nothing bounds the copy by the buffer's size,
  so such a URL, accepted by every check, makes \<open>build_request\<close> write outside \<open>host\<close>.
\<close>

theorem long_host_overflows:
  assumes "valid_url url" and "proxyhost s = None" and "MAXHOSTNAMELEN < length (url_host url)"
  shows "\<exists>s'. build_request os url s = Some (Fault OutOfBounds, s')"
proof -
  let ?n = "case url_colon url of Some c \<Rightarrow> c | None \<Rightarrow> url_slash url"
  have "MAXHOSTNAMELEN < ?n" using assms(3) by (simp add: url_host_def)
  then have host: "strncpy_host (url_rest url) ?n s' = Some (Fault OutOfBounds, s')" for s' :: "('a, 'b) webbench_scheme"
    by (simp add: strncpy_host_def run_simps)
  have overflow: "take_host (url_rest url) s' = Some (Fault OutOfBounds, s')" for s' :: "('a, 'b) webbench_scheme"
  proof (cases "url_colon url")
    case None
    with host [of s'] show ?thesis by (simp add: take_host_plain [OF assms(1) None] seqP_run bindP_run)
  next
    case (Some c)
    with host [of s'] show ?thesis by (simp add: take_host_port [OF assms(1) Some] seqP_run bindP_run)
  qed
  obtain s' where b: "built (method_name (http_method s) @ '' '') (s\<lparr>host := replicate MAXHOSTNAMELEN NUL, http10 := http_version s\<rparr>) s'"
    and run: "build_request os url s = finish_request os url s'"
    using build_request_start by blast
  have p: "proxyhost s' = None" using built_fields [OF b] assms(2) by simp
  have "finish_request os url s' = Some (Fault OutOfBounds, s')"
    using overflow [unfolded url_rest_def] p
    by (simp add: finish_request_def bindP_run [of "check_url os url"] check_url_valid [OF assms(1)] seqP_run
        bindP_run [of "bindP _ _"] bindP_run [of "gets _"] gets_run)
  then show ?thesis unfolding run by blast
qed

theorem long_host_overflows_witness:
  "\<exists>s'. build_request sim_os (make_url (replicate 63 (CHR ''a'') @ ''.b'') 80 []) ex_bench = Some (Fault OutOfBounds, s')"
proof -
  have "valid_url (make_url (replicate 63 (CHR ''a'') @ ''.b'') 80 [])"
    "MAXHOSTNAMELEN < length (url_host (make_url (replicate 63 (CHR ''a'') @ ''.b'') 80 []))"
    by code_simp+
  then show ?thesis by (intro long_host_overflows) (simp_all add: ex_bench_def)
qed

end
