(* ===== verification/WebProps.thy ===== *)
theory WebProps
  imports WebUrl
begin

text \<open>
  The measuring loop of a child, the collecting loop of the parent and the command line of WebBench.
\<close>

section \<open>Accounting of a child\<close>

text \<open>
  The alarm comes: \<open>left\<close> never grows, and every point at which no signal has arrived uses some of it up.
\<close>

definition alarm_ok :: "'w kernel \<Rightarrow> ('w \<Rightarrow> nat) \<Rightarrow> bool" where
  "alarm_ok os left \<longleftrightarrow> (\<forall>c w. left (snd (os c w)) \<le> left w) \<and>
     (\<forall>w. rv (fst (os (Stdio Signal_point) w)) = 0 \<longrightarrow> left (snd (os (Stdio Signal_point) w)) < left w)"

definition attempts :: "string \<Rightarrow> (call \<times> answer) list \<Rightarrow> nat" where
  "attempts h log = length (filter (\<lambda>ca. fst ca = Name (Inet_addr h)) log)"

fun bytes_read :: "call \<times> answer \<Rightarrow> 32 word" where
  "bytes_read (Read fd n, a) = (if 0 < rv a then word_of_int (rv a) else 0)"
| "bytes_read (c, a) = 0"

text \<open>
  The books since \<open>s0\<close>, with \<open>d\<close> attempts not yet counted, and at most \<open>n\<close> left.
\<close>

definition booked :: "string \<Rightarrow> ('w \<Rightarrow> nat) \<Rightarrow> ('w, 'a) webbench_scheme \<Rightarrow> nat \<Rightarrow> nat \<Rightarrow> ('w, 'a) webbench_scheme \<Rightarrow> bool" where
  "booked h left s0 n d s \<longleftrightarrow> left (world s) \<le> n \<and> (\<exists>log. calls s = log @ calls s0 \<and>
     speed s + failed s + of_nat d = speed s0 + failed s0 + of_nat (attempts h log) \<and>
     bytes s = bytes s0 + sum_list (map bytes_read log))"

fun neutral :: "string \<Rightarrow> call \<Rightarrow> bool" where
  "neutral h (Name (Inet_addr g)) = (g \<noteq> h)"
| "neutral h (Read fd n) = False"
| "neutral h (Stdio Signal_point) = False"
| "neutral h c = True"

lemma booked_call:
  assumes "alarm_ok os left" and "booked h left s0 n d s" and "neutral h c"
    and "\<And>a s'. a = fst (os c (world s)) \<Longrightarrow> booked h left s0 n d s' \<Longrightarrow> wp (f a) Q s'"
  shows "wp (bindP (sys os c) f) Q s"
proof -
  let ?a = "fst (os c (world s))" and ?w = "snd (os c (world s))"
  have none: "c \<noteq> Name (Inet_addr h)" "bytes_read (c, a) = 0" for a
    using assms(3) by (cases "(h, c)" rule: neutral.cases; auto)+
  have "left ?w \<le> n" using assms(1,2) by (auto simp: alarm_ok_def booked_def intro: le_trans)
  moreover obtain log where "calls s = log @ calls s0"
     "speed s + failed s + of_nat d = speed s0 + failed s0 + of_nat (attempts h log)" "bytes s = bytes s0 + sum_list (map bytes_read log)"
    using assms(2) by (auto simp: booked_def)
  ultimately have "booked h left s0 n d (s\<lparr>world := ?w, calls := (c, ?a) # calls s\<rparr>)"
    using none by (auto simp: booked_def attempts_def intro!: exI [of _ "(c, ?a) # log"])
  with assms(4) show ?thesis by (simp add: wp_bindP wp_sys)
qed

lemma booked_resolve:
  assumes "alarm_ok os left" and "booked h left s0 n d s"
    and "\<And>a s'. a = fst (os (Name (Inet_addr h)) (world s)) \<Longrightarrow> booked h left s0 n (Suc d) s' \<Longrightarrow> wp (f a) Q s'"
  shows "wp (bindP (sys os (Name (Inet_addr h))) f) Q s"
proof -
  let ?c = "Name (Inet_addr h)"
  let ?a = "fst (os ?c (world s))" and ?w = "snd (os ?c (world s))"
  have "left ?w \<le> n" using assms(1,2) by (auto simp: alarm_ok_def booked_def intro: le_trans)
  moreover obtain log where "calls s = log @ calls s0"
     "speed s + failed s + of_nat d = speed s0 + failed s0 + of_nat (attempts h log)" "bytes s = bytes s0 + sum_list (map bytes_read log)"
    using assms(2) by (auto simp: booked_def)
  ultimately have "booked h left s0 n (Suc d) (s\<lparr>world := ?w, calls := (?c, ?a) # calls s\<rparr>)"
    by (auto simp: booked_def attempts_def algebra_simps intro!: exI [of _ "(?c, ?a) # log"])
  with assms(3) show ?thesis by (simp add: wp_bindP wp_sys)
qed

lemma booked_read:
  assumes "alarm_ok os left" and "booked h left s0 n d s"
    and "\<And>a s'. a = fst (os (Read fd k) (world s)) \<Longrightarrow>
      booked h left s0 n d (s'\<lparr>bytes := bytes s' + (if 0 < rv a then word_of_int (rv a) else 0)\<rparr>) \<Longrightarrow> wp (f a) Q s'"
  shows "wp (bindP (sys os (Read fd k)) f) Q s"
proof -
  let ?c = "Read fd k"
  let ?a = "fst (os ?c (world s))" and ?w = "snd (os ?c (world s))"
  have "left ?w \<le> n" using assms(1,2) by (auto simp: alarm_ok_def booked_def intro: le_trans)
  moreover obtain log where "calls s = log @ calls s0"
     "speed s + failed s + of_nat d = speed s0 + failed s0 + of_nat (attempts h log)" "bytes s = bytes s0 + sum_list (map bytes_read log)"
    using assms(2) by (auto simp: booked_def)
  ultimately have "booked h left s0 n d (s\<lparr>world := ?w, calls := (?c, ?a) # calls s, bytes := bytes s + (if 0 < rv ?a then word_of_int (rv ?a) else 0)\<rparr>)"
    by (auto simp: booked_def attempts_def algebra_simps intro!: exI [of _ "(?c, ?a) # log"])
  with assms(3) show ?thesis by (simp add: wp_bindP wp_sys)
qed

lemma booked_timer:
  assumes "alarm_ok os left" and "booked h left s0 n d s"
  shows "wp (timer_expired os) (\<lambda>t s'. t = (timerexpired s' \<noteq> 0) \<and> booked h left s0 n d s' \<and>
     (\<not> t \<longrightarrow> 0 < n \<and> booked h left s0 (n - 1) d s')) s"
proof -
  let ?c = "Stdio Signal_point"
  let ?a = "fst (os ?c (world s))" and ?w = "snd (os ?c (world s))"
  have le: "left ?w \<le> n" "rv ?a = 0 \<Longrightarrow> left ?w < n" using assms by (auto simp: alarm_ok_def booked_def intro: le_trans less_le_trans)
  obtain log where "calls s = log @ calls s0"
     "speed s + failed s + of_nat d = speed s0 + failed s0 + of_nat (attempts h log)" "bytes s = bytes s0 + sum_list (map bytes_read log)"
    using assms(2) by (auto simp: booked_def)
  then have "booked h left s0 m d (s\<lparr>world := ?w, calls := (?c, ?a) # calls s\<rparr>)" if "left ?w \<le> m" for m
    using that by (auto simp: booked_def attempts_def intro!: exI [of _ "(?c, ?a) # log"])
  moreover have "booked h left s0 m d (t\<lparr>timerexpired := x\<rparr>) = booked h left s0 m d t" for m t x by (simp add: booked_def)
  ultimately show ?thesis
    using le by (auto simp: timer_expired_def alarm_handler_def wp_simps)
qed

lemma booked_failed: "booked h left s0 n (Suc d) s \<Longrightarrow> wp count_failed (\<lambda>_. booked h left s0 n d) s"
  by (auto simp: count_failed_def wp_modify booked_def algebra_simps)

lemma booked_mono: "booked h left s0 n d s \<Longrightarrow> n \<le> m \<Longrightarrow> booked h left s0 m d s"
  by (auto simp: booked_def)

lemma booked_socket:
  assumes "alarm_ok os left" and "booked h left s0 n d s"
  shows "wp (bench_socket os h port) (\<lambda>_. booked h left s0 n (Suc d)) s"
  unfolding bench_socket_def
  by (rule booked_resolve [OF assms])
    (auto simp: wp_bindP [of "if _ then _ else _"] wp_if wp_ret intro!: booked_call [OF assms(1)])

lemma booked_close:
  assumes "alarm_ok os left" and "booked h left s0 n d s"
  shows "wp (bindP (sys os (Close fd)) (\<lambda>_. ret x)) (\<lambda>r s'. r = x \<and> booked h left s0 n d s') s"
  by (rule booked_call [OF assms]) (simp_all add: wp_ret)

lemma wp_read_answer: "wp (read_answer os fd) Q s = wp (bindP (timer_expired os) (\<lambda>t. ifP t (ret False)
      (bindP (sys os (Read fd 1500)) (\<lambda>i.
        ifP (rv i < 0) (seqP count_failed (seqP (bindP (sys os (Close fd)) (\<lambda>_. ret ())) (ret True)))
         (ifP (rv i = 0) (ret False)
           (seqP (modify (\<lambda>s. s\<lparr>bytes := bytes s + word_of_int (rv i)\<rparr>)) (read_answer os fd))))))) Q s"
  unfolding wp_def by (subst read_answer.simps) (rule refl)

lemma wp_bench_loop: "wp (bench_loop os h port req) Q s =
    wp (bindP (timer_expired os) (\<lambda>t. ifP t correct_failed (seqP (attempt os h port req) (bench_loop os h port req)))) Q s"
  unfolding wp_def by (subst bench_loop.simps) (rule refl)

lemma booked_answer:
  assumes "alarm_ok os left" and "booked h left s0 n 1 s"
  shows "wp (read_answer os fd) (\<lambda>again. booked h left s0 n (if again then 0 else 1)) s"
  using assms(2)
proof (induction n arbitrary: s rule: less_induct)
  case (less n)
  have up: "booked h left s0 n d t" if "booked h left s0 (n - 1) d t" for d t
    by (rule booked_mono [OF that]) simp
  have rest: "wp (bindP (sys os (Read fd 1500)) (\<lambda>i.
        ifP (rv i < 0) (seqP count_failed (seqP (bindP (sys os (Close fd)) (\<lambda>_. ret ())) (ret True)))
         (ifP (rv i = 0) (ret False)
           (seqP (modify (\<lambda>s. s\<lparr>bytes := bytes s + word_of_int (rv i)\<rparr>)) (read_answer os fd)))))
      (\<lambda>again. booked h left s0 n (if again then 0 else 1)) s'"
    if "0 < n" "booked h left s0 (n - 1) 1 s'" for s'
  proof (rule booked_read [OF assms(1) that(2)])
    fix a s''
    assume b: "booked h left s0 (n - 1) 1 (s''\<lparr>bytes := bytes s'' + (if 0 < rv a then word_of_int (rv a) else 0)\<rparr>)"
    have fail: "wp (seqP count_failed (seqP (bindP (sys os (Close fd)) (\<lambda>_. ret ())) (ret True)))
        (\<lambda>again. booked h left s0 n (if again then 0 else 1)) s''" if "booked h left s0 (n - 1) 1 s''"
      unfolding wp_seqP
      by (rule wp_mono [OF booked_failed]) (use that up in \<open>auto simp: wp_ret intro!: wp_mono [OF booked_close [OF assms(1)]]\<close>)
    have again: "wp (read_answer os fd) (\<lambda>again. booked h left s0 n (if again then 0 else 1)) (s''\<lparr>bytes := bytes s'' + word_of_int (rv a)\<rparr>)"
      if "0 < rv a"
      using b that \<open>0 < n\<close> up by (auto intro!: wp_mono [OF less.IH [of "n - 1"]])
    show "wp (ifP (rv a < 0) (seqP count_failed (seqP (bindP (sys os (Close fd)) (\<lambda>_. ret ())) (ret True)))
         (ifP (rv a = 0) (ret False)
           (seqP (modify (\<lambda>s. s\<lparr>bytes := bytes s + word_of_int (rv a)\<rparr>)) (read_answer os fd))))
      (\<lambda>again. booked h left s0 n (if again then 0 else 1)) s''"
      using b fail again by (auto simp: wp_ifP wp_ret wp_seqP [of "modify _"] wp_modify intro!: up)
  qed
  show ?case
    unfolding wp_read_answer wp_bindP [of "timer_expired os"]
    by (rule wp_mono [OF booked_timer [OF assms(1) less.prems]]) (use rest in \<open>auto simp: wp_ifP wp_ret\<close>)
qed

lemma booked_attempt:
  assumes "alarm_ok os left" and "booked h left s0 n 0 s"
  shows "wp (attempt os h port req) (\<lambda>_. booked h left s0 n 0) s"
proof -
  have give_up: "wp (seqP count_failed (bindP (sys os (Close fd)) (\<lambda>_. ret ()))) (\<lambda>_. booked h left s0 n 0) s'"
    if "booked h left s0 n 1 s'" for fd s'
    unfolding wp_seqP
    by (rule wp_mono [OF booked_failed]) (use that in \<open>auto intro!: wp_mono [OF booked_close [OF assms(1)]]\<close>)
  have finish: "wp (bindP (sys os (Close fd)) (\<lambda>r. if rv r \<noteq> 0 then count_failed else modify (\<lambda>s. s\<lparr>speed := speed s + 1\<rparr>)))
      (\<lambda>_. booked h left s0 n 0) s'" if "booked h left s0 n 1 s'" for fd s'
    by (rule booked_call [OF assms(1) that])
      (auto simp: wp_modify booked_def algebra_simps intro!: booked_failed)
  have answer: "wp (bindP (gets force) (\<lambda>f. bindP (if f = 0 then read_answer os fd else ret False) (\<lambda>again.
      if again then ret () else bindP (sys os (Close fd)) (\<lambda>r. if rv r \<noteq> 0 then count_failed else modify (\<lambda>s. s\<lparr>speed := speed s + 1\<rparr>)))))
      (\<lambda>_. booked h left s0 n 0) s'" if "booked h left s0 n 1 s'" for fd s'
    unfolding wp_bindP [of "gets force"] wp_gets wp_bindP [of "if _ then _ else _"] wp_if wp_ret
    by (auto intro!: wp_mono [OF booked_answer [OF assms(1) that]] finish that split: if_splits)
  have shut: "wp (if v = 0 then bindP (sys os (Shutdown fd 1)) (\<lambda>r. ret (rv r \<noteq> 0)) else ret False) (\<lambda>_. booked h left s0 n 1) s'"
    if "booked h left s0 n 1 s'" for v :: int and fd s'
    using that by (auto simp: wp_ret intro!: booked_call [OF assms(1)])
  have send: "wp (bindP (sys os (Write fd req)) (\<lambda>r.
         if rv r \<noteq> int (length req) then seqP count_failed (bindP (sys os (Close fd)) (\<lambda>_. ret ()))
         else bindP (gets http10) (\<lambda>v.
           bindP (if v = 0 then bindP (sys os (Shutdown fd 1)) (\<lambda>r. ret (rv r \<noteq> 0)) else ret False) (\<lambda>bad.
             if bad then seqP count_failed (bindP (sys os (Close fd)) (\<lambda>_. ret ()))
             else bindP (gets force) (\<lambda>f. bindP (if f = 0 then read_answer os fd else ret False) (\<lambda>again.
               if again then ret ()
               else bindP (sys os (Close fd)) (\<lambda>r.
                 if rv r \<noteq> 0 then count_failed
                 else modify (\<lambda>s. s\<lparr>speed := speed s + 1\<rparr>)))))))) (\<lambda>_. booked h left s0 n 0) s'"
    if "booked h left s0 n 1 s'" for fd s'
  proof (rule booked_call [OF assms(1) that])
    fix a s''
    assume b: "booked h left s0 n 1 s''"
    show "wp (if rv a \<noteq> int (length req) then seqP count_failed (bindP (sys os (Close fd)) (\<lambda>_. ret ()))
         else bindP (gets http10) (\<lambda>v.
           bindP (if v = 0 then bindP (sys os (Shutdown fd 1)) (\<lambda>r. ret (rv r \<noteq> 0)) else ret False) (\<lambda>bad.
             if bad then seqP count_failed (bindP (sys os (Close fd)) (\<lambda>_. ret ()))
             else bindP (gets force) (\<lambda>f. bindP (if f = 0 then read_answer os fd else ret False) (\<lambda>again.
               if again then ret ()
               else bindP (sys os (Close fd)) (\<lambda>r.
                 if rv r \<noteq> 0 then count_failed
                 else modify (\<lambda>s. s\<lparr>speed := speed s + 1\<rparr>))))))) (\<lambda>_. booked h left s0 n 0) s''"
    proof (cases "rv a \<noteq> int (length req)")
      case True
      show ?thesis unfolding if_P [OF True] by (rule give_up [OF b])
    next
      case False
      show ?thesis
        unfolding if_not_P [OF False] wp_bindP [of "gets http10"] wp_gets wp_bindP [of "if _ then _ else _"]
        by (rule wp_mono [OF shut [OF b]]) (simp only: wp_if give_up answer if_cancel)
    qed
  qed simp
  show ?thesis
    unfolding attempt_def wp_bindP [of "bench_socket os h port"]
    by (rule wp_mono [OF booked_socket [OF assms]]) (use send booked_failed in \<open>auto simp: wp_if\<close>)
qed

lemma booked_loop:
  assumes "alarm_ok os left" and "booked h left s0 n 0 s"
  shows "wp (bench_loop os h port req) (\<lambda>_ s'. \<exists>c. timerexpired s' \<noteq> 0 \<and> c \<le> 1 \<and> (c = 0 \<longrightarrow> \<not> 0 <s failed s') \<and>
     booked h left s0 n 0 (s'\<lparr>failed := failed s' + of_nat c\<rparr>)) s"
  using assms(2)
proof (induction n arbitrary: s rule: less_induct)
  case (less n)
  have stop: "wp correct_failed (\<lambda>_ s'. \<exists>c. timerexpired s' \<noteq> 0 \<and> c \<le> 1 \<and> (c = 0 \<longrightarrow> \<not> 0 <s failed s') \<and>
     booked h left s0 n 0 (s'\<lparr>failed := failed s' + of_nat c\<rparr>)) s'" if "booked h left s0 n 0 s'" "timerexpired s' \<noteq> 0" for s'
    using that
    by (cases "0 <s failed s'") (auto simp: correct_failed_def wp_modify booked_def intro: exI [of _ 0] exI [of _ "1 :: nat"])
  have more: "wp (seqP (attempt os h port req) (bench_loop os h port req)) (\<lambda>_ s'. \<exists>c. timerexpired s' \<noteq> 0 \<and> c \<le> 1 \<and> (c = 0 \<longrightarrow> \<not> 0 <s failed s') \<and>
     booked h left s0 n 0 (s'\<lparr>failed := failed s' + of_nat c\<rparr>)) s'" if "0 < n" "booked h left s0 (n - 1) 0 s'" for s'
    unfolding wp_seqP
  proof (rule wp_mono [OF booked_attempt [OF assms(1) that(2)]])
    fix s'' :: "('a, 'b) webbench_scheme"
    assume "booked h left s0 (n - 1) 0 s''"
    then have "wp (bench_loop os h port req) (\<lambda>_ s'. \<exists>c. timerexpired s' \<noteq> 0 \<and> c \<le> 1 \<and> (c = 0 \<longrightarrow> \<not> 0 <s failed s') \<and>
       booked h left s0 (n - 1) 0 (s'\<lparr>failed := failed s' + of_nat c\<rparr>)) s''"
      using less.IH [of "n - 1" s''] \<open>0 < n\<close> by simp
    then show "wp (bench_loop os h port req) (\<lambda>_ s'. \<exists>c. timerexpired s' \<noteq> 0 \<and> c \<le> 1 \<and> (c = 0 \<longrightarrow> \<not> 0 <s failed s') \<and>
       booked h left s0 n 0 (s'\<lparr>failed := failed s' + of_nat c\<rparr>)) s''"
      by (rule wp_mono) (use booked_mono [of h left s0 "n - 1" 0 _ n] in \<open>auto simp del: One_nat_def\<close>)
  qed
  show ?case
    unfolding wp_bench_loop wp_bindP
    by (rule wp_mono [OF booked_timer [OF assms(1) less.prems]]) (use stop more in \<open>auto simp: wp_ifP\<close>)
qed

text \<open>
  C13: A child's measurement ends and its books balance: once the alarm comes, the loop returns; every
  attempt to connect is counted exactly once, as succeeded or as failed, except for at most one
  failure that is taken back for the alarm; and the bytes counted are the bytes read.
\<close>

theorem benchcore_accounts:
  assumes "alarm_ok os left" and "\<forall>w. rv (fst (os (Proc (Sigaction SIGALRM)) w)) = 0"
  shows "\<exists>s' log c. benchcore os h port req s = Some (Ret (), s') \<and> timerexpired s' \<noteq> 0 \<and> calls s' = log @ calls s \<and>
     c \<le> (1 :: nat) \<and> (c = 0 \<longrightarrow> \<not> 0 <s failed s') \<and>
     speed s' + failed s' + of_nat c = speed s + failed s + of_nat (attempts h log) \<and>
     bytes s' = bytes s + sum_list (map bytes_read log)"
proof -
  have start: "booked h left s (left (world s)) 0 s" by (simp add: booked_def attempts_def)
  have loop: "wp (bench_loop os h port req) (\<lambda>_ s'. \<exists>c. timerexpired s' \<noteq> 0 \<and> c \<le> 1 \<and> (c = 0 \<longrightarrow> \<not> 0 <s failed s') \<and>
     booked h left s (left (world s)) 0 (s'\<lparr>failed := failed s' + of_nat c\<rparr>)) s'" if "booked h left s (left (world s)) 0 s'" for s'
    by (rule booked_loop [OF assms(1) that])
  have "wp (benchcore os h port req) (\<lambda>_ s'. \<exists>c. timerexpired s' \<noteq> 0 \<and> c \<le> 1 \<and> (c = 0 \<longrightarrow> \<not> 0 <s failed s') \<and>
     booked h left s (left (world s)) 0 (s'\<lparr>failed := failed s' + of_nat c\<rparr>)) s"
    unfolding benchcore_def
    by (rule booked_call [OF assms(1) start], simp)
      (use assms(2) loop in \<open>auto simp: wp_bindP [of "gets _"] wp_gets intro!: booked_call [OF assms(1)]\<close>)
  then show ?thesis by (force simp: wp_iff booked_def add.assoc)
qed

text \<open>A kernel on which the alarm comes after a number of tests, and every attempt is answered by an empty page.\<close>

fun alarm_os :: "nat kernel" where
  "alarm_os (Stdio Signal_point) n = (if n = 0 then (reply 1 0, 0) else (reply 0 0, n - 1))"
| "alarm_os Socket n = (reply 5 0, n)"
| "alarm_os (Write fd bs) n = (reply (int (length bs)) 0, n)"
| "alarm_os c n = (reply 0 0, n)"

lemma alarm_os_ok: "alarm_ok alarm_os (\<lambda>n. n)"
proof -
  have "snd (alarm_os c n) \<le> n" for c n by (cases "(c, n)" rule: alarm_os.cases) auto
  moreover have "snd (alarm_os (Stdio Signal_point) n) < n" if "rv (fst (alarm_os (Stdio Signal_point) n)) = 0" for n
    using that by (cases "n = 0") (auto simp: reply_def)
  ultimately show ?thesis by (simp add: alarm_ok_def)
qed

text \<open>A benchmark's globals on a world of any kind.\<close>

definition bench_on :: "'w \<Rightarrow> int \<Rightarrow> ('w, unit) webbench_scheme" where
  "bench_on w n = \<lparr>heap = NULL, tmem = (\<lambda>_. None), world = w, calls = [], timerexpired = 0, speed = 0, failed = 0, bytes = 0,
     http10 = 1, http_method = METHOD_GET, clients = n, force = 0, force_reload = 0, proxyport = 80, proxyhost = Some ''h'',
     benchtime = 30, host = [], request = []\<rparr>"

theorem benchcore_accounts_witness:
  "\<exists>s' log c. benchcore alarm_os ''h'' 80 ''GET'' (bench_on 7 1) = Some (Ret (), s') \<and> c \<le> (1 :: nat) \<and>
     speed s' + failed s' + of_nat c = of_nat (attempts ''h'' log)"
  using benchcore_accounts [OF alarm_os_ok, of "''h''" 80 "''GET''" "bench_on 7 1"]
  by (auto simp: reply_def bench_on_def)

section \<open>Collecting\<close>

text \<open>The pipe: each \<open>fscanf\<close> on it consumes the next line written.\<close>

definition pipe_ok :: "'w kernel \<Rightarrow> int \<Rightarrow> ('w \<Rightarrow> string list) \<Rightarrow> bool" where
  "pipe_ok os f lines \<longleftrightarrow> f \<noteq> 0 \<and> (\<forall>w. rv (fst (os (Stdio (Fdopen Read_end ''r'')) w)) = f) \<and>
     (\<forall>w. data_in (fst (os (Stdio (Fscanf f)) w)) = (case lines w of [] \<Rightarrow> [] | l # _ \<Rightarrow> l) \<and>
       lines (snd (os (Stdio (Fscanf f)) w)) = tl (lines w)) \<and>
     (\<forall>c w. c \<noteq> Stdio (Fscanf f) \<longrightarrow> lines (snd (os c w)) = lines w)"

type_synonym result = "32 word \<times> 32 word \<times> 32 word"

definition result_line :: "result \<Rightarrow> string" where
  "result_line r = report_line (fst r) (fst (snd r)) (snd (snd r))"

lemma scan_report: "scan_ints 3 (report_line a b c) = [sint a, sint b, sint c]"
proof -
  have range: "- (2 ^ 31) \<le> sint w \<and> sint w < 2 ^ 31" for w :: "32 word"
    using sint_ge [of w] sint_lt [of w] by simp
  have blank: "\<not> is_digit (CHR '' '')" "is_space (CHR '' '')" "\<not> is_digit (CHR 0x0A)" by (simp_all add: is_digit_def is_space_def)
  have "parse_int (report_line a b c) = Some (sint a, CHR '' '' # show_int (sint b) @ '' '' @ show_int (sint c) @ [CHR 0x0A])"
    unfolding report_line_def by (subst parse_show_int) (use range blank in auto)
  moreover have "parse_int (CHR '' '' # show_int (sint b) @ '' '' @ show_int (sint c) @ [CHR 0x0A]) =
      Some (sint b, CHR '' '' # show_int (sint c) @ [CHR 0x0A])"
    unfolding parse_int_blank [OF blank(2)] by (subst parse_show_int) (use range blank in auto)
  moreover have "parse_int (CHR '' '' # show_int (sint c) @ [CHR 0x0A]) = Some (sint c, [CHR 0x0A])"
    unfolding parse_int_blank [OF blank(2)] by (subst parse_show_int) (use range blank in auto)
  ultimately show ?thesis by (simp add: eval_nat_numeral)
qed

lemma wp_collect: "wp (collect os f i j k) Q s = wp (bindP (sys os (Stdio (Fscanf f))) (\<lambda>a.
     bindP (ret (scan_ints 3 (data_in a))) (\<lambda>ns.
     bindP (ret (stored ns 0 i)) (\<lambda>i. bindP (ret (stored ns 1 j)) (\<lambda>j. bindP (ret (stored ns 2 k)) (\<lambda>k.
     ifP (length ns < 2) (seqP (printf os (''Some of our childrens died.'' @ [CHR 0x0A])) (ret i))
      (seqP (add_results i j k)
        (bindP (gets (\<lambda>s. clients s - 1)) (\<lambda>n. seqP (modify (\<lambda>s. s\<lparr>clients := n\<rparr>))
          (ifP (n = 0) (ret i) (collect os f i j k))))))))))) Q s"
  unfolding wp_def by (subst collect.simps) (rule refl)

lemma collect_sums:
  assumes "pipe_ok os f lines" and "lines (world s) = map result_line (r # rs)" and "clients s = int (length (r # rs))"
  shows "wp (collect os f i j k) (\<lambda>x s'. x = Some (sint (fst (last (r # rs)))) \<and>
     speed s' = speed s + sum_list (map fst (r # rs)) \<and> failed s' = failed s + sum_list (map (fst \<circ> snd) (r # rs)) \<and>
     bytes s' = bytes s + sum_list (map (snd \<circ> snd) (r # rs)) \<and> benchtime s' = benchtime s) s"
  using assms(2,3)
proof (induction rs arbitrary: r i j k s)
  case Nil
  then have "data_in (fst (os (Stdio (Fscanf f)) (world s))) = result_line r" using assms(1) by (simp add: pipe_ok_def)
  with Nil show ?case
    unfolding wp_collect
    by (simp add: wp_bindP wp_ret wp_sys wp_ifP wp_seqP wp_modify wp_gets add_results_def result_line_def scan_report stored_def)
next
  case (Cons r' rs)
  let ?c = "Stdio (Fscanf f)"
  let ?s = "s\<lparr>world := snd (os ?c (world s)), calls := (?c, fst (os ?c (world s))) # calls s,
    speed := speed s + fst r, failed := failed s + fst (snd r), bytes := bytes s + snd (snd r), clients := clients s - 1\<rparr>"
  have line: "data_in (fst (os ?c (world s))) = result_line r" "lines (snd (os ?c (world s))) = map result_line (r' # rs)"
    using assms(1) Cons.prems(1) by (simp_all add: pipe_ok_def)
  have "wp (collect os f i' j' k') (\<lambda>x s'. x = Some (sint (fst (last (r' # rs)))) \<and>
     speed s' = speed ?s + sum_list (map fst (r' # rs)) \<and> failed s' = failed ?s + sum_list (map (fst \<circ> snd) (r' # rs)) \<and>
     bytes s' = bytes ?s + sum_list (map (snd \<circ> snd) (r' # rs)) \<and> benchtime s' = benchtime ?s) ?s" for i' j' k'
    by (rule Cons.IH) (use line(2) Cons.prems(2) in simp_all)
  with line(1) Cons.prems(2) show ?case
    unfolding wp_collect [of os f i]
    by (simp add: wp_bindP wp_ret wp_sys wp_ifP wp_seqP wp_modify wp_gets add_results_def result_line_def scan_report stored_def add.assoc)
qed

text \<open>
  C26: The parent's totals are the sums of what its children measured: from the lines the children have
  written into the pipe it reads back exactly their counts, reports the sums, and returns - not a
  status, but the number of pages the last child to report has fetched.
\<close>

theorem parent_sums_children:
  assumes "pipe_ok os f lines" and "lines (world s) = map result_line rs" and "rs \<noteq> []" and "clients s = int (length rs)"
  shows "\<exists>s' a rest. run_parent os i s = Some (Ret (sint (fst (last rs))), s') \<and>
     speed s' = sum_list (map fst rs) \<and> failed s' = sum_list (map (fst \<circ> snd) rs) \<and> bytes s' = sum_list (map (snd \<circ> snd) rs) \<and>
     calls s' = (Stdio (Rates (sint (speed s' + failed s')) (sint (bytes s')) (benchtime s) (sint (speed s')) (sint (failed s'))), a) # rest"
proof -
  obtain r rs' where rs: "rs = r # rs'" using assms(3) by (cases rs) auto
  have f: "f \<noteq> 0" "rv (fst (os (Stdio (Fdopen Read_end ''r'')) w)) = f" for w using assms(1) by (auto simp: pipe_ok_def)
  have keep: "lines (snd (os c w)) = lines w" if "c \<noteq> Stdio (Fscanf f)" for c w using assms(1) that by (auto simp: pipe_ok_def)
  let ?w = "snd (os (Stdio (Setvbuf f)) (snd (os (Stdio (Fdopen Read_end ''r'')) (world s))))"
  have "lines ?w = map result_line (r # rs')" using assms(2) rs by (simp add: keep)
  then have "wp (collect os f (Some i) None None) (\<lambda>x s'. x = Some (sint (fst (last (r # rs')))) \<and>
     speed s' = speed t + sum_list (map fst (r # rs')) \<and> failed s' = failed t + sum_list (map (fst \<circ> snd) (r # rs')) \<and>
     bytes s' = bytes t + sum_list (map (snd \<circ> snd) (r # rs')) \<and> benchtime s' = benchtime t) t"
    if "world t = ?w" "clients t = clients s" for t :: "('a, 'b) webbench_scheme"
    by (intro collect_sums [OF assms(1)]) (use that assms(4) rs in auto)
  note collected = this
  let ?o = "Stdio (Fdopen Read_end ''r'')" and ?b = "Stdio (Setvbuf f)"
  let ?t = "s\<lparr>world := ?w, calls := (?b, fst (os ?b (snd (os ?o (world s))))) # (?o, fst (os ?o (world s))) # calls s,
    speed := 0, failed := 0, bytes := 0\<rparr>"
  obtain s' where "collect os f (Some i) None None ?t = Some (Ret (Some (sint (fst (last rs)))), s')"
    and "speed s' = sum_list (map fst rs)" "failed s' = sum_list (map (fst \<circ> snd) rs)" "bytes s' = sum_list (map (snd \<circ> snd) rs)"
      "benchtime s' = benchtime s"
    using collected [of ?t] rs by (auto simp: wp_iff)
  then show ?thesis by (simp add: run_parent_def run_simps f)
qed

text \<open>A pipe that holds the lines of a list.\<close>

fun pipe_os :: "string list kernel" where
  "pipe_os (Stdio (Fdopen e m)) ls = (reply 4 0, ls)"
| "pipe_os (Stdio (Fscanf f)) ls = (\<lparr>rv = 0, err = 0, data_in = (case ls of [] \<Rightarrow> [] | l # _ \<Rightarrow> l), events_in = []\<rparr>, if f = 4 then tl ls else ls)"
| "pipe_os c ls = (reply 0 0, ls)"

lemma pipe_os_ok: "pipe_ok pipe_os 4 (\<lambda>ls. ls)"
proof -
  have "snd (pipe_os c ls) = ls" if "c \<noteq> Stdio (Fscanf 4)" for c ls
    using that by (cases "(c, ls)" rule: pipe_os.cases) auto
  then show ?thesis by (simp add: pipe_ok_def reply_def split: list.splits)
qed

theorem parent_sums_children_witness:
  "\<exists>s'. run_parent pipe_os 2 (bench_on [''120 3 4096'' @ [CHR 0x0A], ''-1 0 7'' @ [CHR 0x0A]] 2) = Some (Ret (-1), s') \<and>
     speed s' = 119 \<and> failed s' = 3 \<and> bytes s' = 4103"
proof -
  have "map result_line [(120, 3, 4096), (-1, 0, 7)] = [''120 3 4096'' @ [CHR 0x0A], ''-1 0 7'' @ [CHR 0x0A]]"
    by code_simp
  then show ?thesis
    using parent_sums_children [OF pipe_os_ok, of "bench_on [''120 3 4096'' @ [CHR 0x0A], ''-1 0 7'' @ [CHR 0x0A]] 2" "[(120, 3, 4096), (-1, 0, 7)]" 2]
    by (auto simp: bench_on_def)
qed

section \<open>The command line\<close>

text \<open>
  A negative number of clients forks none: the command line accepts it, the forking loop does not
  run, and the process itself takes the part of a child: it measures, writes into a pipe nobody
  reads, and ends without a report.
\<close>

theorem negative_clients_run_as_child:
  assumes "clients s < 0" and "proxyhost s = Some h" and "bench_socket os h (proxyport s) s = Some (Ret i, s1)" and "0 \<le> i"
    and "\<forall>w. rv (fst (os (Stdio Pipe) w)) = 0" and "clients s1 = clients s"
  shows "\<exists>s2 a b. bench os s = run_child os h s2 \<and> calls s2 = (Stdio Pipe, a) # (Close i, b) # calls s1"
  using assms by (simp add: bench_def run_simps) (rule exI, rule conjI, rule refl, simp)

theorem negative_clients_run_as_child_witness:
  "\<exists>s2. bench alarm_os (bench_on 3 (-2)) = run_child alarm_os ''h'' s2"
proof -
  have "bench_socket alarm_os ''h'' 80 (bench_on 3 (-2)) =
      Some (Ret 5, (bench_on 3 (-2))\<lparr>calls := [(Connect 5 (le32 0) (htons 80), reply 0 0), (Socket, reply 5 0), (Name (Inet_addr ''h''), reply 0 0)]\<rparr>)"
    by (simp add: bench_socket_def run_simps bench_on_def reply_def INADDR_NONE_def)
  then show ?thesis
    using negative_clients_run_as_child [of "bench_on 3 (-2)" "''h''" alarm_os 5]
    by (auto simp: bench_on_def reply_def)
qed

text \<open>
  The argument of \<open>--proxy\<close> is split at its last colon: with text on both sides, the host is what
  stands before it and the port the number after it; with nothing before or nothing after, the
  program ends with status 2; without a colon it is the host and the port stays.
\<close>

theorem proxy_option_splits:
  assumes "CHR '':'' \<notin> set p"
  shows "\<exists>s' r. proxy_option os (h @ CHR '':'' # p) s = Some (Ret r, s') \<and>
     (if h = [] \<or> p = [] then r = Some 2
      else r = None \<and> s' = s\<lparr>proxyhost := Some h, proxyport := atoi p\<rparr>) \<and>
     proxy_option os p s = Some (Ret None, s\<lparr>proxyhost := Some p\<rparr>)"
proof -
  have "strrchr (h @ CHR '':'' # p) (CHR '':'') = Some (length h)" "strrchr p (CHR '':'') = None"
    using assms by (simp_all add: strrchr_append strrchr_None)
  then show ?thesis by (simp add: proxy_option_def run_simps printf_def)
qed

theorem proxy_option_splits_witness:
  "\<exists>s'. proxy_option sim_os ''proxy:with:3128'' ex_bench = Some (Ret None, s') \<and> proxyhost s' = Some ''proxy:with'' \<and> proxyport s' = 3128"
proof -
  have "atoi ''3128'' = 3128" by code_simp
  then show ?thesis using proxy_option_splits [of "''3128''" sim_os "''proxy:with''" ex_bench] by auto
qed

end
