(* ===== verification/WebParse.thy ===== *)
theory WebParse
  imports WebUrl
begin

text \<open>
  What a server reads in the request of WebBench: a parser of HTTP/1 requests, and that it recovers from
  the request buffer exactly the method, the target, the version and the header lines.
\<close>

section \<open>A parser of requests\<close>

text \<open>Lines end with CR LF; what follows the last line end is the last line.\<close>

fun crlf_lines :: "string \<Rightarrow> string list" where
  "crlf_lines (c # d # cs) = (if c = CHR 0x0D \<and> d = CHR 0x0A then [] # crlf_lines cs
     else (case crlf_lines (d # cs) of [] \<Rightarrow> [[c]] | l # ls \<Rightarrow> (c # l) # ls))"
| "crlf_lines cs = [cs]"

fun fields :: "char \<Rightarrow> string \<Rightarrow> string list" where
  "fields sep [] = [[]]"
| "fields sep (c # cs) = (if c = sep then [] # fields sep cs
     else (case fields sep cs of [] \<Rightarrow> [[c]] | l # ls \<Rightarrow> (c # l) # ls))"

text \<open>Method, target and version of the first line, and the header lines before the one empty line at the end.\<close>

definition parse_request :: "string \<Rightarrow> (string \<times> string \<times> string \<times> string list) option" where
  "parse_request t = (case crlf_lines t of
       [] \<Rightarrow> None
     | l # ls \<Rightarrow> let hs = take (length ls - 2) ls in
         if 2 \<le> length ls \<and> drop (length ls - 2) ls = [[], []] \<and> [] \<notin> set hs
         then (case fields (CHR '' '') l of [m, target, version] \<Rightarrow> Some (m, target, version, hs) | _ \<Rightarrow> None)
         else None)"

section \<open>Reading what was written\<close>

lemma crlf_lines_not_Nil: "crlf_lines t \<noteq> []"
  by (induction t rule: crlf_lines.induct) (auto split: list.splits)

lemma crlf_lines_line: "CHR 0x0D \<notin> set l \<Longrightarrow> crlf_lines (l @ CRLF @ r) = l # crlf_lines r"
proof (induction l)
  case Nil
  then show ?case by (simp add: CRLF_def)
next
  case (Cons c l)
  then show ?case by (cases l) (auto simp: CRLF_def)
qed

lemma crlf_lines_lines:
  "\<forall>l \<in> set ls. CHR 0x0D \<notin> set l \<Longrightarrow> crlf_lines (concat (map (\<lambda>l. l @ CRLF) ls) @ r) = ls @ crlf_lines r"
  by (induction ls) (simp_all add: crlf_lines_line)

lemma fields_field: "sep \<notin> set f \<Longrightarrow> fields sep (f @ sep # r) = f # fields sep r"
  by (induction f) auto

lemma fields_last: "sep \<notin> set f \<Longrightarrow> fields sep f = [f]"
  by (induction f) auto

lemma parse_request_written:
  assumes "CHR 0x0D \<notin> set m \<union> set target \<union> set version" and "CHR '' '' \<notin> set m \<union> set target \<union> set version"
    and "\<forall>h \<in> set hs. CHR 0x0D \<notin> set h \<and> h \<noteq> []"
  shows "parse_request (m @ '' '' @ target @ '' '' @ version @ CRLF @ concat (map (\<lambda>l. l @ CRLF) hs) @ CRLF) = Some (m, target, version, hs)"
proof -
  have last: "crlf_lines CRLF = [[], []]" by (simp add: CRLF_def)
  have "crlf_lines ((m @ '' '' @ target @ '' '' @ version) @ CRLF @ concat (map (\<lambda>l. l @ CRLF) hs) @ CRLF) =
      (m @ '' '' @ target @ '' '' @ version) # hs @ [[], []]"
    using assms crlf_lines_line [of "m @ '' '' @ target @ '' '' @ version"] crlf_lines_lines [of hs CRLF] last by auto
  then have lines: "crlf_lines (m @ '' '' @ target @ '' '' @ version @ CRLF @ concat (map (\<lambda>l. l @ CRLF) hs) @ CRLF) =
      (m @ '' '' @ target @ '' '' @ version) # hs @ [[], []]" by simp
  have "fields (CHR '' '') (m @ '' '' @ target @ '' '' @ version) = [m, target, version]"
    using assms(2) by (simp add: fields_field fields_last)
  moreover have "[] \<notin> set hs" using assms(3) by blast
  ultimately show ?thesis
    unfolding parse_request_def lines by (simp add: Let_def)
qed

lemma header_lines_plain:
  assumes "CHR 0x0D \<notin> set h"
  shows "\<forall>l \<in> set (header_lines v proxy reload h). CHR 0x0D \<notin> set l \<and> l \<noteq> []"
  using assms by (auto simp: header_lines_def split: if_splits)

text \<open>The version as the request line names it.\<close>

definition version_name :: "int \<Rightarrow> string" where
  "version_name v = (if v = 1 then ''HTTP/1.0'' else ''HTTP/1.1'')"

lemma request_text_parses:
  assumes "http_version s \<in> {1, 2}" and "CHR 0x0D \<notin> set target \<union> set h" and "CHR '' '' \<notin> set target"
  shows "parse_request (request_text s h target) =
     Some (method_name (http_method s), target, version_name (http_version s),
       header_lines (http_version s) (proxyhost s) (force_reload s \<noteq> 0) h)"
proof -
  let ?v = "http_version s" and ?hs = "header_lines (http_version s) (proxyhost s) (force_reload s \<noteq> 0) h"
  have "request_text s h target = method_name (http_method s) @ '' '' @ target @ '' '' @ version_name ?v @ CRLF @
      concat (map (\<lambda>l. l @ CRLF) ?hs) @ CRLF"
    using assms(1) by (auto simp: request_text_def version_text_def version_name_def Let_def)
  moreover have "CHR 0x0D \<notin> set (method_name m) \<union> set (version_name v)" "CHR '' '' \<notin> set (method_name m) \<union> set (version_name v)" for m v
    by (auto simp: method_name_def version_name_def)
  ultimately show ?thesis
    using parse_request_written [of "method_name (http_method s)" target "version_name ?v" ?hs] header_lines_plain [of h] assms(2,3) by auto
qed

section \<open>Property\<close>

text \<open>
  C10: The request is well formed and says what was asked for: for an accepted URL without blanks and
  carriage returns whose host and port fit, and HTTP/1.0 or 1.1, a parser of requests finds in the buffer
  exactly the method, the target, the version and the header lines - none injected or lost - and a single
  empty line, at the end.
\<close>

theorem request_parses:
  assumes "valid_url url" and "proxyhost s \<noteq> None \<or> length (url_host url) < MAXHOSTNAMELEN \<and> (\<forall>p \<in> set_option (url_port url). length p < 10)"
    and "set url \<inter> {CHR 0x0D, CHR '' ''} = {}" and "http_version s \<in> {1, 2}"
  shows "\<exists>s'. build_request os url s = Some (Ret (), s') \<and> parse_request (c_str (request s')) =
     Some (method_name (http_method s), if proxyhost s = None then url_path url else url, version_name (http_version s),
       header_lines (http_version s) (proxyhost s) (force_reload s \<noteq> 0) (url_host url))"
proof -
  let ?t = "if proxyhost s = None then url_path url else url"
  obtain s' where run: "build_request os url s = Some (Ret (), s')" and buf: "c_str (request s') = request_text s (url_host url) ?t"
    using wp_build_request [of url s os] assms(1,2) by (auto simp: wp_iff)
  have "set (url_rest url) \<subseteq> set url" by (auto simp: url_rest_def dest: in_set_dropD)
  then have "set (url_path url) \<subseteq> set url" "set (url_host url) \<subseteq> set url"
    by (auto simp: url_path_def url_host_def dest!: in_set_dropD in_set_takeD)
  then have "CHR 0x0D \<notin> set ?t \<union> set (url_host url)" "CHR '' '' \<notin> set ?t" using assms(3) by auto
  from request_text_parses [OF assms(4) this] run buf show ?thesis by auto
qed

theorem request_parses_witness:
  "\<exists>s'. build_request sim_os ''http://a.b:8080/x'' ex_bench = Some (Ret (), s') \<and> parse_request (c_str (request s')) =
     Some (''OPTIONS'', ''/x'', ''HTTP/1.1'', [''User-Agent: WebBench 1.5'', ''Host: a.b'', ''Connection: close''])"
proof -
  have url: "valid_url ''http://a.b:8080/x''" "length (url_host ''http://a.b:8080/x'') < MAXHOSTNAMELEN"
    "url_port ''http://a.b:8080/x'' = Some ''8080''" "url_host ''http://a.b:8080/x'' = ''a.b''" "url_path ''http://a.b:8080/x'' = ''/x''"
    by code_simp+
  have v: "http_version ex_bench = 2" by code_simp
  obtain s' where "build_request sim_os ''http://a.b:8080/x'' ex_bench = Some (Ret (), s')" "parse_request (c_str (request s')) =
      Some (method_name (http_method ex_bench), if proxyhost ex_bench = None then ''/x'' else ''http://a.b:8080/x'', version_name 2,
       header_lines 2 (proxyhost ex_bench) (force_reload ex_bench \<noteq> 0) ''a.b'')"
    using request_parses [of "''http://a.b:8080/x''" ex_bench sim_os] url v by auto
  then show ?thesis
    by (auto simp: ex_bench_def method_name_def METHOD_OPTIONS_def METHOD_HEAD_def METHOD_TRACE_def version_name_def header_lines_def)
qed

end
