(* ===== verification/WebCommand.thy ===== *)
theory WebCommand
  imports WebUrl
begin

text \<open>
  WebBench's command line from one end to the other: a reference for what each option asks for and how it may
  be spelled, and that \<open>main\<close>, given any of the spellings in any order and on either side of the URL, starts
  the benchmark that was asked for with the request that was asked for.
\<close>

section \<open>The reference\<close>

datatype setting = Early_close | Pragma | Protocol nat | Request_method int
  | Seconds string | Processes string | Proxy string "string option"

fun proxy_text :: "string \<Rightarrow> string option \<Rightarrow> string" where
  "proxy_text h None = h"
| "proxy_text h (Some p) = h @ CHR '':'' # p"

fun setting_ok :: "setting \<Rightarrow> bool" where
  "setting_ok (Protocol v) = (v \<le> 2)"
| "setting_ok (Request_method m) = (m \<in> {METHOD_GET, METHOD_HEAD, METHOD_OPTIONS, METHOD_TRACE})"
| "setting_ok (Proxy h None) = (CHR '':'' \<notin> set h)"
| "setting_ok (Proxy h (Some p)) = (h \<noteq> [] \<and> p \<noteq> [] \<and> CHR '':'' \<notin> set p)"
| "setting_ok _ = True"

text \<open>The variables of the program after a setting.\<close>

fun obey :: "setting \<Rightarrow> ('w, 'a) webbench_scheme \<Rightarrow> ('w, 'a) webbench_scheme" where
  "obey Early_close s = s\<lparr>force := 1\<rparr>"
| "obey Pragma s = s\<lparr>force_reload := 1\<rparr>"
| "obey (Protocol v) s = s\<lparr>http10 := int v\<rparr>"
| "obey (Request_method m) s = s\<lparr>http_method := m\<rparr>"
| "obey (Seconds v) s = s\<lparr>benchtime := atoi v\<rparr>"
| "obey (Processes v) s = s\<lparr>clients := atoi v\<rparr>"
| "obey (Proxy h None) s = s\<lparr>proxyhost := Some h\<rparr>"
| "obey (Proxy h (Some p)) s = s\<lparr>proxyhost := Some h, proxyport := atoi p\<rparr>"

text \<open>Zero clients or seconds stand for the defaults.\<close>

definition defaults :: "('w, 'a) webbench_scheme \<Rightarrow> ('w, 'a) webbench_scheme" where
  "defaults s = s\<lparr>clients := (if clients s = 0 then 1 else clients s), benchtime := (if benchtime s = 0 then 30 else benchtime s)\<rparr>"

text \<open>An option with a value: the value in the next word, after \<open>=\<close>, or, not empty, right behind the letter.\<close>

definition valued :: "char \<Rightarrow> string \<Rightarrow> string \<Rightarrow> string list list" where
  "valued c name v = [[[CHR ''-'', c], v], [''--'' @ name, v], [''--'' @ name @ CHR ''='' # v]] @ (if v = [] then [] else [[CHR ''-'' # c # v]])"

fun spellings :: "setting \<Rightarrow> string list list" where
  "spellings Early_close = [[''-f''], [''--force'']]"
| "spellings Pragma = [[''-r''], [''--reload'']]"
| "spellings (Protocol v) = (if v = 0 then [[''-9''], [''--http09'']] else if v = 1 then [[''-1''], [''--http10'']] else [[''-2''], [''--http11'']])"
| "spellings (Request_method m) = (if m = METHOD_GET then [[''--get'']] else if m = METHOD_HEAD then [[''--head'']]
     else if m = METHOD_OPTIONS then [[''--options'']] else [[''--trace'']])"
| "spellings (Seconds v) = valued (CHR ''t'') ''time'' v"
| "spellings (Processes v) = valued (CHR ''c'') ''clients'' v"
| "spellings (Proxy h p) = valued (CHR ''p'') ''proxy'' (proxy_text h p)"

text \<open>A command line: spelled settings and other words, in any order.\<close>

datatype piece = Spelled setting "string list" | Other string

fun words :: "piece \<Rightarrow> string list" where
  "words (Spelled x sp) = sp"
| "words (Other a) = [a]"

fun piece_ok :: "piece \<Rightarrow> bool" where
  "piece_ok (Spelled x sp) = (setting_ok x \<and> sp \<in> set (spellings x))"
| "piece_ok (Other a) = (a = ''-'' \<or> take 1 a \<noteq> ''-'')"

fun setting_of :: "piece \<Rightarrow> setting list" where
  "setting_of (Spelled x sp) = [x]"
| "setting_of (Other a) = []"

fun other_of :: "piece \<Rightarrow> string list" where
  "other_of (Spelled x sp) = []"
| "other_of (Other a) = [a]"

section \<open>Parsing\<close>

text \<open>What a spelled setting becomes in front of the rest of the line.\<close>

definition parses :: "string list \<Rightarrow> opt \<Rightarrow> bool" where
  "parses sp opt \<longleftrightarrow> (\<forall>rest. getopt_long (sp @ rest) = (opt # fst (getopt_long rest), snd (getopt_long rest)))"

lemmas one_simps = getopt_long_one_def long_options_def short_args_def short_flags_def parses_def Let_def case_prod_beta

lemma parses_flag:
  "parses [''-f''] (Opt (CHR ''f'') [])" "parses [''--force''] (Flag Force 1)"
  "parses [''-r''] (Opt (CHR ''r'') [])" "parses [''--reload''] (Flag Force_reload 1)"
  "parses [''-9''] (Opt (CHR ''9'') [])" "parses [''--http09''] (Opt (CHR ''9'') [])"
  "parses [''-1''] (Opt (CHR ''1'') [])" "parses [''--http10''] (Opt (CHR ''1'') [])"
  "parses [''-2''] (Opt (CHR ''2'') [])" "parses [''--http11''] (Opt (CHR ''2'') [])"
  "parses [''--get''] (Flag Method METHOD_GET)" "parses [''--head''] (Flag Method METHOD_HEAD)"
  "parses [''--options''] (Flag Method METHOD_OPTIONS)" "parses [''--trace''] (Flag Method METHOD_TRACE)"
  by (simp_all add: one_simps)

lemma parses_valued:
  assumes "sp \<in> set (valued c name v)" and "(c, name) \<in> {(CHR ''t'', ''time''), (CHR ''c'', ''clients''), (CHR ''p'', ''proxy'')}"
  shows "parses sp (Opt c v)"
  using assms by (auto simp: valued_def one_simps split: if_splits)

lemma wp_proxy:
  assumes "setting_ok (Proxy h p)"
  shows "proxy_option os (proxy_text h p) (s :: ('w, 'a) webbench_scheme) = Some (Ret None, obey (Proxy h p) s)"
proof (cases p)
  case None
  then show ?thesis using assms by (simp add: proxy_option_def run_simps strrchr_None [THEN iffD2])
next
  case (Some q)
  then have "strrchr (h @ CHR '':'' # q) (CHR '':'') = Some (length h)" using assms by (simp add: strrchr_append)
  then show ?thesis using Some assms by (simp add: proxy_option_def run_simps)
qed

lemma spelled_obeyed:
  assumes "setting_ok x" and "sp \<in> set (spellings x)"
  shows "\<exists>opt. parses sp opt \<and> (\<forall>s :: ('w, 'a) webbench_scheme. apply_opt os opt s = Some (Ret None, obey x s))"
proof (cases x)
  case (Proxy h p)
  then show ?thesis
    using parses_valued [of sp "CHR ''p''" "''proxy''" "proxy_text h p"] assms wp_proxy [of h p os, where ?'a = 'a]
    by (intro exI [of _ "Opt (CHR ''p'') (proxy_text h p)"]) (simp add: apply_opt_def)
next
  case (Seconds v)
  then show ?thesis
    using parses_valued [of sp "CHR ''t''" "''time''" v] assms
    by (intro exI [of _ "Opt (CHR ''t'') v"]) (simp add: apply_opt_def run_simps)
next
  case (Processes v)
  then show ?thesis
    using parses_valued [of sp "CHR ''c''" "''clients''" v] assms
    by (intro exI [of _ "Opt (CHR ''c'') v"]) (simp add: apply_opt_def run_simps)
qed (use assms parses_flag in \<open>fastforce simp: apply_opt_def set_var_def run_simps numeral_2_eq_2 le_Suc_eq split: if_splits\<close>)+

lemma line_parses:
  "list_all piece_ok ps \<Longrightarrow> \<exists>opts. getopt_long (concat (map words ps)) = (opts, concat (map other_of ps)) \<and>
     (\<forall>s :: ('w, 'a) webbench_scheme. apply_opts os opts s = Some (Ret None, fold obey (concat (map setting_of ps)) s))"
proof (induction ps)
  case Nil
  then show ?case by (simp add: run_simps)
next
  case (Cons p ps)
  then obtain opts where opts: "getopt_long (concat (map words ps)) = (opts, concat (map other_of ps))"
      "\<forall>s :: ('w, 'a) webbench_scheme. apply_opts os opts s = Some (Ret None, fold obey (concat (map setting_of ps)) s)" by auto
  show ?case
  proof (cases p)
    case (Other a)
    then show ?thesis using Cons.prems opts by (intro exI [of _ opts]) (cases a; auto)
  next
    case (Spelled x sp)
    then obtain opt where "parses sp opt" "\<forall>s :: ('w, 'a) webbench_scheme. apply_opt os opt s = Some (Ret None, obey x s)"
      using spelled_obeyed [of x sp os, where ?'a = 'a] Cons.prems by auto
    then show ?thesis using Spelled opts by (intro exI [of _ "opt # opts"]) (simp add: parses_def run_simps)
  qed
qed

section \<open>Properties\<close>

definition banner :: string where
  "banner = ''Webbench - Simple Web Benchmark '' @ PROGRAM_VERSION @ CHR 0x0A #
     ''Copyright (c) Radim Kolar 1997-2004, GPL Open Source Software.'' @ [CHR 0x0A]"

text \<open>The printing in between touches the log and the kernel only.\<close>

lemma printing: "wp (forP ms (printf os)) (\<lambda>_ s'. \<exists>w cs. s' = s\<lparr>world := w, calls := cs\<rparr>) (s\<lparr>world := w1, calls := cs1\<rparr>)"
  by (induction ms arbitrary: w1 cs1) (auto simp: wp_simps elim!: wp_mono)

lemma printed [simp]:
  "http_version (t\<lparr>world := w, calls := cs\<rparr>) = http_version t"
  "request_text (t\<lparr>world := w, calls := cs\<rparr>) h target = request_text t h target"
  "settings_of (t\<lparr>world := w, calls := cs\<rparr>) = settings_of t"
  by (simp_all add: http_version_def request_text_def settings_of_def cong: if_cong)

lemma defaults_run:
  "seqP (modify (\<lambda>s. if clients s = 0 then s\<lparr>clients := 1\<rparr> else s))
    (seqP (modify (\<lambda>s. if benchtime s = 0 then s\<lparr>benchtime := 30\<rparr> else s)) k) s = k (defaults s)"
  by (cases s) (simp add: run_simps defaults_def)

text \<open>
  C11: The command line is obeyed: whichever settings it gives, in whichever of their spellings, in any
  order and before or after the URL, \<open>main\<close> applies them in their order (a later one wins), takes the
  first other word for the URL, puts in the defaults for zero clients or seconds, and runs the
  benchmark with exactly these settings and with the reference request for them in the buffer.
\<close>

theorem command_line_obeyed:
  fixes s :: "('w, 'a) webbench_scheme"
  assumes "list_all piece_ok ps" and "concat (map other_of ps) = url # others" and "valid_url url"
    and "t = defaults (fold obey (concat (map setting_of ps)) s)"
    and "proxyhost t \<noteq> None \<or> length (url_host url) < MAXHOSTNAMELEN \<and> (\<forall>p \<in> set_option (url_port url). length p < 10)"
  shows "\<exists>s1. webbench_main os (prog # concat (map words ps)) s = bench os s1 \<and> settings_of s1 = settings_of t \<and>
     http10 s1 = http_version t \<and>
     c_str (request s1) = request_text t (url_host url) (if proxyhost t = None then url_path url else url) \<and>
     (proxyhost t = None \<longrightarrow> c_str (host s1) = url_host url \<and> proxyport s1 = port_number (url_port url) (proxyport t)) \<and>
     (proxyhost t \<noteq> None \<longrightarrow> proxyport s1 = proxyport t)"
proof -
  obtain opts where parse: "getopt_long (concat (map words ps)) = (opts, url # others)"
      and apply_all: "apply_opts os opts s = Some (Ret None, fold obey (concat (map setting_of ps)) s)"
    using line_parses [OF assms(1), of os] assms(2) by auto
  have argv: "length (prog # concat (map words ps)) \<noteq> 1" using parse by (cases "concat (map words ps)") simp_all
  let ?t = "t\<lparr>world := snd (os (Printf banner) (world t)), calls := (Printf banner, fst (os (Printf banner) (world t))) # calls t\<rparr>"
  obtain s1 where built: "build_request os url ?t = Some (Ret (), s1)"
      "c_str (request s1) = request_text ?t (url_host url) (if proxyhost ?t = None then url_path url else url)"
      "proxyhost ?t = None \<longrightarrow> c_str (host s1) = url_host url \<and> proxyport s1 = port_number (url_port url) (proxyport ?t)"
      "proxyhost ?t \<noteq> None \<longrightarrow> proxyport s1 = proxyport ?t" "http10 s1 = http_version ?t" "settings_of s1 = settings_of ?t"
    using wp_build_request [of url ?t os] assms(3,5) by (auto simp: wp_iff)
  obtain s2 w cs where info: "forP (run_info s1) (printf os) s1 = Some (Ret (), s2)" "s2 = s1\<lparr>world := w, calls := cs\<rparr>"
    using printing [where ms = "run_info s1" and os = os and s = s1 and ?w1.0 = "world s1" and ?cs1.0 = "calls s1"] by (auto simp: wp_iff)
  have "webbench_main os (prog # concat (map words ps)) s = seqP (printf os banner) (seqP (build_request os url)
      (seqP (bindP (gets run_info) (\<lambda>ms. forP ms (printf os))) (bench os))) t"
    unfolding webbench_main_def banner_def if_not_P [OF argv] list.sel parse prod.case assms(4) bindP_run [of "apply_opts os opts"] apply_all
    by (simp only: option.case prod.case res.case not_True_eq_False if_False list.distinct defaults_run nth_Cons_0 simp_thms)
  also have "\<dots> = bench os s2"
    by (simp add: run_simps printf_def built(1) info(1))
  finally have "webbench_main os (prog # concat (map words ps)) s = bench os s2" .
  then show ?thesis
    using built(2-6) info(2)
    by (intro exI [of _ s2]) simp
qed

theorem command_line_obeyed_witness:
  "\<exists>s1. webbench_main sim_os [''webbench'', ''--clients=10'', ''http://a.b:8080/x'', ''-t'', ''60'', ''--head'', ''-f''] ex_bench = bench sim_os s1 \<and>
     clients s1 = 10 \<and> benchtime s1 = 60 \<and> force s1 = 1 \<and> proxyport s1 = 8080 \<and> c_str (host s1) = ''a.b'' \<and>
     c_str (request s1) = ''HEAD /x HTTP/1.0'' @ CRLF @ ''User-Agent: WebBench 1.5'' @ CRLF @ ''Host: a.b'' @ CRLF @ CRLF"
proof -
  let ?ps = "[Spelled (Processes ''10'') [''--clients=10''], Other ''http://a.b:8080/x'', Spelled (Seconds ''60'') [''-t'', ''60''],
     Spelled (Request_method METHOD_HEAD) [''--head''], Spelled Early_close [''-f'']]"
  let ?u = "''http://a.b:8080/x''" and ?t = "ex_bench\<lparr>clients := 10, benchtime := 60, http_method := METHOD_HEAD, force := 1\<rparr>"
  have url: "valid_url ?u" "length (url_host ?u) < MAXHOSTNAMELEN" "url_port ?u = Some ''8080''" "url_host ?u = ''a.b''" "url_path ?u = ''/x''"
    by code_simp+
  have nums: "atoi ''10'' = 10" "atoi ''60'' = 60" "port_number (Some ''8080'') 80 = 8080" by code_simp+
  have ok: "list_all piece_ok ?ps" by (simp add: valued_def METHOD_HEAD_def METHOD_GET_def)
  have t: "?t = defaults (fold obey (concat (map setting_of ?ps)) ex_bench)" by (simp add: nums defaults_def ex_bench_def)
  have other: "concat (map other_of ?ps) = ?u # []" by simp
  have p: "proxyhost ?t \<noteq> None \<or> length (url_host ?u) < MAXHOSTNAMELEN \<and> (\<forall>p \<in> set_option (url_port ?u). length p < 10)"
    using url by simp
  obtain s1 where s1: "webbench_main sim_os (''webbench'' # concat (map words ?ps)) ex_bench = bench sim_os s1"
      "settings_of s1 = settings_of ?t" "c_str (request s1) = request_text ?t (url_host ?u) (if proxyhost ?t = None then url_path ?u else ?u)"
      "proxyhost ?t = None \<longrightarrow> c_str (host s1) = url_host ?u \<and> proxyport s1 = port_number (url_port ?u) (proxyport ?t)"
    using command_line_obeyed [OF ok other url(1) t p, of sim_os "''webbench''"] by (elim exE conjE) (rule that; assumption)
  have "request_text ?t ''a.b'' ''/x'' = ''HEAD /x HTTP/1.0'' @ CRLF @ ''User-Agent: WebBench 1.5'' @ CRLF @ ''Host: a.b'' @ CRLF @ CRLF"
    by code_simp
  then show ?thesis
    using s1 url nums by (intro exI [of _ s1]) (simp add: ex_bench_def settings_of_def)
qed

end
