(* ===== verification/MinHeap.thy ===== *)
theory MinHeap
  imports Prelude "HOL-Library.Multiset"
begin

text \<open>
  The binary min-heap of timers of \<open>moudles/test/timer/timer.c\<close>, the alternative to the list of
  \<open>dm_timer.c\<close>: an array of 1024 pointers to events, ordered by their time. Pushing moves parents down and
  popping moves children up around a hole; the invariants say what is in order while the hole is open.
\<close>

section \<open>State and access\<close>

record Event =
  timeout :: int
  on_timeout :: nat

record min_heap =
  events :: "ptr list"        \<comment> \<open>the array \<open>events[1024]\<close>\<close>
  hsize :: int
  emem :: "addr \<Rightarrow> Event option"
  ebrk :: addr

definition eat :: "int \<Rightarrow> ('a min_heap_scheme, ptr) prog" where
  "eat i s = (if 0 \<le> i \<and> i < int (length (events s)) then ret (events s ! nat i) s else fault OutOfBounds s)"

definition eset :: "int \<Rightarrow> ptr \<Rightarrow> ('a min_heap_scheme, unit) prog" where
  "eset i p s = (if 0 \<le> i \<and> i < int (length (events s)) then ret () (s\<lparr>events := (events s)[nat i := p]\<rparr>) else fault OutOfBounds s)"

definition eget :: "ptr \<Rightarrow> ('a min_heap_scheme, Event) prog" where
  "eget p s = (case p of None \<Rightarrow> fault NullDeref s
     | Some a \<Rightarrow> (case emem s a of None \<Rightarrow> fault BadPtr s | Some e \<Rightarrow> ret e s))"

definition free_event :: "ptr \<Rightarrow> ('a min_heap_scheme, unit) prog" where
  "free_event p s = (case p of None \<Rightarrow> ret () s
     | Some a \<Rightarrow> if emem s a = None then fault DoubleFree s else ret () (s\<lparr>emem := (emem s)(a := None)\<rparr>))"

section \<open>Operations\<close>

partial_function (option) push_loop ::
  "ptr \<Rightarrow> int \<Rightarrow> 'a min_heap_scheme \<Rightarrow> (int res \<times> 'a min_heap_scheme) option" where
  "push_loop event i s = ifP (i > 0)
     (bindP (eat ((i - 1) div 2)) (\<lambda>q. bindP (eget q) (\<lambda>e. bindP (eget event) (\<lambda>x.
       ifP (timeout e \<le> timeout x) (ret i)
         (seqP (bindP (eat ((i - 1) div 2)) (eset i)) (push_loop event ((i - 1) div 2)))))))
     (ret i) s"

definition min_heap_push :: "ptr \<Rightarrow> ('a min_heap_scheme, unit) prog" where
  "min_heap_push event = bindP (gets hsize) (\<lambda>n. seqP (modify (\<lambda>s. s\<lparr>hsize := hsize s + 1\<rparr>))
     (bindP (push_loop event n) (\<lambda>i. eset i event)))"

definition min_heap_top :: "('a min_heap_scheme, ptr) prog" where
  "min_heap_top = eat 0"

definition smaller_child :: "int \<Rightarrow> int \<Rightarrow> ('a min_heap_scheme, int) prog" where
  "smaller_child a b = bindP (gets hsize) (\<lambda>n.
     if b < n then bindP (eat b) (\<lambda>q. bindP (eget q) (\<lambda>y. bindP (eat a) (\<lambda>q. bindP (eget q) (\<lambda>x.
       ret (if timeout y < timeout x then b else a)))))
     else ret a)"

partial_function (option) pop_loop ::
  "ptr \<Rightarrow> int \<Rightarrow> 'a min_heap_scheme \<Rightarrow> (int res \<times> 'a min_heap_scheme) option" where
  "pop_loop event i s = bindP (gets hsize) (\<lambda>n. ifP (i * 2 + 1 < n)
     (bindP (smaller_child (i * 2 + 1) (i * 2 + 2)) (\<lambda>a. bindP (eat a) (\<lambda>q. bindP (eget q) (\<lambda>e. bindP (eget event) (\<lambda>x.
       ifP (timeout e \<ge> timeout x) (ret i) (seqP (bindP (eat a) (eset i)) (pop_loop event a)))))))
     (ret i)) s"

definition min_heap_pop :: "('a min_heap_scheme, unit) prog" where
  "min_heap_pop = seqP (modify (\<lambda>s. s\<lparr>hsize := hsize s - 1\<rparr>)) (bindP (gets hsize) (\<lambda>n. bindP (eat n) (\<lambda>event.
     bindP (pop_loop event 0) (\<lambda>i. eset i event))))"

text \<open>\<open>now\<close> is what \<open>time(NULL)\<close> answers, \<open>run\<close> what calling a callback does.\<close>

partial_function (option) handle_loop ::
  "(nat \<Rightarrow> ('a min_heap_scheme, unit) prog) \<Rightarrow> int \<Rightarrow> 'a min_heap_scheme \<Rightarrow> (unit res \<times> 'a min_heap_scheme) option" where
  "handle_loop run now s = bindP (gets hsize) (\<lambda>n. ifP (n > 0)
     (bindP (eat 0) (\<lambda>q. bindP (eget q) (\<lambda>e. ifP (timeout e \<le> now)
       (bindP min_heap_top (\<lambda>event. seqP min_heap_pop
         (bindP (eget event) (\<lambda>x. seqP (run (on_timeout x)) (seqP (free_event event) (handle_loop run now))))))
       (ret ()))))
     (ret ())) s"

definition handle_events :: "(nat \<Rightarrow> ('a min_heap_scheme, unit) prog) \<Rightarrow> int \<Rightarrow> ('a min_heap_scheme, unit) prog" where
  "handle_events run now = handle_loop run now"

text \<open>\<open>mem\<close> is what \<open>malloc\<close> answers: no memory, or a block with an indeterminate content.\<close>

definition add_timer :: "Event option \<Rightarrow> int \<Rightarrow> int \<Rightarrow> nat \<Rightarrow> ('a min_heap_scheme, unit) prog" where
  "add_timer mem now delay callback = (case mem of
       None \<Rightarrow> fault NullDeref
     | Some junk \<Rightarrow> bindP (gets ebrk) (\<lambda>a.
         seqP (modify (\<lambda>s. s\<lparr>ebrk := Suc a, emem := (emem s)(a := Some (junk\<lparr>timeout := now + delay, on_timeout := callback\<rparr>))\<rparr>))
           (min_heap_push (Some a))))"

section \<open>Heap order around a hole\<close>

definition par :: "nat \<Rightarrow> nat" where
  "par j = (j - 1) div 2"

lemma par_less [simp]: "0 < j \<Longrightarrow> par j < j"
  by (simp add: par_def)

lemma par_eq: "0 < j \<Longrightarrow> par j = p \<longleftrightarrow> j = 2 * p + 1 \<or> j = 2 * p + 2"
  by (auto simp: par_def)

definition is_heap :: "('b \<Rightarrow> int) \<Rightarrow> 'b list \<Rightarrow> bool" where
  "is_heap k as \<longleftrightarrow> (\<forall>j < length as. 0 < j \<longrightarrow> k (as ! par j) \<le> k (as ! j))"

text \<open>In order but for the element at \<open>i\<close>, which may be too small, or too large.\<close>

definition up_ok :: "('b \<Rightarrow> int) \<Rightarrow> 'b list \<Rightarrow> nat \<Rightarrow> bool" where
  "up_ok k as i \<longleftrightarrow> (\<forall>j < length as. 0 < j \<longrightarrow> j \<noteq> i \<longrightarrow> k (as ! par j) \<le> k (as ! j)) \<and>
     (\<forall>j < length as. 0 < i \<longrightarrow> 0 < j \<longrightarrow> par j = i \<longrightarrow> k (as ! par i) \<le> k (as ! j))"

definition down_ok :: "('b \<Rightarrow> int) \<Rightarrow> 'b list \<Rightarrow> nat \<Rightarrow> bool" where
  "down_ok k as i \<longleftrightarrow> (\<forall>j < length as. 0 < j \<longrightarrow> par j \<noteq> i \<longrightarrow> k (as ! par j) \<le> k (as ! j)) \<and>
     (\<forall>j < length as. 0 < i \<longrightarrow> 0 < j \<longrightarrow> par j = i \<longrightarrow> k (as ! par i) \<le> k (as ! j))"

lemma is_heap_root: "is_heap k as \<Longrightarrow> j < length as \<Longrightarrow> k (as ! 0) \<le> k (as ! j)"
proof (induction j rule: less_induct)
  case (less j)
  show ?case
  proof (cases "j = 0")
    case False
    then have "k (as ! 0) \<le> k (as ! par j)" "k (as ! par j) \<le> k (as ! j)"
      using less.IH [of "par j"] less.prems less_trans [OF par_less, of j] by (auto simp: is_heap_def)
    then show ?thesis by simp
  qed simp
qed

lemma is_heap_cong: "(\<And>a. a \<in> set as \<Longrightarrow> k a = k' a) \<Longrightarrow> is_heap k as = is_heap k' as"
  unfolding is_heap_def using par_less by (metis less_trans nth_mem)

lemma up_ok_done: "up_ok k as i \<Longrightarrow> i = 0 \<or> k (as ! par i) \<le> k (as ! i) \<Longrightarrow> is_heap k as"
  unfolding up_ok_def is_heap_def by (metis less_numeral_extra(3))

lemma up_ok_swap:
  assumes "up_ok k as i" and "0 < i" "i < length as" and "k (as ! i) < k (as ! par i)"
  shows "up_ok k (as[i := as ! par i, par i := as ! i]) (par i)"
proof -
  let ?p = "par i" and ?bs = "as[i := as ! par i, par i := as ! i]"
  have lt: "?p < i" "?p < length as" using par_less [OF assms(2)] assms(3) by simp_all
  have b: "?bs ! ?p = as ! i" "?bs ! i = as ! ?p" "\<And>j. j \<noteq> i \<Longrightarrow> j \<noteq> ?p \<Longrightarrow> ?bs ! j = as ! j"
    using lt assms(3) by auto
  have one: "k (as ! par j) \<le> k (as ! j)" if "j < length as" "0 < j" "j \<noteq> i" for j using assms(1) that by (auto simp: up_ok_def)
  have two: "k (as ! ?p) \<le> k (as ! j)" if "j < length as" "0 < j" "par j = i" for j using assms(1,2) that by (auto simp: up_ok_def)
  have first: "k (?bs ! par j) \<le> k (?bs ! j)" if j: "j < length as" "0 < j" "j \<noteq> ?p" for j
  proof (cases "j = i")
    case True
    then show ?thesis using b assms(4) by simp
  next
    case False
    then have bj: "?bs ! j = as ! j" using b(3) j(3) by simp
    consider "par j = i" | "par j = ?p" | "par j \<noteq> i" "par j \<noteq> ?p" by blast
    then show ?thesis
    proof cases
      case 1
      then show ?thesis using two [OF j(1,2)] b(2) bj by simp
    next
      case 2
      then show ?thesis using one [OF j(1,2) False] b(1) bj assms(4) by simp
    next
      case 3
      then show ?thesis using one [OF j(1,2) False] b(3) bj by simp
    qed
  qed
  have second: "k (?bs ! par ?p) \<le> k (?bs ! j)" if j: "j < length as" "0 < ?p" "0 < j" "par j = ?p" for j
  proof -
    have "par ?p < ?p" using j(2) by simp
    then have "?bs ! par ?p = as ! par ?p" using b(3) lt by simp
    moreover have "k (as ! par ?p) \<le> k (as ! ?p)" using one [of ?p] lt j(2) by simp
    moreover have "k (as ! ?p) \<le> k (?bs ! j)"
      using one [OF j(1,3)] b(2) b(3) [of j] j(4) par_less [OF j(3)] by (cases "j = i") auto
    ultimately show ?thesis by simp
  qed
  show ?thesis using first second by (simp add: up_ok_def)
qed

lemma down_ok_done: "down_ok k as i \<Longrightarrow> \<forall>j < length as. 0 < j \<longrightarrow> par j = i \<longrightarrow> k (as ! i) \<le> k (as ! j) \<Longrightarrow> is_heap k as"
  unfolding down_ok_def is_heap_def by metis

lemma down_ok_swap:
  assumes "down_ok k as i" and a: "0 < a" "a < length as" "par a = i" and "k (as ! a) < k (as ! i)"
    and least: "\<forall>j < length as. 0 < j \<longrightarrow> par j = i \<longrightarrow> k (as ! a) \<le> k (as ! j)"
  shows "down_ok k (as[i := as ! a, a := as ! i]) a"
proof -
  let ?bs = "as[i := as ! a, a := as ! i]"
  have lt: "i < a" "i < length as" using a par_less [of a] by auto
  have b: "?bs ! a = as ! i" "?bs ! i = as ! a" "\<And>j. j \<noteq> i \<Longrightarrow> j \<noteq> a \<Longrightarrow> ?bs ! j = as ! j"
    using lt a by auto
  have one: "k (as ! par j) \<le> k (as ! j)" if "j < length as" "0 < j" "par j \<noteq> i" for j using assms(1) that by (auto simp: down_ok_def)
  have two: "k (as ! par i) \<le> k (as ! j)" if "j < length as" "0 < i" "0 < j" "par j = i" for j using assms(1) that by (auto simp: down_ok_def)
  have first: "k (?bs ! par j) \<le> k (?bs ! j)" if j: "j < length as" "0 < j" "par j \<noteq> a" for j
  proof -
    consider "par j = i" "j = a" | "par j = i" "j \<noteq> a" | "par j \<noteq> i" "j = i" | "par j \<noteq> i" "j \<noteq> i" by blast
    then show ?thesis
    proof cases
      case 1
      then show ?thesis using b(1,2) assms(5) by simp
    next
      case 2
      moreover from this have "j \<noteq> i" using par_less [OF j(2)] by auto
      ultimately show ?thesis using b(2,3) least j by simp
    next
      case 3
      then show ?thesis using two [of a] a b(2) b(3) [of "par j"] j by simp
    next
      case 4
      then have "j \<noteq> a" using a(3) by auto
      then show ?thesis using one [OF j(1,2)] b(3) 4 j(3) by simp
    qed
  qed
  have second: "k (?bs ! par a) \<le> k (?bs ! j)" if j: "j < length as" "0 < j" "par j = a" for j
  proof -
    have "j \<noteq> a" "j \<noteq> i" "a \<noteq> i" using par_less [OF j(2)] j(3) lt by auto
    then show ?thesis using one [OF j(1,2)] j(3) a(3) b(2) b(3) [of j] by simp
  qed
  show ?thesis using first second by (simp add: down_ok_def)
qed

section \<open>The array in memory\<close>

text \<open>\<open>as\<close> are the events in the used part of the array, all allocated.\<close>

definition harray :: "'a min_heap_scheme \<Rightarrow> addr list \<Rightarrow> bool" where
  "harray s as \<longleftrightarrow> length (events s) = 1024 \<and> length as \<le> 1024 \<and> hsize s = int (length as) \<and>
     (\<forall>j < length as. events s ! j = Some (as ! j)) \<and> (\<forall>a \<in> set as. emem s a \<noteq> None)"

definition due_at :: "'a min_heap_scheme \<Rightarrow> addr \<Rightarrow> int" where
  "due_at s a = timeout (the (emem s a))"

text \<open>The same while index \<open>i\<close> is a hole, into which the event at \<open>x\<close> is to go.\<close>

definition holed :: "nat \<Rightarrow> addr \<Rightarrow> 'a min_heap_scheme \<Rightarrow> addr list \<Rightarrow> bool" where
  "holed i x s as \<longleftrightarrow> length (events s) = 1024 \<and> length as \<le> 1024 \<and> hsize s = int (length as) \<and>
     i < length as \<and> as ! i = x \<and>
     (\<forall>j < length as. j \<noteq> i \<longrightarrow> events s ! j = Some (as ! j)) \<and> (\<forall>a \<in> set as. emem s a \<noteq> None)"

definition only_events :: "'a min_heap_scheme \<Rightarrow> 'a min_heap_scheme \<Rightarrow> bool" where
  "only_events s s' \<longleftrightarrow> s' = s\<lparr>events := events s'\<rparr>"

definition settled :: "addr \<Rightarrow> 'a min_heap_scheme \<Rightarrow> addr list \<Rightarrow> int \<Rightarrow> 'a min_heap_scheme \<Rightarrow> bool" where
  "settled x s as r s' \<longleftrightarrow> (\<exists>j as'. r = int j \<and> holed j x s' as' \<and> is_heap (due_at s) as' \<and>
     mset as' = mset as \<and> only_events s s')"

lemma only_events_trans: "only_events s s' \<Longrightarrow> only_events s' s'' \<Longrightarrow> only_events s s''"
  unfolding only_events_def by (cases s; cases s'; cases s'') simp

lemma only_events_due: "only_events s s' \<Longrightarrow> due_at s' = due_at s"
  unfolding only_events_def due_at_def by (cases s; cases s') (simp add: fun_eq_iff)

lemma holed_move:
  assumes "holed i x s as" and "j < length as" "j \<noteq> i"
  shows "holed j x (s\<lparr>events := (events s)[i := Some (as ! j)]\<rparr>) (as[i := as ! j, j := x])"
  using assms nth_mem [OF assms(2)]
  by (auto simp: holed_def nth_list_update dest!: set_update_subset_insert [THEN subsetD])

lemma holed_mset:
  assumes "holed i x s as" and "j < length as" "j \<noteq> i"
  shows "mset (as[i := as ! j, j := x]) = mset as"
  using assms mset_swap [of i as j] by (simp add: holed_def list_update_swap)

lemma holed_read:
  assumes "holed i x s as" and "j < length as" "j \<noteq> i"
  shows "events s ! j = Some (as ! j)" and "j < 1024" and "\<exists>e. emem s (as ! j) = Some e"
  using assms nth_mem [OF assms(2)] by (auto simp: holed_def)

lemma holed_own: "holed i x s as \<Longrightarrow> \<exists>e. emem s x = Some e"
  using nth_mem [of i as] by (auto simp: holed_def)

lemma wp_eat [wp_simps]: "wp (eat i) Q s \<longleftrightarrow> 0 \<le> i \<and> i < int (length (events s)) \<and> Q (events s ! nat i) s"
  by (auto simp: eat_def wp_def run_simps)

lemma wp_eset [wp_simps]:
  "wp (eset i p) Q s \<longleftrightarrow> 0 \<le> i \<and> i < int (length (events s)) \<and> Q () (s\<lparr>events := (events s)[nat i := p]\<rparr>)"
  by (auto simp: eset_def wp_def run_simps)

lemma wp_eget [wp_simps]: "wp (eget p) Q s \<longleftrightarrow> (\<exists>a e. p = Some a \<and> emem s a = Some e \<and> Q e s)"
  by (simp add: eget_def wp_def run_simps split: option.splits)

lemma wp_free_event [wp_simps]:
  "wp (free_event p) Q s \<longleftrightarrow> (case p of None \<Rightarrow> Q () s
     | Some a \<Rightarrow> emem s a \<noteq> None \<and> Q () (s\<lparr>emem := (emem s)(a := None)\<rparr>))"
  by (simp add: free_event_def wp_def run_simps split: option.splits)

lemma fill_hole:
  assumes "holed i x s as"
  shows "harray (s\<lparr>events := (events s)[i := Some x]\<rparr>) as"
  using assms by (auto simp: holed_def harray_def nth_list_update)

section \<open>Pushing\<close>

lemma wp_push_loop: "wp (push_loop event i) Q s = wp (ifP (i > 0)
     (bindP (eat ((i - 1) div 2)) (\<lambda>q. bindP (eget q) (\<lambda>e. bindP (eget event) (\<lambda>x.
       ifP (timeout e \<le> timeout x) (ret i)
         (seqP (bindP (eat ((i - 1) div 2)) (eset i)) (push_loop event ((i - 1) div 2)))))))
     (ret i)) Q s"
  unfolding wp_def by (subst push_loop.simps) (rule refl)

lemma par_int: "0 < i \<Longrightarrow> (int i - 1) div 2 = int (par i)"
  by (simp add: par_def zdiv_int of_nat_diff)

lemma push_loop_spec:
  "holed i x s as \<Longrightarrow> up_ok (due_at s) as i \<Longrightarrow> wp (push_loop (Some x) (int i)) (settled x s as) s"
proof (induction i arbitrary: s as rule: less_induct)
  case (less i)
  show ?case
  proof (cases "i = 0")
    case True
    then have "settled x s as (int i) s"
      using less.prems up_ok_done [OF less.prems(2)] by (auto simp: settled_def only_events_def)
    then show ?thesis using True by (subst wp_push_loop) (simp add: wp_simps)
  next
    case False
    then have i: "0 < i" "par i < i" "par i < length as" "par i \<noteq> i" "as ! i = x" "i < length as"
      using less.prems(1) par_less [of i] less_trans [OF par_less, of i "length as"] by (auto simp: holed_def dest: less_imp_neq [OF par_less])
    note r = holed_read [OF less.prems(1) i(3,4)] holed_own [OF less.prems(1)]
    obtain e y where e: "emem s (as ! par i) = Some e" "emem s x = Some y" using r(3,4) by blast
    have len: "length (events s) = 1024" "i < 1024" using less.prems(1) by (auto simp: holed_def)
    show ?thesis
    proof (cases "timeout e \<le> timeout y")
      case True
      then have "due_at s (as ! par i) \<le> due_at s (as ! i)" using e i(5) by (simp add: due_at_def)
      then have "is_heap (due_at s) as" using up_ok_done [OF less.prems(2)] by blast
      then have "settled x s as (int i) s" using less.prems(1) by (auto simp: settled_def only_events_def)
      then show ?thesis using True i(1) e r(1,2) len by (subst wp_push_loop) (simp add: wp_simps par_int)
    next
      case up: False
      let ?s = "s\<lparr>events := (events s)[i := Some (as ! par i)]\<rparr>"
      let ?as = "as[i := as ! par i, par i := x]"
      have due: "due_at ?s = due_at s" by (simp add: due_at_def fun_eq_iff)
      have h: "holed (par i) x ?s ?as" by (rule holed_move [OF less.prems(1) i(3,4)])
      have "due_at s (as ! i) < due_at s (as ! par i)" using up e i(5) by (simp add: due_at_def)
      then have "up_ok (due_at s) ?as (par i)"
        using up_ok_swap [OF less.prems(2) i(1,6)] i(5) by simp
      then have "wp (push_loop (Some x) (int (par i))) (settled x ?s ?as) ?s"
        using less.IH [OF i(2) h] due by simp
      then have "wp (push_loop (Some x) (int (par i))) (settled x s as) ?s"
      proof (rule wp_mono)
        fix a s' assume "settled x ?s ?as a s'"
        then show "settled x s as a s'"
          unfolding settled_def due
          using holed_mset [OF less.prems(1) i(3,4)] only_events_trans [of s ?s] by (fastforce simp: only_events_def)
      qed
      then show ?thesis using up i(1) e r(1,2) len by (subst wp_push_loop) (simp add: wp_simps par_int)
    qed
  qed
qed

lemma is_heap_snoc: "is_heap k as \<Longrightarrow> up_ok k (as @ [x]) (length as)"
  unfolding is_heap_def up_ok_def
  by (auto simp: nth_append par_def)

lemma push_spec:
  assumes h: "harray s as" "is_heap (due_at s) as" and room: "length as < 1024" and x: "emem s x \<noteq> None"
  shows "wp (min_heap_push (Some x)) (\<lambda>_ s'. \<exists>as'. harray s' as' \<and> is_heap (due_at s) as' \<and>
    mset as' = add_mset x (mset as) \<and> s' = s\<lparr>hsize := hsize s + 1, events := events s'\<rparr>) s"
proof -
  let ?s = "s\<lparr>hsize := hsize s + 1\<rparr>"
  have due: "due_at ?s = due_at s" by (simp add: due_at_def fun_eq_iff)
  have n: "hsize s = int (length as)" using h(1) by (simp add: harray_def)
  have "holed (length as) x ?s (as @ [x])"
    using h(1) room x by (auto simp: harray_def holed_def nth_append)
  moreover have "up_ok (due_at ?s) (as @ [x]) (length as)"
    unfolding due by (rule is_heap_snoc [OF h(2)])
  ultimately have "wp (push_loop (Some x) (int (length as))) (settled x ?s (as @ [x])) ?s"
    by (rule push_loop_spec)
  then have "wp (push_loop (Some x) (hsize s)) (settled x ?s (as @ [x])) ?s" by (simp add: n)
  then have "wp (push_loop (Some x) (hsize s)) (\<lambda>i. wp (eset i (Some x)) (\<lambda>_ s'. \<exists>as'. harray s' as' \<and>
      is_heap (due_at s) as' \<and> mset as' = add_mset x (mset as) \<and> s' = s\<lparr>hsize := hsize s + 1, events := events s'\<rparr>)) ?s"
  proof (rule wp_mono)
    fix r s' assume "settled x ?s (as @ [x]) r s'"
    then obtain j as' where j: "r = int j" "holed j x s' as'" "is_heap (due_at s) as'"
        "mset as' = add_mset x (mset as)" "s' = ?s\<lparr>events := events s'\<rparr>"
      unfolding settled_def due only_events_def by auto
    have "harray (s'\<lparr>events := (events s')[j := Some x]\<rparr>) as'" by (rule fill_hole [OF j(2)])
    moreover have "j < length (events s')" using j(2) by (simp add: holed_def)
    moreover have "s'\<lparr>events := q\<rparr> = s\<lparr>hsize := hsize s + 1, events := q\<rparr>" for q
      by (subst j(5)) simp
    ultimately show "wp (eset r (Some x)) (\<lambda>_ s'. \<exists>as'. harray s' as' \<and> is_heap (due_at s) as' \<and>
        mset as' = add_mset x (mset as) \<and> s' = s\<lparr>hsize := hsize s + 1, events := events s'\<rparr>) s'"
      using j(1,3,4) by (auto simp: wp_simps)
  qed
  then show ?thesis by (simp add: min_heap_push_def wp_simps)
qed

section \<open>Popping\<close>

lemma wp_pop_loop: "wp (pop_loop event i) Q s = wp (bindP (gets hsize) (\<lambda>n. ifP (i * 2 + 1 < n)
     (bindP (smaller_child (i * 2 + 1) (i * 2 + 2)) (\<lambda>a. bindP (eat a) (\<lambda>q. bindP (eget q) (\<lambda>e. bindP (eget event) (\<lambda>x.
       ifP (timeout e \<ge> timeout x) (ret i) (seqP (bindP (eat a) (eset i)) (pop_loop event a)))))))
     (ret i))) Q s"
  unfolding wp_def by (subst pop_loop.simps) (rule refl)

text \<open>The child the loop compares with: the one whose event is due first.\<close>

definition least_child :: "'a min_heap_scheme \<Rightarrow> addr list \<Rightarrow> nat \<Rightarrow> nat \<Rightarrow> bool" where
  "least_child s as i a \<longleftrightarrow> a < length as \<and> 0 < a \<and> par a = i \<and>
     (\<forall>j < length as. 0 < j \<longrightarrow> par j = i \<longrightarrow> due_at s (as ! a) \<le> due_at s (as ! j))"

lemma smaller_child_spec:
  assumes h: "holed i x s as" and c: "2 * i + 1 < length as"
  shows "wp (smaller_child (int i * 2 + 1) (int i * 2 + 2)) (\<lambda>r s'. s' = s \<and> (\<exists>a. r = int a \<and> least_child s as i a)) s"
proof -
  have n: "hsize s = int (length as)" and len: "length (events s) = 1024" "length as \<le> 1024"
    using h by (auto simp: holed_def)
  have nat: "nat (int i * 2 + 1) = 2 * i + 1" "nat (int i * 2 + 2) = 2 * i + 2" by simp_all
  have p: "par (2 * i + 1) = i" "par (2 * i + 2) = i" by (simp_all add: par_def)
  have pick: "\<exists>a. r = int a \<and> least_child s as i a"
    if "r = int a" "a < length as" "0 < a" "par a = i"
      "\<And>j. j < length as \<Longrightarrow> j = 2 * i + 1 \<or> j = 2 * i + 2 \<Longrightarrow> due_at s (as ! a) \<le> due_at s (as ! j)" for r a
    using that par_eq unfolding least_child_def by blast
  obtain e1 where e1: "events s ! (2 * i + 1) = Some (as ! (2 * i + 1))" "emem s (as ! (2 * i + 1)) = Some e1"
    using holed_read [OF h c] h by (auto simp: holed_def)
  show ?thesis
  proof (cases "2 * i + 2 < length as")
    case False
    then have "\<exists>a. int i * 2 + 1 = int a \<and> least_child s as i a"
      using c p by (intro pick [of _ "2 * i + 1"]) auto
    then show ?thesis using False n by (simp add: smaller_child_def wp_simps)
  next
    case True
    obtain e2 where e2: "events s ! (2 * i + 2) = Some (as ! (2 * i + 2))" "emem s (as ! (2 * i + 2)) = Some e2"
      using holed_read [OF h True] h by (auto simp: holed_def)
    let ?r = "if timeout e2 < timeout e1 then int i * 2 + 2 else int i * 2 + 1"
    have "\<exists>a. ?r = int a \<and> least_child s as i a"
      using c True p e1(2) e2(2)
      by (intro pick [of _ "if timeout e2 < timeout e1 then 2 * i + 2 else 2 * i + 1"]) (auto simp: due_at_def)
    then obtain a where a: "?r = int a" "least_child s as i a" by blast
    have run: "smaller_child (int i * 2 + 1) (int i * 2 + 2) s = Some (Ret ?r, s)"
      using True n len e1 e2 by (simp add: smaller_child_def eat_def eget_def run_simps nat)
    show ?thesis unfolding wp_def run using a by (simp del: int_eq_iff)
  qed
qed

lemma pop_loop_spec:
  "holed i x s as \<Longrightarrow> down_ok (due_at s) as i \<Longrightarrow> wp (pop_loop (Some x) (int i)) (settled x s as) s"
proof (induction "length as - i" arbitrary: i s as rule: less_induct)
  case less
  have n: "hsize s = int (length as)" and len: "length (events s) = 1024" "length as \<le> 1024" "i < length as" "as ! i = x"
    using less.prems(1) by (auto simp: holed_def)
  show ?case
  proof (cases "2 * i + 1 < length as")
    case False
    have "is_heap (due_at s) as"
      using down_ok_done [OF less.prems(2)] False par_eq by auto
    then have "settled x s as (int i) s" using less.prems(1) by (auto simp: settled_def only_events_def)
    then show ?thesis using False n by (subst wp_pop_loop) (simp add: wp_simps)
  next
    case True
    have "wp (bindP (eat r) (\<lambda>q. bindP (eget q) (\<lambda>e. bindP (eget (Some x)) (\<lambda>y.
        ifP (timeout e \<ge> timeout y) (ret (int i)) (seqP (bindP (eat r) (eset (int i))) (pop_loop (Some x) r)))))) (settled x s as) s'"
      if child: "s' = s \<and> (\<exists>a. r = int a \<and> least_child s as i a)" for r s'
    proof -
      obtain a where a: "s' = s" "r = int a" "0 < a" "a < length as" "par a = i"
          "\<forall>j < length as. 0 < j \<longrightarrow> par j = i \<longrightarrow> due_at s (as ! a) \<le> due_at s (as ! j)"
        using child unfolding least_child_def by blast
      then have ai: "i < a" "a \<noteq> i" using par_less [OF a(3)] by auto
      note r = holed_read [OF less.prems(1) a(4) ai(2)] holed_own [OF less.prems(1)]
      obtain e y where e: "emem s (as ! a) = Some e" "emem s x = Some y" using r(3,4) by blast
      show ?thesis
      proof (cases "timeout y \<le> timeout e")
        case True
        then have "due_at s (as ! i) \<le> due_at s (as ! a)" using e len(4) by (simp add: due_at_def)
        then have "is_heap (due_at s) as"
          using down_ok_done [OF less.prems(2)] a(6) order_trans by blast
        then have "settled x s as (int i) s" using less.prems(1) by (auto simp: settled_def only_events_def)
        then show ?thesis using True a(1,2) e r(1,2) len by (simp add: wp_simps)
      next
        case down: False
        let ?s = "s\<lparr>events := (events s)[i := Some (as ! a)]\<rparr>"
        let ?as = "as[i := as ! a, a := x]"
        have due: "due_at ?s = due_at s" by (simp add: due_at_def fun_eq_iff)
        have h: "holed a x ?s ?as" by (rule holed_move [OF less.prems(1) a(4) ai(2)])
        have "due_at s (as ! a) < due_at s (as ! i)" using down e len(4) by (simp add: due_at_def)
        then have "down_ok (due_at s) ?as a"
          using down_ok_swap [OF less.prems(2) a(3,4,5) _ a(6)] len(4) by simp
        then have "wp (pop_loop (Some x) (int a)) (settled x ?s ?as) ?s"
          using less.hyps [OF _ h] ai(1) a(4) due by simp
        then have "wp (pop_loop (Some x) (int a)) (settled x s as) ?s"
        proof (rule wp_mono)
          fix b s' assume "settled x ?s ?as b s'"
          then show "settled x s as b s'"
            unfolding settled_def due
            using holed_mset [OF less.prems(1) a(4) ai(2)] only_events_trans [of s ?s] by (fastforce simp: only_events_def)
        qed
        then show ?thesis using down a(1,2) e r(1,2) len by (simp add: wp_simps)
      qed
    qed
    then show ?thesis
      using wp_mono [OF smaller_child_spec [OF less.prems(1) True]] True n
      by (subst wp_pop_loop) (simp add: wp_simps)
  qed
qed

text \<open>The last event, put over the first one: a heap but for its root.\<close>

lemma down_ok_root:
  assumes "is_heap k as" and "1 < length as"
  shows "down_ok k ((butlast as)[0 := last as]) 0"
proof -
  have "(butlast as)[0 := last as] ! j = as ! j" if "0 < j" "j < length as - 1" for j
    using that by (simp add: nth_butlast)
  moreover have "0 < par j" if "par j \<noteq> 0" for j using that by simp
  ultimately show ?thesis
    using assms less_trans [OF par_less] by (auto simp: down_ok_def is_heap_def)
qed

lemma mset_root: "1 < length as \<Longrightarrow> add_mset (as ! 0) (mset ((butlast as)[0 := last as])) = mset as"
proof (cases as)
  case (Cons a bs)
  assume "1 < length as"
  then have "bs \<noteq> []" using Cons by simp
  then show ?thesis using Cons
    by (simp add: append_butlast_last_id [symmetric] flip: mset_append)
       (metis add_mset_add_single append_butlast_last_id mset.simps(1) mset.simps(2) mset_append)
qed simp

lemma pop_spec:
  assumes h: "harray s as" "is_heap (due_at s) as" and ne: "as \<noteq> []"
  shows "wp min_heap_pop (\<lambda>_ s'. \<exists>as'. harray s' as' \<and> is_heap (due_at s) as' \<and>
    add_mset (as ! 0) (mset as') = mset as \<and> s' = s\<lparr>hsize := hsize s - 1, events := events s'\<rparr>) s"
    (is "wp _ ?Q s")
proof -
  let ?s = "s\<lparr>hsize := hsize s - 1\<rparr>"
  have due: "due_at ?s = due_at s" by (simp add: due_at_def fun_eq_iff)
  have n: "hsize s = int (length as)" and len: "length (events s) = 1024" "length as \<le> 1024"
    using h(1) by (auto simp: harray_def)
  have "nat (int (length as) - 1) = length as - 1" by simp
  then have ev: "events s ! nat (int (length as) - 1) = Some (last as)"
    using h(1) ne by (simp add: harray_def last_conv_nth)
  have pos: "0 < length as" using ne by simp
  have "wp (pop_loop (Some (last as)) 0) (\<lambda>i. wp (eset i (Some (last as))) ?Q) ?s"
  proof (cases "length as = 1")
    case True
    then obtain a where a: "as = [a]" by (auto simp: length_Suc_conv)
    then show ?thesis using n len h(1)
      by (subst wp_pop_loop) (auto simp: wp_simps harray_def is_heap_def)
  next
    case False
    then have two: "1 < length as" using pos by linarith
    let ?as = "(butlast as)[0 := last as]"
    have sub: "set ?as \<subseteq> set as" using ne by (auto dest!: in_set_butlastD set_update_subset_insert [THEN subsetD])
    have "holed 0 (last as) ?s ?as"
      using h(1) two sub by (auto simp: holed_def harray_def nth_butlast)
    then have "wp (pop_loop (Some (last as)) (int 0)) (settled (last as) ?s ?as) ?s"
      by (rule pop_loop_spec) (simp add: due down_ok_root [OF h(2) two, simplified])
    then have "wp (pop_loop (Some (last as)) 0) (settled (last as) ?s ?as) ?s" by simp
    then show ?thesis
    proof (rule wp_mono)
      fix r s' assume "settled (last as) ?s ?as r s'"
      then obtain j as' where j: "r = int j" "holed j (last as) s' as'" "is_heap (due_at s) as'"
          "mset as' = mset ?as" "s' = ?s\<lparr>events := events s'\<rparr>"
        unfolding settled_def due only_events_def by auto
      have "harray (s'\<lparr>events := (events s')[j := Some (last as)]\<rparr>) as'" by (rule fill_hole [OF j(2)])
      moreover have "j < length (events s')" using j(2) by (simp add: holed_def)
      moreover have "s'\<lparr>events := q\<rparr> = s\<lparr>hsize := hsize s - 1, events := q\<rparr>" for q
        by (subst j(5)) simp
      ultimately show "wp (eset r (Some (last as))) ?Q s'"
        using j(1,3,4) mset_root [OF two] by (auto simp: wp_simps)
    qed
  qed
  then show ?thesis using n len ev pos by (simp add: min_heap_pop_def wp_simps)
qed

section \<open>Firing\<close>

lemma wp_handle_loop: "wp (handle_loop run now) Q s = wp (bindP (gets hsize) (\<lambda>n. ifP (n > 0)
     (bindP (eat 0) (\<lambda>q. bindP (eget q) (\<lambda>e. ifP (timeout e \<le> now)
       (bindP min_heap_top (\<lambda>event. seqP min_heap_pop
         (bindP (eget event) (\<lambda>x. seqP (run (on_timeout x)) (seqP (free_event event) (handle_loop run now))))))
       (ret ()))))
     (ret ()))) Q s"
  unfolding wp_def by (subst handle_loop.simps) (rule refl)

text \<open>Callbacks that leave the heap alone; \<open>fired\<close> notes the ones that ran.\<close>

record timed_heap = min_heap +
  fired :: "nat list"

definition leaves_heap :: "(nat \<Rightarrow> ('a timed_heap_scheme, unit) prog) \<Rightarrow> bool" where
  "leaves_heap run \<longleftrightarrow> (\<forall>c s. wp (run c) (\<lambda>_ s'. events s' = events s \<and> hsize s' = hsize s \<and> emem s' = emem s \<and>
     fired s' = fired s @ [c]) s)"

text \<open>\<open>due\<close> ran, in this order, and was freed; \<open>kept\<close> is the heap now.\<close>

definition fires :: "int \<Rightarrow> 'a timed_heap_scheme \<Rightarrow> addr list \<Rightarrow> addr list \<Rightarrow> addr list \<Rightarrow> 'a timed_heap_scheme \<Rightarrow> bool" where
  "fires now s as due kept s' \<longleftrightarrow> mset as = mset due + mset kept \<and>
     sorted (map (due_at s) due) \<and> (\<forall>a \<in> set due. due_at s a \<le> now) \<and> (\<forall>a \<in> set kept. now < due_at s a) \<and>
     fired s' = fired s @ map (\<lambda>a. on_timeout (the (emem s a))) due \<and>
     harray s' kept \<and> is_heap (due_at s') kept \<and>
     emem s' = (\<lambda>a. if a \<in> set due then None else emem s a)"

lemma fires_none:
  assumes "harray s as" "is_heap (due_at s) as" and "as = [] \<or> now < due_at s (as ! 0)"
  shows "fires now s as [] as s"
proof -
  have "now < due_at s a" if "a \<in> set as" for a
  proof -
    from that obtain j where "j < length as" "a = as ! j" by (auto simp: in_set_conv_nth)
    then show ?thesis using is_heap_root [OF assms(2)] assms(3) by fastforce
  qed
  then show ?thesis using assms(1,2) by (simp add: fires_def)
qed

lemma fires_first:
  assumes h: "is_heap (due_at s) as" "as \<noteq> []" "distinct as" and now: "due_at s (as ! 0) \<le> now"
    and m: "add_mset (as ! 0) (mset as') = mset as"
    and t: "emem t = (emem s)(as ! 0 := None)" "fired t = fired s @ [on_timeout (the (emem s (as ! 0)))]"
    and f: "fires now t as' due kept s'"
  shows "fires now s as (as ! 0 # due) kept s'"
proof -
  have d: "mset (as ! 0 # as') = mset as" using m by simp
  then have a: "as ! 0 \<notin> set as'" using mset_eq_imp_distinct_iff [OF d] h(3) by simp
  have s: "set as' = set due \<union> set kept" using f by (metis fires_def mset_append set_append set_mset_mset)
  have same: "due_at t x = due_at s x \<and> emem t x = emem s x" if "x \<in> set as'" for x
    using that a t(1) by (auto simp: due_at_def)
  have least: "due_at s (as ! 0) \<le> due_at s x" if "x \<in> set due" for x
  proof -
    have "x \<in> set as" using that s d by (metis UnI1 list.set_intros(2) mset_eq_setD)
    then show ?thesis using is_heap_root [OF h(1)] by (auto simp: in_set_conv_nth)
  qed
  have mp: "map (due_at t) due = map (due_at s) due"
    "map (\<lambda>a. on_timeout (the (emem t a))) due = map (\<lambda>a. on_timeout (the (emem s a))) due"
    using same s by auto
  have ks: "\<forall>x \<in> set due. due_at s x \<le> now" "\<forall>x \<in> set kept. now < due_at s x"
    using f same s by (auto simp: fires_def)
  show ?thesis
    using f ks least now d mp t by (auto simp: fires_def fun_eq_iff simp del: map_eq_conv)
qed

lemma handle_loop_spec:
  fixes s :: "'a timed_heap_scheme"
  assumes run: "leaves_heap run"
  shows "harray s as \<Longrightarrow> is_heap (due_at s) as \<Longrightarrow> distinct as \<Longrightarrow>
    wp (handle_loop run now) (\<lambda>_ s'. \<exists>due kept. fires now s as due kept s') s"
proof (induction "length as" arbitrary: s as)
  case 0
  then show ?case using fires_none [OF 0(2,3)] by (subst wp_handle_loop) (auto simp: wp_simps harray_def)
next
  case (Suc n)
  let ?a = "as ! 0"
  have ne: "as \<noteq> []" "hsize s > 0" and len: "length (events s) = 1024" and ev: "events s ! 0 = Some ?a"
    using Suc.hyps(2) Suc.prems(1) by (auto simp: harray_def) (metis zero_less_Suc)
  obtain e where e: "emem s ?a = Some e" using Suc.prems(1) ne(1) by (fastforce simp: harray_def)
  show ?case
  proof (cases "timeout e \<le> now")
    case False
    then have "fires now s as [] as s" using fires_none [OF Suc.prems(1,2)] e by (simp add: due_at_def)
    then show ?thesis using ne len ev e False by (subst wp_handle_loop) (auto simp: wp_simps)
  next
    case True
    have "wp (seqP min_heap_pop (bindP (eget (Some ?a)) (\<lambda>x. seqP (run (on_timeout x))
        (seqP (free_event (Some ?a)) (handle_loop run now))))) (\<lambda>_ s'. \<exists>due kept. fires now s as due kept s') s"
      unfolding wp_seqP
    proof (rule wp_mono [OF pop_spec [OF Suc.prems(1,2) ne(1)]], elim exE conjE)
      fix s1 :: "'a timed_heap_scheme" and as'
      assume p: "harray s1 as'" "is_heap (due_at s) as'" "add_mset ?a (mset as') = mset as"
        and s1: "s1 = s\<lparr>hsize := hsize s - 1, events := events s1\<rparr>"
      have m1: "emem s1 = emem s" "fired s1 = fired s" by (subst s1, simp)+
      have d: "?a \<notin> set as'" "distinct as'"
        using mset_eq_imp_distinct_iff [of "?a # as'" as] p(3) Suc.prems(3) by auto
      have n: "n = length as'" using Suc.hyps(2) arg_cong [OF p(3), of size] by simp
      have r: "wp (run (on_timeout e)) (\<lambda>_ s'. events s' = events s1 \<and> hsize s' = hsize s1 \<and> emem s' = emem s1 \<and>
          fired s' = fired s1 @ [on_timeout e]) s1"
        using run by (simp add: leaves_heap_def)
      have "wp (run (on_timeout e)) (\<lambda>_. wp (seqP (free_event (Some ?a)) (handle_loop run now))
          (\<lambda>_ s'. \<exists>due kept. fires now s as due kept s')) s1"
      proof (rule wp_mono [OF r], elim conjE)
        fix s2 :: "'a timed_heap_scheme"
        assume s2: "events s2 = events s1" "hsize s2 = hsize s1" "emem s2 = emem s1" "fired s2 = fired s1 @ [on_timeout e]"
        let ?t = "s2\<lparr>emem := (emem s2)(?a := None)\<rparr>"
        have "harray ?t as'" using p(1) d(1) s2 by (auto simp: harray_def)
        moreover have "due_at ?t a = due_at s a" if "a \<in> set as'" for a
          using that d(1) s2(3) m1(1) by (auto simp: due_at_def)
        then have "is_heap (due_at ?t) as'"
          using p(2) is_heap_cong by blast
        ultimately have "wp (handle_loop run now) (\<lambda>_ s'. \<exists>due kept. fires now ?t as' due kept s') ?t"
          using Suc.hyps(1) n d(2) by blast
        then have "wp (handle_loop run now) (\<lambda>_ s'. \<exists>due kept. fires now s as due kept s') ?t"
        proof (rule wp_mono)
          fix u s' assume "\<exists>due kept. fires now ?t as' due kept s'"
          then obtain due kept where f: "fires now ?t as' due kept s'" by blast
          have "fires now s as (?a # due) kept s'"
            by (rule fires_first [OF Suc.prems(2) ne(1) Suc.prems(3) _ p(3) _ _ f])
              (use True e s2 m1 in \<open>simp_all add: due_at_def\<close>)
          then show "\<exists>due kept. fires now s as due kept s'" by blast
        qed
        then show "wp (seqP (free_event (Some ?a)) (handle_loop run now)) (\<lambda>_ s'. \<exists>due kept. fires now s as due kept s') s2"
          using s2 m1 e by (simp add: wp_simps)
      qed
      then show "wp (bindP (eget (Some ?a)) (\<lambda>x. seqP (run (on_timeout x)) (seqP (free_event (Some ?a)) (handle_loop run now))))
          (\<lambda>_ s'. \<exists>due kept. fires now s as due kept s') s1"
        using m1 e by (simp add: wp_bindP wp_eget wp_seqP)
    qed
    then show ?thesis using ne len ev e True
      by (subst wp_handle_loop) (simp add: wp_bindP wp_eget wp_seqP wp_ifP wp_gets wp_eat min_heap_top_def)
  qed
qed

section \<open>The queue of timers\<close>

text \<open>\<open>as\<close> is the heap, and the allocator's next block is not in use.\<close>

definition queue :: "'a min_heap_scheme \<Rightarrow> addr list \<Rightarrow> bool" where
  "queue s as \<longleftrightarrow> harray s as \<and> is_heap (due_at s) as \<and> distinct as \<and> (\<forall>a \<ge> ebrk s. emem s a = None)"

lemma eset_out: "length (events s) = 1024 \<Longrightarrow> eset 1024 p s = Some (Fault OutOfBounds, s)"
  by (simp add: eset_def run_simps)

lemma push_full:
  assumes h: "harray s as" "length as = 1024" and x: "emem s x \<noteq> None"
  shows "\<exists>s'. min_heap_push (Some x) s = Some (Fault OutOfBounds, s')"
proof -
  let ?s = "s\<lparr>hsize := hsize s + 1\<rparr>"
  have n: "hsize s = 1024" and len: "length (events ?s) = 1024" and ev: "events s ! 511 = Some (as ! 511)"
    using h by (auto simp: harray_def)
  obtain y where y: "emem s x = Some y" using x by auto
  obtain e where e: "emem s (as ! 511) = Some e"
    using h nth_mem [of 511 as] unfolding harray_def by fastforce
  have "push_loop (Some x) 1024 ?s = (if timeout e \<le> timeout y then Some (Ret 1024, ?s) else Some (Fault OutOfBounds, ?s))"
    using len ev e y by (subst push_loop.simps) (simp add: run_simps eat_def eget_def eset_def)
  then show ?thesis
    using eset_out [OF len] by (simp add: min_heap_push_def run_simps n)
qed

text \<open>
  \<open>add_timer\<close> of \<open>test/timer/timer.c\<close>. While the heap holds fewer than 1024 timers, it returns with one timer
  more, due \<open>delay\<close> seconds from now with its callback, the others as they were, and the array is a heap in
  time order again. The 1025th timer is written past the end of the array, since nothing compares the size with
  the array's length; and an allocation that failed is dereferenced.
\<close>

theorem add_timer_capacity:
  fixes s :: "'a min_heap_scheme"
  assumes "queue s as"
  shows "(length as < 1024 \<longrightarrow> wp (add_timer (Some junk) now delay callback) (\<lambda>_ s'. \<exists>as' a. queue s' as' \<and>
      mset as' = add_mset a (mset as) \<and> a \<notin> set as \<and> emem s' = (emem s)(a := emem s' a) \<and>
      map_option timeout (emem s' a) = Some (now + delay) \<and> map_option on_timeout (emem s' a) = Some callback \<and>
      min_heap.more s' = min_heap.more s) s) \<and>
    (length as = 1024 \<longrightarrow> (\<exists>s'. add_timer (Some junk) now delay callback s = Some (Fault OutOfBounds, s'))) \<and>
    add_timer None now delay callback s = Some (Fault NullDeref, s)"
proof -
  let ?a = "ebrk s"
  let ?e = "junk\<lparr>timeout := now + delay, on_timeout := callback\<rparr>"
  let ?s = "s\<lparr>ebrk := Suc ?a, emem := (emem s)(?a := Some ?e)\<rparr>"
  have q: "harray s as" "is_heap (due_at s) as" "distinct as" "\<And>b. ?a \<le> b \<Longrightarrow> emem s b = None"
    using assms by (auto simp: queue_def)
  have new: "?a \<notin> set as" using q(1) q(4) [of ?a] by (auto simp: harray_def)
  have arr: "harray ?s as" using q(1) by (auto simp: harray_def)
  have "due_at ?s a = due_at s a" if "a \<in> set as" for a using that new by (auto simp: due_at_def)
  then have heap: "is_heap (due_at ?s) as" using q(2) is_heap_cong by blast
  show ?thesis
  proof (intro conjI impI)
    assume "length as < 1024"
    then have "wp (min_heap_push (Some ?a)) (\<lambda>_ s'. \<exists>as'. harray s' as' \<and> is_heap (due_at ?s) as' \<and>
        mset as' = add_mset ?a (mset as) \<and> s' = ?s\<lparr>hsize := hsize ?s + 1, events := events s'\<rparr>) ?s"
      using push_spec [OF arr heap] by simp
    then have "wp (min_heap_push (Some ?a)) (\<lambda>_ s'. \<exists>as' a. queue s' as' \<and>
        mset as' = add_mset a (mset as) \<and> a \<notin> set as \<and> emem s' = (emem s)(a := emem s' a) \<and>
        map_option timeout (emem s' a) = Some (now + delay) \<and> map_option on_timeout (emem s' a) = Some callback \<and>
        min_heap.more s' = min_heap.more s) ?s"
    proof (rule wp_mono, elim exE conjE)
      fix s' :: "'a min_heap_scheme" and as'
      assume p: "harray s' as'" "is_heap (due_at ?s) as'" "mset as' = add_mset ?a (mset as)"
        and s': "s' = ?s\<lparr>hsize := hsize ?s + 1, events := events s'\<rparr>"
      have m: "emem s' = (emem s)(?a := Some ?e)" "ebrk s' = Suc ?a" "min_heap.more s' = min_heap.more s"
        by (subst s', simp)+
      have "distinct as'" using mset_eq_imp_distinct_iff [of "?a # as" as'] p(3) new q(3) by simp
      moreover have "due_at s' = due_at ?s" by (simp add: due_at_def m fun_eq_iff)
      ultimately have "queue s' as'" using p(1,2) m(1,2) q(4) by (simp add: queue_def)
      then show "\<exists>as' a. queue s' as' \<and> mset as' = add_mset a (mset as) \<and> a \<notin> set as \<and>
          emem s' = (emem s)(a := emem s' a) \<and> map_option timeout (emem s' a) = Some (now + delay) \<and>
          map_option on_timeout (emem s' a) = Some callback \<and> min_heap.more s' = min_heap.more s"
        using p(3) new m by (intro exI [of _ as'] exI [of _ ?a]) simp
    qed
    then show "wp (add_timer (Some junk) now delay callback) (\<lambda>_ s'. \<exists>as' a. queue s' as' \<and>
        mset as' = add_mset a (mset as) \<and> a \<notin> set as \<and> emem s' = (emem s)(a := emem s' a) \<and>
        map_option timeout (emem s' a) = Some (now + delay) \<and> map_option on_timeout (emem s' a) = Some callback \<and>
        min_heap.more s' = min_heap.more s) s"
      by (simp add: add_timer_def wp_simps)
  next
    assume "length as = 1024"
    then show "\<exists>s'. add_timer (Some junk) now delay callback s = Some (Fault OutOfBounds, s')"
      using push_full [OF arr] by (simp add: add_timer_def run_simps)
  next
    show "add_timer None now delay callback s = Some (Fault NullDeref, s)" by (simp add: add_timer_def run_simps)
  qed
qed

text \<open>
  C22: \<open>handle_events\<close> of \<open>test/timer/timer.c\<close>, on any heap and with callbacks that leave the heap alone. It returns;
  exactly the timers due by now have run, earliest first, each once and freed after its callback; the ones that
  stay are due later and form a heap again.
\<close>

theorem handle_events_due:
  fixes s :: "'a timed_heap_scheme"
  assumes "queue s as" and "leaves_heap run"
  shows "wp (handle_events run now) (\<lambda>_ s'. \<exists>due kept. mset as = mset due + mset kept \<and>
    sorted (map (due_at s) due) \<and> (\<forall>a \<in> set due. due_at s a \<le> now) \<and> (\<forall>a \<in> set kept. now < due_at s a) \<and>
    fired s' = fired s @ map (\<lambda>a. on_timeout (the (emem s a))) due \<and>
    harray s' kept \<and> is_heap (due_at s') kept \<and>
    emem s' = (\<lambda>a. if a \<in> set due then None else emem s a)) s"
  using handle_loop_spec [OF assms(2)] assms(1)
  by (simp add: queue_def handle_events_def fires_def)

definition two_timers :: "unit timed_heap_scheme" where
  "two_timers = \<lparr>events = Some 0 # Some 1 # replicate 1022 None, hsize = 2,
     emem = [0 \<mapsto> \<lparr>timeout = 5, on_timeout = 7\<rparr>, 1 \<mapsto> \<lparr>timeout = 10, on_timeout = 8\<rparr>], ebrk = 2, fired = []\<rparr>"

definition note_call :: "nat \<Rightarrow> (unit timed_heap_scheme, unit) prog" where
  "note_call c = modify (\<lambda>s. s\<lparr>fired := fired s @ [c]\<rparr>)"

lemma two_timers_queue: "queue two_timers [0, 1]"
  by (auto simp: queue_def two_timers_def harray_def is_heap_def due_at_def less_Suc_eq par_def numeral_2_eq_2)

lemma note_call_leaves: "leaves_heap note_call"
  by (simp add: leaves_heap_def note_call_def wp_simps)

lemma add_timer_capacity_witness:
  "queue two_timers [0, 1] \<and> (\<exists>s'. add_timer (Some \<lparr>timeout = 0, on_timeout = 0\<rparr>) 1 3 9 two_timers = Some (Ret (), s') \<and>
     (\<exists>as a. queue s' as \<and> mset as = {#0, 1, a#} \<and> map_option timeout (emem s' a) = Some 4))"
  using two_timers_queue
    add_timer_capacity [OF two_timers_queue, of "\<lparr>timeout = 0, on_timeout = 0\<rparr>" 1 3 9]
  by (fastforce simp: wp_iff add_mset_commute)

lemma handle_events_due_witness:
  "queue two_timers [0, 1] \<and> leaves_heap note_call \<and>
   (\<exists>s'. handle_events note_call 6 two_timers = Some (Ret (), s') \<and> fired s' = [7])"
proof -
  obtain s' due kept where r: "handle_events note_call 6 two_timers = Some (Ret (), s')"
    and m: "mset [0, 1] = mset due + mset kept"
    and d: "\<forall>a \<in> set due. due_at two_timers a \<le> 6" "\<forall>a \<in> set kept. 6 < due_at two_timers a"
    and f: "fired s' = fired two_timers @ map (\<lambda>a. on_timeout (the (emem two_timers a))) due"
    using handle_events_due [OF two_timers_queue note_call_leaves, of 6] by (auto simp: wp_iff)
  have "mset due = filter_mset (\<lambda>a. due_at two_timers a \<le> 6) (mset due + mset kept)"
    using d by (auto simp: filter_id_conv filter_empty_conv not_le simp flip: mset_filter)
  also have "\<dots> = mset [0]" unfolding m [symmetric] by (simp add: due_at_def two_timers_def)
  finally have "due = [0]" by simp
  then have "fired s' = [7]" using f by (simp add: two_timers_def)
  then show ?thesis using r two_timers_queue note_call_leaves by simp
qed

end
