(* ===== verification/RbTree.thy ===== *)
theory RbTree
  imports Prelude
begin

text \<open>
  The red-black tree of \<open>moudles/test/rbtree.c\<close>: nodes with pointers to their children and their parent, in a
  store. The operations but deletion, the rotations, and what a red-black tree is; \<open>RbInsert\<close> has insertion and
  search, \<open>RbDelete\<close> deletion. The pointer structure is refined to a tree, and the places the loops stand at to
  contexts of a tree.
\<close>

section \<open>State and access\<close>

datatype Color = RED | BLACK

record Node =
  key :: int
  color :: Color
  left :: ptr
  right :: ptr
  parent :: ptr

record rb_state =
  vmem :: "addr \<Rightarrow> Node option"
  vbrk :: addr
  root :: ptr                  \<comment> \<open>the variable that \<open>Node **root\<close> points to\<close>
  printed :: "int list"

definition node_get :: "ptr \<Rightarrow> ('a rb_state_scheme, Node) prog" where
  "node_get p s = (case p of None \<Rightarrow> fault NullDeref s
     | Some a \<Rightarrow> (case vmem s a of None \<Rightarrow> fault BadPtr s | Some n \<Rightarrow> ret n s))"

definition fld :: "(Node \<Rightarrow> 'b) \<Rightarrow> ptr \<Rightarrow> ('a rb_state_scheme, 'b) prog" where
  "fld f p = bindP (node_get p) (\<lambda>n. ret (f n))"

definition node_put :: "ptr \<Rightarrow> (Node \<Rightarrow> Node) \<Rightarrow> ('a rb_state_scheme, unit) prog" where
  "node_put p f = bindP (node_get p) (\<lambda>n. modify (\<lambda>s. s\<lparr>vmem := (vmem s)(the p := Some (f n))\<rparr>))"

definition set_root :: "ptr \<Rightarrow> ('a rb_state_scheme, unit) prog" where
  "set_root p = modify (\<lambda>s. s\<lparr>root := p\<rparr>)"

definition set_color :: "Color \<Rightarrow> ptr \<Rightarrow> ('a rb_state_scheme, unit) prog" where
  "set_color c p = node_put p (\<lambda>n. n\<lparr>color := c\<rparr>)"

definition free_tree_node :: "ptr \<Rightarrow> ('a rb_state_scheme, unit) prog" where
  "free_tree_node p s = (case p of None \<Rightarrow> ret () s
     | Some a \<Rightarrow> if vmem s a = None then fault DoubleFree s else ret () (s\<lparr>vmem := (vmem s)(a := None)\<rparr>))"

text \<open>\<open>p != NULL && p->color == RED\<close>\<close>

definition is_red :: "ptr \<Rightarrow> ('a rb_state_scheme, bool) prog" where
  "is_red p = (if p = NULL then ret False else bindP (fld color p) (\<lambda>c. ret (c = RED)))"

section \<open>Operations\<close>

text \<open>\<open>mem\<close> is what \<open>malloc\<close> answers: no memory, or a block with an indeterminate content.\<close>

definition createNode :: "Node option \<Rightarrow> int \<Rightarrow> ('a rb_state_scheme, ptr) prog" where
  "createNode mem k = (case mem of
       None \<Rightarrow> fault NullDeref
     | Some junk \<Rightarrow> bindP (gets vbrk) (\<lambda>a. seqP
         (modify (\<lambda>s. s\<lparr>vbrk := Suc a,
            vmem := (vmem s)(a := Some (junk\<lparr>key := k, color := RED, left := NULL, right := NULL, parent := NULL\<rparr>))\<rparr>))
         (ret (Some a))))"

text \<open>Lets the place of \<open>u\<close> in the tree point to \<open>v\<close>.\<close>

definition replace_child :: "ptr \<Rightarrow> ptr \<Rightarrow> ('a rb_state_scheme, unit) prog" where
  "replace_child u v = bindP (fld parent u) (\<lambda>p.
     if p = NULL then set_root v
     else bindP (fld left p) (\<lambda>l.
       if u = l then node_put p (\<lambda>n. n\<lparr>left := v\<rparr>) else node_put p (\<lambda>n. n\<lparr>right := v\<rparr>)))"

definition leftRotate :: "ptr \<Rightarrow> ('a rb_state_scheme, unit) prog" where
  "leftRotate x = bindP (fld right x) (\<lambda>y. blockP
     [bindP (fld left y) (\<lambda>p. node_put x (\<lambda>n. n\<lparr>right := p\<rparr>)),
      bindP (fld right x) (\<lambda>p. whenP (p \<noteq> NULL) (node_put p (\<lambda>n. n\<lparr>parent := x\<rparr>))),
      bindP (fld parent x) (\<lambda>p. node_put y (\<lambda>n. n\<lparr>parent := p\<rparr>)),
      replace_child x y,
      node_put y (\<lambda>n. n\<lparr>left := x\<rparr>),
      node_put x (\<lambda>n. n\<lparr>parent := y\<rparr>)])"

definition rightRotate :: "ptr \<Rightarrow> ('a rb_state_scheme, unit) prog" where
  "rightRotate y = bindP (fld left y) (\<lambda>x. blockP
     [bindP (fld right x) (\<lambda>p. node_put y (\<lambda>n. n\<lparr>left := p\<rparr>)),
      bindP (fld left y) (\<lambda>p. whenP (p \<noteq> NULL) (node_put p (\<lambda>n. n\<lparr>parent := y\<rparr>))),
      bindP (fld parent y) (\<lambda>p. node_put x (\<lambda>n. n\<lparr>parent := p\<rparr>)),
      replace_child y x,
      node_put x (\<lambda>n. n\<lparr>right := y\<rparr>),
      node_put y (\<lambda>n. n\<lparr>parent := x\<rparr>)])"

text \<open>
  One turn of the loop of \<open>fixInsert\<close>; it gives the next \<open>z\<close>. The two halves of the body are mirror images:
  \<open>other\<close> is the child that is the uncle's side, \<open>inner\<close> and \<open>outer\<close> are the rotations.
\<close>

definition insert_finish :: "(ptr \<Rightarrow> ('a rb_state_scheme, unit) prog) \<Rightarrow> ptr \<Rightarrow> ('a rb_state_scheme, ptr) prog" where
  "insert_finish outer z =
     seqP (bindP (fld parent z) (set_color BLACK))
    (seqP (bindP (bindP (fld parent z) (fld parent)) (set_color RED))
    (seqP (bindP (bindP (fld parent z) (fld parent)) outer)
      (ret z)))"

definition insert_side ::
  "(Node \<Rightarrow> ptr) \<Rightarrow> (ptr \<Rightarrow> ('a rb_state_scheme, unit) prog) \<Rightarrow> (ptr \<Rightarrow> ('a rb_state_scheme, unit) prog)
     \<Rightarrow> ptr \<Rightarrow> ('a rb_state_scheme, ptr) prog" where
  "insert_side other inner outer z =
     bindP (bindP (bindP (fld parent z) (fld parent)) (fld other)) (\<lambda>y. bindP (is_red y) (\<lambda>b.
       if b then
         seqP (bindP (fld parent z) (set_color BLACK))
        (seqP (set_color BLACK y)
        (seqP (bindP (bindP (fld parent z) (fld parent)) (set_color RED))
          (bindP (fld parent z) (fld parent))))
       else
         bindP (bindP (bindP (fld parent z) (fld other)) (\<lambda>q.
             if z = q then bindP (fld parent z) (\<lambda>z. seqP (inner z) (ret z)) else ret z))
           (insert_finish outer)))"

definition insert_turn :: "ptr \<Rightarrow> ('a rb_state_scheme, ptr) prog" where
  "insert_turn z = bindP (fld parent z) (\<lambda>p. bindP (bindP (bindP (fld parent z) (fld parent)) (fld left)) (\<lambda>l.
     if p = l then insert_side right leftRotate rightRotate z else insert_side left rightRotate leftRotate z))"

partial_function (option) insert_loop :: "ptr \<Rightarrow> 'a rb_state_scheme \<Rightarrow> (unit res \<times> 'a rb_state_scheme) option" where
  "insert_loop z s = bindP (gets root) (\<lambda>r. ifP (z \<noteq> r)
     (bindP (bindP (fld parent z) (fld color)) (\<lambda>c. ifP (c = RED)
       (bindP (insert_turn z) (\<lambda>z. insert_loop z)) (ret ())))
     (ret ())) s"

definition fixInsert :: "ptr \<Rightarrow> ('a rb_state_scheme, unit) prog" where
  "fixInsert z = seqP (insert_loop z) (bindP (gets root) (set_color BLACK))"

text \<open>The descent; it gives the last \<open>y\<close>.\<close>

partial_function (option) place_loop :: "ptr \<Rightarrow> ptr \<Rightarrow> ptr \<Rightarrow> 'a rb_state_scheme \<Rightarrow> (ptr res \<times> 'a rb_state_scheme) option" where
  "place_loop z y x s = ifP (x \<noteq> NULL)
     (bindP (fld key z) (\<lambda>k. bindP (fld key x) (\<lambda>k'.
        bindP (if k < k' then fld left x else fld right x) (\<lambda>x'. place_loop z x x'))))
     (ret y) s"

definition insertNode :: "Node option \<Rightarrow> int \<Rightarrow> ('a rb_state_scheme, unit) prog" where
  "insertNode mem k = bindP (createNode mem k) (\<lambda>z.
     bindP (bindP (gets root) (place_loop z NULL)) (\<lambda>y. blockP
       [node_put z (\<lambda>n. n\<lparr>parent := y\<rparr>),
        if y = NULL then set_root z
        else bindP (fld key z) (\<lambda>k. bindP (fld key y) (\<lambda>k'.
          if k < k' then node_put y (\<lambda>n. n\<lparr>left := z\<rparr>) else node_put y (\<lambda>n. n\<lparr>right := z\<rparr>))),
        fixInsert z]))"

partial_function (option) searchNode :: "ptr \<Rightarrow> int \<Rightarrow> 'a rb_state_scheme \<Rightarrow> (ptr res \<times> 'a rb_state_scheme) option" where
  "searchNode p k s = ifP (p = NULL) (ret p)
     (bindP (fld key p) (\<lambda>k'. ifP (k' = k) (ret p)
       (bindP (if k < k' then fld left p else fld right p) (\<lambda>q. searchNode q k)))) s"

partial_function (option) getMinimumNode :: "ptr \<Rightarrow> 'a rb_state_scheme \<Rightarrow> (ptr res \<times> 'a rb_state_scheme) option" where
  "getMinimumNode p s = bindP (fld left p) (\<lambda>l. ifP (l \<noteq> NULL) (getMinimumNode l) (ret p)) s"

partial_function (option) inorderTraversal :: "ptr \<Rightarrow> 'a rb_state_scheme \<Rightarrow> (unit res \<times> 'a rb_state_scheme) option" where
  "inorderTraversal p s = ifP (p = NULL) (ret ())
     (seqP (bindP (fld left p) (\<lambda>l. inorderTraversal l))
     (seqP (bindP (fld key p) (\<lambda>k. modify (\<lambda>s. s\<lparr>printed := printed s @ [k]\<rparr>)))
       (bindP (fld right p) (\<lambda>r. inorderTraversal r)))) s"

section \<open>Trees and contexts\<close>

datatype tree = Leaf | Br tree addr Color int tree

text \<open>A context is a path from a subtree to the root: above a left child, or above a right child.\<close>

datatype frame = AboveL addr Color int tree | AboveR tree addr Color int

fun at :: "tree \<Rightarrow> ptr" where
  "at Leaf = NULL"
| "at (Br l a c k r) = Some a"

fun up :: "frame list \<Rightarrow> ptr" where
  "up [] = NULL"
| "up (AboveL a c k r # fs) = Some a"
| "up (AboveR l a c k # fs) = Some a"

fun plug :: "tree \<Rightarrow> frame list \<Rightarrow> tree" where
  "plug t [] = t"
| "plug t (AboveL a c k r # fs) = plug (Br t a c k r) fs"
| "plug t (AboveR l a c k # fs) = plug (Br l a c k t) fs"

fun entries :: "tree \<Rightarrow> (addr \<times> int) list" where
  "entries Leaf = []"
| "entries (Br l a c k r) = entries l @ (a, k) # entries r"

fun before :: "frame list \<Rightarrow> (addr \<times> int) list" where
  "before [] = []"
| "before (AboveL a c k r # fs) = before fs"
| "before (AboveR l a c k # fs) = before fs @ entries l @ [(a, k)]"

fun after :: "frame list \<Rightarrow> (addr \<times> int) list" where
  "after [] = []"
| "after (AboveL a c k r # fs) = (a, k) # entries r @ after fs"
| "after (AboveR l a c k # fs) = after fs"

abbreviation keys :: "tree \<Rightarrow> int list" where
  "keys t \<equiv> map snd (entries t)"

abbreviation ads :: "(addr \<times> int) list \<Rightarrow> addr set" where
  "ads es \<equiv> fst ` set es"

lemma entries_plug: "entries (plug t fs) = before fs @ entries t @ after fs"
  by (induction t fs rule: plug.induct) auto

declare image_Un [simp]

text \<open>The memory holds the subtree \<open>t\<close> whose parent is \<open>p\<close>; and the context around a subtree at \<open>p\<close>.\<close>

fun tree_at :: "(addr \<Rightarrow> Node option) \<Rightarrow> ptr \<Rightarrow> tree \<Rightarrow> bool" where
  "tree_at m p Leaf = True"
| "tree_at m p (Br l a c k r) \<longleftrightarrow> m a = Some \<lparr>key = k, color = c, left = at l, right = at r, parent = p\<rparr> \<and>
     tree_at m (Some a) l \<and> tree_at m (Some a) r"

fun ctx_at :: "(addr \<Rightarrow> Node option) \<Rightarrow> ptr \<Rightarrow> frame list \<Rightarrow> bool" where
  "ctx_at m p [] = True"
| "ctx_at m p (AboveL a c k r # fs) \<longleftrightarrow>
     m a = Some \<lparr>key = k, color = c, left = p, right = at r, parent = up fs\<rparr> \<and> tree_at m (Some a) r \<and> ctx_at m (Some a) fs"
| "ctx_at m p (AboveR l a c k # fs) \<longleftrightarrow>
     m a = Some \<lparr>key = k, color = c, left = at l, right = p, parent = up fs\<rparr> \<and> tree_at m (Some a) l \<and> ctx_at m (Some a) fs"

lemma tree_at_plug: "tree_at m NULL (plug t fs) \<longleftrightarrow> tree_at m (up fs) t \<and> ctx_at m (at t) fs"
  by (induction t fs rule: plug.induct) auto

lemma tree_at_upd [simp]: "a \<notin> ads (entries t) \<Longrightarrow> tree_at (m(a := v)) p t = tree_at m p t"
  by (induction t arbitrary: p) auto

lemma ctx_at_upd [simp]: "a \<notin> ads (before fs) \<Longrightarrow> a \<notin> ads (after fs) \<Longrightarrow> ctx_at (m(a := v)) p fs = ctx_at m p fs"
  by (induction fs arbitrary: p rule: before.induct) auto

lemma at_in [simp]: "at t = Some a \<Longrightarrow> a \<in> ads (entries t)"
  by (cases t) auto

text \<open>Where the variable \<open>root\<close> points when the subtree in the context is at \<open>p\<close>.\<close>

fun top :: "ptr \<Rightarrow> frame list \<Rightarrow> ptr" where
  "top p [] = p"
| "top p (AboveL a c k r # fs) = top (Some a) fs"
| "top p (AboveR l a c k # fs) = top (Some a) fs"

lemma at_plug: "at (plug t fs) = top (at t) fs"
  by (induction t fs rule: plug.induct) auto

definition holds_tree :: "'a rb_state_scheme \<Rightarrow> tree \<Rightarrow> bool" where
  "holds_tree s t \<longleftrightarrow> tree_at (vmem s) NULL t \<and> root s = at t \<and> distinct (map fst (entries t)) \<and>
     dom (vmem s) = ads (entries t) \<and> (\<forall>a \<in> ads (entries t). a < vbrk s)"

lemma wp_fld [wp_simps]: "wp (fld f p) Q s \<longleftrightarrow> (\<exists>a n. p = Some a \<and> vmem s a = Some n \<and> Q (f n) s)"
  by (simp add: fld_def node_get_def wp_def run_simps split: option.splits)

lemma wp_node_put [wp_simps]: "wp (node_put p f) Q s \<longleftrightarrow>
    (\<exists>a n. p = Some a \<and> vmem s a = Some n \<and> Q () (s\<lparr>vmem := (vmem s)(a := Some (f n))\<rparr>))"
  by (simp add: node_put_def node_get_def wp_def run_simps split: option.splits)

lemma wp_set_root [wp_simps]: "wp (set_root p) Q s = Q () (s\<lparr>root := p\<rparr>)"
  by (simp add: set_root_def wp_simps)

lemma wp_set_color [wp_simps]: "wp (set_color c p) Q s \<longleftrightarrow>
    (\<exists>a n. p = Some a \<and> vmem s a = Some n \<and> Q () (s\<lparr>vmem := (vmem s)(a := Some (n\<lparr>color := c\<rparr>))\<rparr>))"
  by (simp add: set_color_def wp_simps)

lemma wp_free_tree_node [wp_simps]:
  "wp (free_tree_node p) Q s \<longleftrightarrow> (case p of None \<Rightarrow> Q () s
     | Some a \<Rightarrow> vmem s a \<noteq> None \<and> Q () (s\<lparr>vmem := (vmem s)(a := None)\<rparr>))"
  by (simp add: free_tree_node_def wp_def run_simps split: option.splits)

lemma wp_is_red [wp_simps]: "wp (is_red p) Q s \<longleftrightarrow> (case p of None \<Rightarrow> Q False s
    | Some a \<Rightarrow> (\<exists>n. vmem s a = Some n \<and> Q (color n = RED) s))"
  by (simp add: is_red_def wp_simps split: option.splits)

lemma wp_ret_eta: "wp (ret a) Q = Q a"
  by (simp add: fun_eq_iff wp_ret)

section \<open>Rotations\<close>

text \<open>What the place of a subtree points to, and the memory of a context that points to something else.\<close>

fun redirect :: "ptr \<Rightarrow> frame list \<Rightarrow> (addr \<Rightarrow> Node option) \<Rightarrow> addr \<Rightarrow> Node option" where
  "redirect p [] m = m"
| "redirect p (AboveL a c k r # fs) m = m(a := Some \<lparr>key = k, color = c, left = p, right = at r, parent = up fs\<rparr>)"
| "redirect p (AboveR l a c k # fs) m = m(a := Some \<lparr>key = k, color = c, left = at l, right = p, parent = up fs\<rparr>)"

abbreviation outside :: "addr \<Rightarrow> frame list \<Rightarrow> bool" where
  "outside a fs \<equiv> a \<notin> ads (before fs) \<and> a \<notin> ads (after fs)"

lemma redirect_other: "outside a fs \<Longrightarrow> redirect p fs m a = m a"
  by (cases fs rule: up.cases) auto

lemma redirect_tree: "ads (entries t) \<inter> ads (before fs) = {} \<Longrightarrow> ads (entries t) \<inter> ads (after fs) = {} \<Longrightarrow>
    tree_at (redirect p fs m) q t = tree_at m q t"
  by (cases fs rule: up.cases) auto

lemma redirect_ctx: "ctx_at m p fs \<Longrightarrow> distinct (map fst (before fs @ after fs)) \<Longrightarrow> ctx_at (redirect q fs m) q fs"
  by (cases fs rule: up.cases) auto

lemma redirect_dom: "ctx_at m p fs \<Longrightarrow> dom (redirect q fs m) = dom m"
  by (cases fs rule: up.cases) auto

lemma top_up: "fs \<noteq> [] \<Longrightarrow> top p fs = top q fs"
  by (cases fs rule: up.cases) auto

lemma replace_child_run:
  assumes "ctx_at (vmem s) (Some u) fs" and "vmem s u = Some n" "parent n = up fs" and "outside u fs"
    and "root s = top r fs"
  shows "wp (replace_child (Some u) v) (\<lambda>_ s'. s' = s\<lparr>vmem := redirect v fs (vmem s), root := top v fs\<rparr>) s"
  using assms by (cases fs rule: up.cases) (auto simp: replace_child_def wp_simps dest: at_in)

text \<open>The memory after the root of a subtree got another parent.\<close>

fun adopt :: "ptr \<Rightarrow> tree \<Rightarrow> (addr \<Rightarrow> Node option) \<Rightarrow> addr \<Rightarrow> Node option" where
  "adopt p Leaf m = m"
| "adopt p (Br l a c k r) m = m(a := Some \<lparr>key = k, color = c, left = at l, right = at r, parent = p\<rparr>)"

lemma adopt_tree: "tree_at m q t \<Longrightarrow> distinct (map fst (entries t)) \<Longrightarrow> tree_at (adopt p t m) p t"
  by (cases t) auto

lemma adopt_other: "a \<notin> ads (entries t) \<Longrightarrow> adopt p t m a = m a"
  by (cases t) auto

lemma adopt_tree_other: "ads (entries t) \<inter> ads (entries t') = {} \<Longrightarrow> tree_at (adopt p t' m) q t = tree_at m q t"
  by (cases t') auto

lemma adopt_ctx: "ads (entries t) \<inter> ads (before fs) = {} \<Longrightarrow> ads (entries t) \<inter> ads (after fs) = {} \<Longrightarrow>
    ctx_at (adopt p t m) q fs = ctx_at m q fs"
  by (cases t) auto

lemma adopt_dom: "tree_at m q t \<Longrightarrow> dom (adopt p t m) = dom m"
  by (cases t) auto

lemma adopt_run:
  assumes "tree_at (vmem s) q t" and "P \<longleftrightarrow> at t \<noteq> NULL"
  shows "wp (whenP P (node_put (at t) (\<lambda>n. n\<lparr>parent := p\<rparr>))) (\<lambda>_ s'. s' = s\<lparr>vmem := adopt p t (vmem s)\<rparr>) s"
  using assms by (cases t) (auto simp: wp_simps)

text \<open>
  Both rotations rewrite the memory in the same order: the old root \<open>u\<close> takes over the subtree \<open>B\<close>, the new root
  \<open>v\<close> gets its parent, the context is redirected, and \<open>u\<close> and \<open>v\<close> are linked.
\<close>

definition disjoint_parts :: "addr \<Rightarrow> addr \<Rightarrow> tree \<Rightarrow> tree \<Rightarrow> tree \<Rightarrow> frame list \<Rightarrow> bool" where
  "disjoint_parts u v A B C fs \<longleftrightarrow> u \<noteq> v \<and> outside u fs \<and> outside v fs \<and> distinct (map fst (entries B)) \<and>
     distinct (map fst (before fs @ after fs)) \<and>
     (\<forall>t \<in> {A, B, C}. u \<notin> ads (entries t) \<and> v \<notin> ads (entries t) \<and>
        ads (entries t) \<inter> ads (before fs) = {} \<and> ads (entries t) \<inter> ads (after fs) = {}) \<and>
     ads (entries A) \<inter> ads (entries B) = {} \<and> ads (entries C) \<inter> ads (entries B) = {}"

lemma disjoint_partsI:
  assumes "distinct (map fst (before fs @ (entries A @ (u, k) # entries B @ (v, l) # entries C) @ after fs)) \<or>
    distinct (map fst (before fs @ (entries C @ (v, l) # entries B @ (u, k) # entries A) @ after fs))"
  shows "disjoint_parts u v A B C fs"
  using assms by (elim disjE; simp add: disjoint_parts_def Int_Un_distrib Int_commute; blast)

lemma rotate_mem:
  assumes d: "disjoint_parts u v A B C fs" and m: "tree_at m (Some v) B" "ctx_at m (Some u) fs" "m u \<noteq> None" "m v \<noteq> None"
    and m1: "m1 = m(u := Some n1)" and m2: "m2 = adopt (Some u) B m1" and m3: "m3 = m2(v := Some n3)"
    and m4: "m4 = redirect (Some v) fs m3" and m6: "m6 = m4(v := Some n5, u := Some n6)"
  shows "tree_at m1 (Some v) B" and "m1 u = Some n1" "m1 v = m v"
    and "m2 u = Some n1" "m2 v = m v" and "m3 u = Some n1" "m3 v = Some n3" and "ctx_at m3 (Some u) fs"
    and "m4 u = Some n1" "m4 v = Some n3"
    and "m6 u = Some n6" "m6 v = Some n5" and "tree_at m6 p A = tree_at m p A" "tree_at m6 p C = tree_at m p C"
    and "tree_at m6 (Some u) B" and "ctx_at m6 (Some v) fs" and "dom m6 = dom m"
proof -
  have uv: "u \<noteq> v" "outside u fs" "outside v fs" and dB: "distinct (map fst (entries B))"
    and ba: "distinct (map fst (before fs @ after fs))"
    and t: "\<And>t. t = A \<or> t = B \<or> t = C \<Longrightarrow> u \<notin> ads (entries t) \<and> v \<notin> ads (entries t) \<and>
        ads (entries t) \<inter> ads (before fs) = {} \<and> ads (entries t) \<inter> ads (after fs) = {}"
    and AB: "ads (entries A) \<inter> ads (entries B) = {}" "ads (entries C) \<inter> ads (entries B) = {}"
    using d by (auto simp: disjoint_parts_def)
  note defs = m1 m2 m3 m4 m6
  show b1: "tree_at m1 (Some v) B" using m(1) t by (simp add: m1)
  show r1: "m1 u = Some n1" "m1 v = m v" using uv by (simp_all add: m1)
  show r2: "m2 u = Some n1" "m2 v = m v" using r1 t by (simp_all add: m2 adopt_other)
  show r3: "m3 u = Some n1" "m3 v = Some n3" using r2 uv by (simp_all add: m3)
  show c3: "ctx_at m3 (Some u) fs" using m(2) uv t by (simp add: m3 m2 m1 adopt_ctx)
  show "m4 u = Some n1" "m4 v = Some n3" using r3 uv by (simp_all add: m4 redirect_other)
  show "m6 u = Some n6" "m6 v = Some n5" using uv by (simp_all add: m6)
  show "tree_at m6 p A = tree_at m p A" "tree_at m6 p C = tree_at m p C"
    using t AB by (simp_all add: m6 m4 m3 m2 m1 redirect_tree adopt_tree_other)
  show "tree_at m6 (Some u) B"
    using t b1 dB by (simp add: m6 m4 m3 m2 redirect_tree adopt_tree)
  show "ctx_at m6 (Some v) fs" using redirect_ctx [OF c3 ba] uv by (simp add: m6 m4)
  have "dom m1 = dom m" using m(3) by (auto simp: m1)
  moreover have "dom m2 = dom m1" by (simp add: m2 adopt_dom [OF b1])
  moreover have "dom m3 = dom m2" using r2(2) m(4) by (auto simp: m3)
  moreover have "dom m4 = dom m3" by (simp add: m4 redirect_dom [OF c3])
  moreover have "dom m6 = dom m4" using \<open>m4 u = Some n1\<close> \<open>m4 v = Some n3\<close> by (auto simp: m6)
  ultimately show "dom m6 = dom m" by simp
qed

text \<open>Executing a block step by step, each step with a known result.\<close>

lemma block_step: "m s = Some (Ret (), t) \<Longrightarrow> blockP ms t = r \<Longrightarrow> blockP (m # ms) s = r"
  by (simp add: run_simps)

lemma run_unit: "wp m (\<lambda>_ s'. s' = t) s \<Longrightarrow> m s = Some (Ret (), t)"
  by (auto simp: wp_iff)

lemma bind_fld: "m a = Some n \<Longrightarrow> vmem s = m \<Longrightarrow> k (f n) s = r \<Longrightarrow> bindP (fld f (Some a)) k s = r"
  by (simp add: fld_def node_get_def run_simps)

lemma put_run: "m a = Some n \<Longrightarrow> vmem s = m \<Longrightarrow> t = s\<lparr>vmem := m(a := Some (f n))\<rparr> \<Longrightarrow> node_put (Some a) f s = Some (Ret (), t)"
  by (simp add: node_put_def node_get_def run_simps)

lemma leftRotate_run:
  assumes h: "holds_tree s (plug (Br A x cx kx (Br B y cy ky C)) fs)"
  shows "\<exists>m. leftRotate (Some x) s = Some (Ret (), s\<lparr>vmem := m, root := top (Some y) fs\<rparr>) \<and>
    holds_tree (s\<lparr>vmem := m, root := top (Some y) fs\<rparr>) (plug (Br (Br A x cx kx B) y cy ky C) fs)"
proof -
  have e: "entries (plug (Br A x cx kx (Br B y cy ky C)) fs) = entries (plug (Br (Br A x cx kx B) y cy ky C) fs)"
    by (simp add: entries_plug)
  note H = h [unfolded holds_tree_def tree_at_plug at_plug]
  define m where "m = vmem s"
  have mx: "m x = Some \<lparr>key = kx, color = cx, left = at A, right = Some y, parent = up fs\<rparr>"
    and my: "m y = Some \<lparr>key = ky, color = cy, left = at B, right = at C, parent = Some x\<rparr>"
    and tr: "tree_at m (Some x) A" "tree_at m (Some y) B" "tree_at m (Some y) C"
    and cx: "ctx_at m (Some x) fs" and rt: "root s = top (Some x) fs" and ne: "m x \<noteq> None" "m y \<noteq> None"
    using H by (auto simp: m_def)
  have d: "disjoint_parts x y A B C fs"
    using H by (intro disjoint_partsI [of _ _ _ kx _ _ ky]) (simp add: entries_plug)
  define m1 where "m1 = m(x := Some \<lparr>key = kx, color = cx, left = at A, right = at B, parent = up fs\<rparr>)"
  define m2 where "m2 = adopt (Some x) B m1"
  define m3 where "m3 = m2(y := Some \<lparr>key = ky, color = cy, left = at B, right = at C, parent = up fs\<rparr>)"
  define m4 where "m4 = redirect (Some y) fs m3"
  define m6 where "m6 = m4(y := Some \<lparr>key = ky, color = cy, left = Some x, right = at C, parent = up fs\<rparr>,
    x := Some \<lparr>key = kx, color = cx, left = at A, right = at B, parent = Some y\<rparr>)"
  note R = rotate_mem [OF d tr(2) cx ne m1_def m2_def m3_def m4_def m6_def]
  have xy: "x \<noteq> y" "outside x fs" using d by (auto simp: disjoint_parts_def)
  have take: "whenP (at B \<noteq> NULL) (node_put (at B) (\<lambda>n. n\<lparr>parent := Some x\<rparr>)) (s\<lparr>vmem := m1\<rparr>) = Some (Ret (), s\<lparr>vmem := m2\<rparr>)"
    using adopt_run [of "s\<lparr>vmem := m1\<rparr>" "Some y" B "at B \<noteq> NULL" "Some x"] R(1) by (intro run_unit) (simp add: m2_def)
  have place: "replace_child (Some x) (Some y) (s\<lparr>vmem := m3\<rparr>) = Some (Ret (), s\<lparr>vmem := m4, root := top (Some y) fs\<rparr>)"
    using replace_child_run [of "s\<lparr>vmem := m3\<rparr>" x fs _ "Some x" "Some y"] R(6,8) rt xy by (intro run_unit) (simp add: m4_def)
  have st1: "bindP (fld left (Some y)) (\<lambda>p. node_put (Some x) (\<lambda>n. n\<lparr>right := p\<rparr>)) s = Some (Ret (), s\<lparr>vmem := m1\<rparr>)"
    by (rule bind_fld [where m = m and a = y, OF my m_def [symmetric]], rule put_run [where m = m and a = x, OF mx m_def [symmetric]]) (simp add: m1_def)
  have st2: "bindP (fld right (Some x)) (\<lambda>p. whenP (p \<noteq> NULL) (node_put p (\<lambda>n. n\<lparr>parent := Some x\<rparr>))) (s\<lparr>vmem := m1\<rparr>) =
      Some (Ret (), s\<lparr>vmem := m2\<rparr>)"
    by (rule bind_fld [where m = m1 and a = x, OF R(2)]) (simp_all only: take Node.select_convs rb_state.select_convs rb_state.update_convs, simp)
  have st3: "bindP (fld parent (Some x)) (\<lambda>p. node_put (Some y) (\<lambda>n. n\<lparr>parent := p\<rparr>)) (s\<lparr>vmem := m2\<rparr>) = Some (Ret (), s\<lparr>vmem := m3\<rparr>)"
    by (rule bind_fld [where m = m2 and a = x, OF R(4)], simp, rule put_run [where m = m2 and a = y, OF R(5) [unfolded my]]) (simp_all add: m3_def)
  have st5: "node_put (Some y) (\<lambda>n. n\<lparr>left := Some x\<rparr>) (s\<lparr>vmem := m4, root := top (Some y) fs\<rparr>) =
      Some (Ret (), s\<lparr>vmem := m4(y := Some \<lparr>key = ky, color = cy, left = Some x, right = at C, parent = up fs\<rparr>), root := top (Some y) fs\<rparr>)"
    by (rule put_run [where m = m4 and a = y, OF R(10)]) simp_all
  have st6: "node_put (Some x) (\<lambda>n. n\<lparr>parent := Some y\<rparr>)
      (s\<lparr>vmem := m4(y := Some \<lparr>key = ky, color = cy, left = Some x, right = at C, parent = up fs\<rparr>), root := top (Some y) fs\<rparr>) =
      Some (Ret (), s\<lparr>vmem := m6, root := top (Some y) fs\<rparr>)"
    using R(9) xy by (simp add: node_put_def node_get_def run_simps m6_def)
  have "leftRotate (Some x) s = Some (Ret (), s\<lparr>vmem := m6, root := top (Some y) fs\<rparr>)"
    unfolding leftRotate_def
    by (rule bind_fld [where m = m and a = x, OF mx m_def [symmetric]], simp only: Node.select_convs,
        rule block_step, rule st1, rule block_step, rule st2, rule block_step, rule st3, rule block_step, rule place,
        rule block_step, rule st5, rule block_step, rule st6, simp add: run_simps)
  moreover have "holds_tree (s\<lparr>vmem := m6, root := top (Some y) fs\<rparr>) (plug (Br (Br A x cx kx B) y cy ky C) fs)"
    using H R tr e unfolding holds_tree_def tree_at_plug at_plug by (simp flip: m_def)
  ultimately show ?thesis by blast
qed

lemma rightRotate_run:
  assumes h: "holds_tree s (plug (Br (Br A x cx kx B) y cy ky C) fs)"
  shows "\<exists>m. rightRotate (Some y) s = Some (Ret (), s\<lparr>vmem := m, root := top (Some x) fs\<rparr>) \<and>
    holds_tree (s\<lparr>vmem := m, root := top (Some x) fs\<rparr>) (plug (Br A x cx kx (Br B y cy ky C)) fs)"
proof -
  have e: "entries (plug (Br A x cx kx (Br B y cy ky C)) fs) = entries (plug (Br (Br A x cx kx B) y cy ky C) fs)"
    by (simp add: entries_plug)
  note H = h [unfolded holds_tree_def tree_at_plug at_plug]
  define m where "m = vmem s"
  have mx: "m x = Some \<lparr>key = kx, color = cx, left = at A, right = at B, parent = Some y\<rparr>"
    and my: "m y = Some \<lparr>key = ky, color = cy, left = Some x, right = at C, parent = up fs\<rparr>"
    and tr: "tree_at m (Some x) A" "tree_at m (Some x) B" "tree_at m (Some y) C"
    and cy: "ctx_at m (Some y) fs" and rt: "root s = top (Some y) fs" and ne: "m y \<noteq> None" "m x \<noteq> None"
    using H by (auto simp: m_def)
  have d: "disjoint_parts y x C B A fs"
    using H by (intro disjoint_partsI [of _ _ _ ky _ _ kx]) (simp add: entries_plug)
  define m1 where "m1 = m(y := Some \<lparr>key = ky, color = cy, left = at B, right = at C, parent = up fs\<rparr>)"
  define m2 where "m2 = adopt (Some y) B m1"
  define m3 where "m3 = m2(x := Some \<lparr>key = kx, color = cx, left = at A, right = at B, parent = up fs\<rparr>)"
  define m4 where "m4 = redirect (Some x) fs m3"
  define m6 where "m6 = m4(x := Some \<lparr>key = kx, color = cx, left = at A, right = Some y, parent = up fs\<rparr>,
    y := Some \<lparr>key = ky, color = cy, left = at B, right = at C, parent = Some x\<rparr>)"
  note R = rotate_mem [OF d tr(2) cy ne m1_def m2_def m3_def m4_def m6_def]
  have xy: "x \<noteq> y" "outside y fs" using d by (auto simp: disjoint_parts_def)
  have take: "whenP (at B \<noteq> NULL) (node_put (at B) (\<lambda>n. n\<lparr>parent := Some y\<rparr>)) (s\<lparr>vmem := m1\<rparr>) = Some (Ret (), s\<lparr>vmem := m2\<rparr>)"
    using adopt_run [of "s\<lparr>vmem := m1\<rparr>" "Some x" B "at B \<noteq> NULL" "Some y"] R(1) by (intro run_unit) (simp add: m2_def)
  have place: "replace_child (Some y) (Some x) (s\<lparr>vmem := m3\<rparr>) = Some (Ret (), s\<lparr>vmem := m4, root := top (Some x) fs\<rparr>)"
    using replace_child_run [of "s\<lparr>vmem := m3\<rparr>" y fs _ "Some y" "Some x"] R(6,8) rt xy by (intro run_unit) (simp add: m4_def)
  have st1: "bindP (fld right (Some x)) (\<lambda>p. node_put (Some y) (\<lambda>n. n\<lparr>left := p\<rparr>)) s = Some (Ret (), s\<lparr>vmem := m1\<rparr>)"
    by (rule bind_fld [where m = m and a = x, OF mx m_def [symmetric]],
        rule put_run [where m = m and a = y, OF my m_def [symmetric]]) (simp add: m1_def)
  have st2: "bindP (fld left (Some y)) (\<lambda>p. whenP (p \<noteq> NULL) (node_put p (\<lambda>n. n\<lparr>parent := Some y\<rparr>))) (s\<lparr>vmem := m1\<rparr>) =
      Some (Ret (), s\<lparr>vmem := m2\<rparr>)"
    by (rule bind_fld [where m = m1 and a = y, OF R(2)])
      (simp_all only: take Node.select_convs rb_state.select_convs rb_state.update_convs, simp)
  have st3: "bindP (fld parent (Some y)) (\<lambda>p. node_put (Some x) (\<lambda>n. n\<lparr>parent := p\<rparr>)) (s\<lparr>vmem := m2\<rparr>) = Some (Ret (), s\<lparr>vmem := m3\<rparr>)"
    by (rule bind_fld [where m = m2 and a = y, OF R(4)], simp,
        rule put_run [where m = m2 and a = x, OF R(5) [unfolded mx]]) (simp_all add: m3_def)
  have st5: "node_put (Some x) (\<lambda>n. n\<lparr>right := Some y\<rparr>) (s\<lparr>vmem := m4, root := top (Some x) fs\<rparr>) =
      Some (Ret (), s\<lparr>vmem := m4(x := Some \<lparr>key = kx, color = cx, left = at A, right = Some y, parent = up fs\<rparr>), root := top (Some x) fs\<rparr>)"
    by (rule put_run [where m = m4 and a = x, OF R(10)]) simp_all
  have st6: "node_put (Some y) (\<lambda>n. n\<lparr>parent := Some x\<rparr>)
      (s\<lparr>vmem := m4(x := Some \<lparr>key = kx, color = cx, left = at A, right = Some y, parent = up fs\<rparr>), root := top (Some x) fs\<rparr>) =
      Some (Ret (), s\<lparr>vmem := m6, root := top (Some x) fs\<rparr>)"
    using R(9) xy by (simp add: node_put_def node_get_def run_simps m6_def)
  have "rightRotate (Some y) s = Some (Ret (), s\<lparr>vmem := m6, root := top (Some x) fs\<rparr>)"
    unfolding rightRotate_def
    by (rule bind_fld [where m = m and a = y, OF my m_def [symmetric]], simp only: Node.select_convs,
        rule block_step, rule st1, rule block_step, rule st2, rule block_step, rule st3, rule block_step, rule place,
        rule block_step, rule st5, rule block_step, rule st6, simp add: run_simps)
  moreover have "holds_tree (s\<lparr>vmem := m6, root := top (Some x) fs\<rparr>) (plug (Br A x cx kx (Br B y cy ky C)) fs)"
    using H R tr e unfolding holds_tree_def tree_at_plug at_plug by (simp flip: m_def)
  ultimately show ?thesis by blast
qed

text \<open>What a program that only rearranges the tree leaves alone.\<close>

definition framed :: "'a rb_state_scheme \<Rightarrow> 'a rb_state_scheme \<Rightarrow> bool" where
  "framed s s' \<longleftrightarrow> vbrk s' = vbrk s \<and> printed s' = printed s \<and> rb_state.more s' = rb_state.more s"

lemma framed_refl [simp]: "framed s s"
  by (simp add: framed_def)

lemma framed_trans: "framed s s' \<Longrightarrow> framed s' s'' \<Longrightarrow> framed s s''"
  by (simp add: framed_def)

lemma leftRotate_wp:
  assumes "holds_tree s T" and "T = plug (Br A x cx kx (Br B y cy ky C)) fs"
    and "\<And>s'. holds_tree s' (plug (Br (Br A x cx kx B) y cy ky C) fs) \<Longrightarrow> framed s s' \<Longrightarrow> Q () s'"
  shows "wp (leftRotate (Some x)) Q s"
  using leftRotate_run [OF assms(1) [unfolded assms(2)]] assms(3) by (auto simp: framed_def intro!: wpI)

lemma rightRotate_wp:
  assumes "holds_tree s T" and "T = plug (Br (Br A x cx kx B) y cy ky C) fs"
    and "\<And>s'. holds_tree s' (plug (Br A x cx kx (Br B y cy ky C)) fs) \<Longrightarrow> framed s s' \<Longrightarrow> Q () s'"
  shows "wp (rightRotate (Some y)) Q s"
  using rightRotate_run [OF assms(1) [unfolded assms(2)]] assms(3) by (auto simp: framed_def intro!: wpI)

text \<open>Reading and painting a node of the tree.\<close>

lemma holds_read: "holds_tree s T \<Longrightarrow> T = plug (Br l a c k r) fs \<Longrightarrow>
    vmem s a = Some \<lparr>key = k, color = c, left = at l, right = at r, parent = up fs\<rparr>"
  by (simp add: holds_tree_def tree_at_plug)

lemma holds_paint:
  assumes "holds_tree s T" and "T = plug (Br l a c k r) fs"
  shows "holds_tree (s\<lparr>vmem := (vmem s)(a := Some \<lparr>key = k, color = c', left = at l, right = at r, parent = up fs\<rparr>)\<rparr>) (plug (Br l a c' k r) fs)"
  using assms by (auto simp: holds_tree_def tree_at_plug entries_plug at_plug)

lemma set_color_wp:
  assumes "holds_tree s T" and "T = plug (Br l a c k r) fs"
    and "\<And>s'. holds_tree s' (plug (Br l a c' k r) fs) \<Longrightarrow> framed s s' \<Longrightarrow> Q () s'"
  shows "wp (set_color c' (Some a)) Q s"
  using holds_read [OF assms(1,2)] assms(3) [OF holds_paint [OF assms(1,2), of c']] by (simp add: wp_simps framed_def)

section \<open>Red-black trees\<close>

fun tcolor :: "tree \<Rightarrow> Color" where
  "tcolor Leaf = BLACK"
| "tcolor (Br l a c k r) = c"

fun paint :: "Color \<Rightarrow> tree \<Rightarrow> tree" where
  "paint c Leaf = Leaf"
| "paint c (Br l a d k r) = Br l a c k r"

fun bheight :: "tree \<Rightarrow> nat" where
  "bheight Leaf = 0"
| "bheight (Br l a c k r) = (if c = BLACK then Suc (bheight l) else bheight l)"

text \<open>No red node has a red child; all paths below a node have as many black nodes.\<close>

fun invc :: "tree \<Rightarrow> bool" where
  "invc Leaf = True"
| "invc (Br l a c k r) \<longleftrightarrow> (c = RED \<longrightarrow> tcolor l = BLACK \<and> tcolor r = BLACK) \<and> invc l \<and> invc r"

fun invh :: "tree \<Rightarrow> bool" where
  "invh Leaf = True"
| "invh (Br l a c k r) \<longleftrightarrow> bheight l = bheight r \<and> invh l \<and> invh r"

definition rb_ok :: "tree \<Rightarrow> bool" where
  "rb_ok t \<longleftrightarrow> invc t \<and> invh t \<and> tcolor t = BLACK"

text \<open>The same of a context: what it needs of the colour and the black height of what is put into it.\<close>

fun ctx_invc :: "Color \<Rightarrow> frame list \<Rightarrow> bool" where
  "ctx_invc c [] = True"
| "ctx_invc c (AboveL a d k r # fs) \<longleftrightarrow> (d = RED \<longrightarrow> c = BLACK \<and> tcolor r = BLACK) \<and> invc r \<and> ctx_invc d fs"
| "ctx_invc c (AboveR l a d k # fs) \<longleftrightarrow> (d = RED \<longrightarrow> c = BLACK \<and> tcolor l = BLACK) \<and> invc l \<and> ctx_invc d fs"

fun ctx_invh :: "nat \<Rightarrow> frame list \<Rightarrow> bool" where
  "ctx_invh n [] = True"
| "ctx_invh n (AboveL a d k r # fs) \<longleftrightarrow> n = bheight r \<and> invh r \<and> ctx_invh (if d = BLACK then Suc n else n) fs"
| "ctx_invh n (AboveR l a d k # fs) \<longleftrightarrow> n = bheight l \<and> invh l \<and> ctx_invh (if d = BLACK then Suc n else n) fs"

fun root_color :: "Color \<Rightarrow> frame list \<Rightarrow> Color" where
  "root_color c [] = c"
| "root_color c (AboveL a d k r # fs) = root_color d fs"
| "root_color c (AboveR l a d k # fs) = root_color d fs"

lemma invc_plug: "invc (plug t fs) \<longleftrightarrow> invc t \<and> ctx_invc (tcolor t) fs"
  by (induction t fs rule: plug.induct) auto

lemma invh_plug: "invh (plug t fs) \<longleftrightarrow> invh t \<and> ctx_invh (bheight t) fs"
  by (induction t fs rule: plug.induct) auto

lemma tcolor_plug: "tcolor (plug t fs) = root_color (tcolor t) fs"
  by (induction t fs rule: plug.induct) auto

lemma ctx_black: "ctx_invc c fs \<Longrightarrow> ctx_invc BLACK fs"
  by (cases fs rule: up.cases) auto

lemma paint_ok: "tcolor (paint BLACK t) = BLACK" "entries (paint c t) = entries t" "invh t \<Longrightarrow> invh (paint c t)"
  "invc t \<Longrightarrow> invc (paint BLACK t)" "tcolor t = c \<Longrightarrow> paint c t = t" "at (paint c t) = at t"
  by (cases t; simp)+

end
