(* ===== verification/RbInsert.thy ===== *)
theory RbInsert
  imports RbTree "HOL-Library.Multiset"
begin

text \<open>
  Insertion into the red-black tree of \<open>moudles/test/rbtree.c\<close>: the descent, the repair, and with search and traversal the
  bag of keys that a client sees.
\<close>

section \<open>Insertion\<close>

text \<open>The red node \<open>z\<close> over \<open>A\<close> and \<open>B\<close> is all that may be wrong.\<close>

definition nearly :: "tree \<Rightarrow> tree \<Rightarrow> frame list \<Rightarrow> bool" where
  "nearly A B fs \<longleftrightarrow> invc A \<and> invc B \<and> tcolor A = BLACK \<and> tcolor B = BLACK \<and>
     invh A \<and> invh B \<and> bheight A = bheight B \<and> ctx_invc BLACK fs \<and> ctx_invh (bheight A) fs \<and>
     (fs \<noteq> [] \<longrightarrow> root_color BLACK fs = BLACK)"

text \<open>The tree is in order but for the colour of its root.\<close>

definition repaired :: "tree \<Rightarrow> bool" where
  "repaired T \<longleftrightarrow> T \<noteq> Leaf \<and> invh T \<and> invc (paint BLACK T)"

lemma plug_Br: "plug t fs = Leaf \<longleftrightarrow> t = Leaf \<and> fs = []"
  by (induction t fs rule: plug.induct) auto

lemma insert_finish_left:
  assumes h: "holds_tree s (plug (Br A z RED kz B) (AboveL pa c pk S # AboveL ga c' gk U # fs))"
    and q: "\<And>s'. holds_tree s' (plug (Br (Br A z RED kz B) pa BLACK pk (Br S ga RED gk U)) fs) \<Longrightarrow> framed s s' \<Longrightarrow> Q (Some z) s'"
  shows "wp (insert_finish rightRotate (Some z)) Q s"
proof -
  have rd: "vmem s z = Some \<lparr>key = kz, color = RED, left = at A, right = at B, parent = Some pa\<rparr>"
    "vmem s pa = Some \<lparr>key = pk, color = c, left = Some z, right = at S, parent = Some ga\<rparr>"
    "vmem s ga = Some \<lparr>key = gk, color = c', left = Some pa, right = at U, parent = up fs\<rparr>"
    and ne: "z \<noteq> pa" "z \<noteq> ga" "pa \<noteq> ga"
    using h by (auto simp: holds_tree_def tree_at_plug entries_plug)
  let ?s1 = "s\<lparr>vmem := (vmem s)(pa := Some \<lparr>key = pk, color = BLACK, left = Some z, right = at S, parent = Some ga\<rparr>)\<rparr>"
  let ?s2 = "?s1\<lparr>vmem := (vmem ?s1)(ga := Some \<lparr>key = gk, color = RED, left = Some pa, right = at U, parent = up fs\<rparr>)\<rparr>"
  have h1: "holds_tree ?s1 (plug (Br (Br A z RED kz B) pa BLACK pk S) (AboveL ga c' gk U # fs))"
    using holds_paint [OF h, of "Br A z RED kz B" pa c pk S "AboveL ga c' gk U # fs" BLACK] by simp
  have h2: "holds_tree ?s2 (plug (Br (Br (Br A z RED kz B) pa BLACK pk S) ga RED gk U) fs)"
    using holds_paint [OF h1, of "Br (Br A z RED kz B) pa BLACK pk S" ga c' gk U fs RED] by simp
  have "wp (rightRotate (Some ga)) (\<lambda>_. Q (Some z)) ?s2"
    by (rule rightRotate_wp [OF h2 refl], rule q) (auto simp: framed_def)
  then show ?thesis using rd ne by (simp add: insert_finish_def wp_simps wp_ret_eta)
qed

lemma insert_finish_right:
  assumes h: "holds_tree s (plug (Br A z RED kz B) (AboveR S pa c pk # AboveR U ga c' gk # fs))"
    and q: "\<And>s'. holds_tree s' (plug (Br (Br U ga RED gk S) pa BLACK pk (Br A z RED kz B)) fs) \<Longrightarrow> framed s s' \<Longrightarrow> Q (Some z) s'"
  shows "wp (insert_finish leftRotate (Some z)) Q s"
proof -
  have rd: "vmem s z = Some \<lparr>key = kz, color = RED, left = at A, right = at B, parent = Some pa\<rparr>"
    "vmem s pa = Some \<lparr>key = pk, color = c, left = at S, right = Some z, parent = Some ga\<rparr>"
    "vmem s ga = Some \<lparr>key = gk, color = c', left = at U, right = Some pa, parent = up fs\<rparr>"
    and ne: "z \<noteq> pa" "z \<noteq> ga" "pa \<noteq> ga"
    using h by (auto simp: holds_tree_def tree_at_plug entries_plug)
  let ?s1 = "s\<lparr>vmem := (vmem s)(pa := Some \<lparr>key = pk, color = BLACK, left = at S, right = Some z, parent = Some ga\<rparr>)\<rparr>"
  let ?s2 = "?s1\<lparr>vmem := (vmem ?s1)(ga := Some \<lparr>key = gk, color = RED, left = at U, right = Some pa, parent = up fs\<rparr>)\<rparr>"
  have h1: "holds_tree ?s1 (plug (Br S pa BLACK pk (Br A z RED kz B)) (AboveR U ga c' gk # fs))"
    using holds_paint [OF h, of S pa c pk "Br A z RED kz B" "AboveR U ga c' gk # fs" BLACK] by simp
  have h2: "holds_tree ?s2 (plug (Br U ga RED gk (Br S pa BLACK pk (Br A z RED kz B))) fs)"
    using holds_paint [OF h1, of U ga c' gk "Br S pa BLACK pk (Br A z RED kz B)" fs RED] by simp
  have "wp (leftRotate (Some ga)) (\<lambda>_. Q (Some z)) ?s2"
    by (rule leftRotate_wp [OF h2 refl], rule q) (auto simp: framed_def)
  then show ?thesis using rd ne by (simp add: insert_finish_def wp_simps wp_ret_eta)
qed

text \<open>A red uncle: three nodes are painted, and the loop goes on at the grandparent.\<close>

lemma insert_recolour_left:
  assumes h: "holds_tree s (plug T (AboveL ga c' gk (Br V u RED uk W) # fs))" and T: "T = Br X pa c pk Y"
    and z: "vmem s z = Some n" "parent n = Some pa" "z \<notin> {pa, ga, u}"
    and q: "\<And>s'. holds_tree s' (plug (Br (Br X pa BLACK pk Y) ga RED gk (Br V u BLACK uk W)) fs) \<Longrightarrow> framed s s' \<Longrightarrow> Q (Some ga) s'"
  shows "wp (insert_side right inner outer (Some z)) Q s"
proof -
  have rd: "vmem s pa = Some \<lparr>key = pk, color = c, left = at X, right = at Y, parent = Some ga\<rparr>"
    "vmem s ga = Some \<lparr>key = gk, color = c', left = Some pa, right = Some u, parent = up fs\<rparr>"
    "vmem s u = Some \<lparr>key = uk, color = RED, left = at V, right = at W, parent = Some ga\<rparr>"
    and ne: "pa \<noteq> ga" "u \<noteq> pa" "u \<noteq> ga"
    using h T by (auto simp: holds_tree_def tree_at_plug entries_plug)
  let ?m1 = "(vmem s)(pa := Some \<lparr>key = pk, color = BLACK, left = at X, right = at Y, parent = Some ga\<rparr>)"
  let ?m2 = "?m1(u := Some \<lparr>key = uk, color = BLACK, left = at V, right = at W, parent = Some ga\<rparr>)"
  let ?m3 = "?m2(ga := Some \<lparr>key = gk, color = RED, left = Some pa, right = Some u, parent = up fs\<rparr>)"
  have h1: "holds_tree (s\<lparr>vmem := ?m1\<rparr>) (plug (Br V u RED uk W) (AboveR (Br X pa BLACK pk Y) ga c' gk # fs))"
    using holds_paint [OF h, of X pa c pk Y "AboveL ga c' gk (Br V u RED uk W) # fs" BLACK] T by simp
  have h2: "holds_tree (s\<lparr>vmem := ?m2\<rparr>) (plug (Br (Br X pa BLACK pk Y) ga c' gk (Br V u BLACK uk W)) fs)"
    using holds_paint [OF h1, of V u RED uk W "AboveR (Br X pa BLACK pk Y) ga c' gk # fs" BLACK] by simp
  have "holds_tree (s\<lparr>vmem := ?m3\<rparr>) (plug (Br (Br X pa BLACK pk Y) ga RED gk (Br V u BLACK uk W)) fs)"
    using holds_paint [OF h2 refl, of RED] by simp
  from q [OF this] rd ne z show ?thesis by (simp add: insert_side_def wp_simps framed_def)
qed

lemma insert_recolour_right:
  assumes h: "holds_tree s (plug T (AboveR (Br V u RED uk W) ga c' gk # fs))" and T: "T = Br X pa c pk Y"
    and z: "vmem s z = Some n" "parent n = Some pa" "z \<notin> {pa, ga, u}"
    and q: "\<And>s'. holds_tree s' (plug (Br (Br V u BLACK uk W) ga RED gk (Br X pa BLACK pk Y)) fs) \<Longrightarrow> framed s s' \<Longrightarrow> Q (Some ga) s'"
  shows "wp (insert_side left inner outer (Some z)) Q s"
proof -
  have rd: "vmem s pa = Some \<lparr>key = pk, color = c, left = at X, right = at Y, parent = Some ga\<rparr>"
    "vmem s ga = Some \<lparr>key = gk, color = c', left = Some u, right = Some pa, parent = up fs\<rparr>"
    "vmem s u = Some \<lparr>key = uk, color = RED, left = at V, right = at W, parent = Some ga\<rparr>"
    and ne: "pa \<noteq> ga" "u \<noteq> pa" "u \<noteq> ga"
    using h T by (auto simp: holds_tree_def tree_at_plug entries_plug)
  let ?m1 = "(vmem s)(pa := Some \<lparr>key = pk, color = BLACK, left = at X, right = at Y, parent = Some ga\<rparr>)"
  let ?m2 = "?m1(u := Some \<lparr>key = uk, color = BLACK, left = at V, right = at W, parent = Some ga\<rparr>)"
  let ?m3 = "?m2(ga := Some \<lparr>key = gk, color = RED, left = Some u, right = Some pa, parent = up fs\<rparr>)"
  have h1: "holds_tree (s\<lparr>vmem := ?m1\<rparr>) (plug (Br V u RED uk W) (AboveL ga c' gk (Br X pa BLACK pk Y) # fs))"
    using holds_paint [OF h, of X pa c pk Y "AboveR (Br V u RED uk W) ga c' gk # fs" BLACK] T by simp
  have h2: "holds_tree (s\<lparr>vmem := ?m2\<rparr>) (plug (Br (Br V u BLACK uk W) ga c' gk (Br X pa BLACK pk Y)) fs)"
    using holds_paint [OF h1, of V u RED uk W "AboveL ga c' gk (Br X pa BLACK pk Y) # fs" BLACK] by simp
  have "holds_tree (s\<lparr>vmem := ?m3\<rparr>) (plug (Br (Br V u BLACK uk W) ga RED gk (Br X pa BLACK pk Y)) fs)"
    using holds_paint [OF h2 refl, of RED] by simp
  from q [OF this] rd ne z show ?thesis by (simp add: insert_side_def wp_simps framed_def)
qed

text \<open>A black uncle: at most two rotations, and the parent of the next \<open>z\<close> is black.\<close>

lemma insert_rotate_left:
  assumes h: "holds_tree s (plug (Br A z RED kz B) (f # AboveL ga c' gk U # fs))" and U: "tcolor U = BLACK"
    and f: "f = AboveL pa RED pk S \<or> f = AboveR S pa RED pk"
    and q: "\<And>s' A' z' kz' B' S' pa' pk'. holds_tree s' (plug (Br (Br A' z' RED kz' B') pa' BLACK pk' (Br S' ga RED gk U)) fs) \<Longrightarrow>
      {A', B', S'} = {A, B, S} \<Longrightarrow>
      entries A' @ (z', kz') # entries B' @ (pa', pk') # entries S' = entries (plug (Br A z RED kz B) [f]) \<Longrightarrow>
      framed s s' \<Longrightarrow> Q (Some z') s'"
  shows "wp (insert_side right leftRotate rightRotate (Some z)) Q s"
proof -
  have ub: "wp (is_red (at U)) R s \<longleftrightarrow> R False s" for R
    using h U f by (cases U) (auto simp: wp_simps holds_tree_def tree_at_plug)
  show ?thesis
  proof (cases "f = AboveL pa RED pk S")
    case True
    have rd: "vmem s z = Some \<lparr>key = kz, color = RED, left = at A, right = at B, parent = Some pa\<rparr>"
      "vmem s pa = Some \<lparr>key = pk, color = RED, left = Some z, right = at S, parent = Some ga\<rparr>"
      "vmem s ga = Some \<lparr>key = gk, color = c', left = Some pa, right = at U, parent = up fs\<rparr>"
      and ne: "at S \<noteq> Some z"
      using h True by (auto simp: holds_tree_def tree_at_plug entries_plug dest: at_in)
    have "wp (insert_finish rightRotate (Some z)) Q s"
      by (rule insert_finish_left [OF h [unfolded True]], rule q, assumption) (use True in auto)
    then show ?thesis using rd ne ub by (simp add: insert_side_def wp_bindP wp_fld wp_ret wp_if)
  next
    case False
    then have f': "f = AboveR S pa RED pk" using f by simp
    have rd: "vmem s z = Some \<lparr>key = kz, color = RED, left = at A, right = at B, parent = Some pa\<rparr>"
      "vmem s pa = Some \<lparr>key = pk, color = RED, left = at S, right = Some z, parent = Some ga\<rparr>"
      "vmem s ga = Some \<lparr>key = gk, color = c', left = Some pa, right = at U, parent = up fs\<rparr>"
      using h f' by (auto simp: holds_tree_def tree_at_plug)
    have "wp (leftRotate (Some pa)) (\<lambda>_. wp (insert_finish rightRotate (Some pa)) Q) s"
    proof (rule leftRotate_wp [of _ _ S pa RED pk A z RED kz B "AboveL ga c' gk U # fs"])
      fix s1
      assume h1: "holds_tree s1 (plug (Br (Br S pa RED pk A) z RED kz B) (AboveL ga c' gk U # fs))" and fr: "framed s s1"
      show "wp (insert_finish rightRotate (Some pa)) Q s1"
        by (rule insert_finish_left [of _ S pa pk A z RED kz B], use h1 in simp, rule q, assumption)
          (use f' framed_trans [OF fr] in auto)
    qed (use h f' in simp_all)
    then show ?thesis using rd ub by (simp add: insert_side_def wp_bindP wp_seqP wp_fld wp_ret wp_ret_eta wp_if)
  qed
qed

lemma insert_rotate_right:
  assumes h: "holds_tree s (plug (Br A z RED kz B) (f # AboveR U ga c' gk # fs))" and U: "tcolor U = BLACK"
    and f: "f = AboveR S pa RED pk \<or> f = AboveL pa RED pk S"
    and q: "\<And>s' A' z' kz' B' S' pa' pk'. holds_tree s' (plug (Br (Br U ga RED gk S') pa' BLACK pk' (Br A' z' RED kz' B')) fs) \<Longrightarrow>
      {A', B', S'} = {A, B, S} \<Longrightarrow>
      entries S' @ (pa', pk') # entries A' @ (z', kz') # entries B' = entries (plug (Br A z RED kz B) [f]) \<Longrightarrow>
      framed s s' \<Longrightarrow> Q (Some z') s'"
  shows "wp (insert_side left rightRotate leftRotate (Some z)) Q s"
proof -
  have ub: "wp (is_red (at U)) R s \<longleftrightarrow> R False s" for R
    using h U f by (cases U) (auto simp: wp_simps holds_tree_def tree_at_plug)
  show ?thesis
  proof (cases "f = AboveR S pa RED pk")
    case True
    have rd: "vmem s z = Some \<lparr>key = kz, color = RED, left = at A, right = at B, parent = Some pa\<rparr>"
      "vmem s pa = Some \<lparr>key = pk, color = RED, left = at S, right = Some z, parent = Some ga\<rparr>"
      "vmem s ga = Some \<lparr>key = gk, color = c', left = at U, right = Some pa, parent = up fs\<rparr>"
      and ne: "at S \<noteq> Some z"
      using h True by (auto simp: holds_tree_def tree_at_plug entries_plug dest: at_in)
    have "wp (insert_finish leftRotate (Some z)) Q s"
      by (rule insert_finish_right [OF h [unfolded True]], rule q, assumption) (use True in auto)
    then show ?thesis using rd ne ub by (simp add: insert_side_def wp_bindP wp_fld wp_ret wp_if)
  next
    case False
    then have f': "f = AboveL pa RED pk S" using f by simp
    have rd: "vmem s z = Some \<lparr>key = kz, color = RED, left = at A, right = at B, parent = Some pa\<rparr>"
      "vmem s pa = Some \<lparr>key = pk, color = RED, left = Some z, right = at S, parent = Some ga\<rparr>"
      "vmem s ga = Some \<lparr>key = gk, color = c', left = at U, right = Some pa, parent = up fs\<rparr>"
      using h f' by (auto simp: holds_tree_def tree_at_plug)
    have "wp (rightRotate (Some pa)) (\<lambda>_. wp (insert_finish leftRotate (Some pa)) Q) s"
    proof (rule rightRotate_wp [of _ _ A z RED kz B pa RED pk S "AboveR U ga c' gk # fs"])
      fix s1
      assume h1: "holds_tree s1 (plug (Br A z RED kz (Br B pa RED pk S)) (AboveR U ga c' gk # fs))" and fr: "framed s s1"
      show "wp (insert_finish leftRotate (Some pa)) Q s1"
        by (rule insert_finish_right [of _ B pa pk S A z RED kz], use h1 in simp, rule q, assumption)
          (use f' framed_trans [OF fr] in auto)
    qed (use h f' in simp_all)
    then show ?thesis using rd ub by (simp add: insert_side_def wp_bindP wp_seqP wp_fld wp_ret wp_ret_eta wp_if)
  qed
qed

text \<open>A turn either moves up two levels or leaves a tree that is in order.\<close>

lemma insert_turn_spec:
  assumes h: "holds_tree s (plug (Br A z RED kz B) fs)" and n: "nearly A B fs"
    and fs: "fs = f # g # gs" and f: "f = AboveL pa RED pk S \<or> f = AboveR S pa RED pk"
    and on: "\<And>s' A' z' kz' B'. holds_tree s' (plug (Br A' z' RED kz' B') gs) \<Longrightarrow> nearly A' B' gs \<Longrightarrow> framed s s' \<Longrightarrow>
      entries (plug (Br A' z' RED kz' B') gs) = entries (plug (Br A z RED kz B) fs) \<Longrightarrow> Q (Some z') s'"
    and off: "\<And>s' A' z' kz' B' f' T. holds_tree s' T \<Longrightarrow> T = plug (Br A' z' RED kz' B') (f' # gs) \<Longrightarrow> (\<exists>a k X. f' = AboveL a BLACK k X \<or> f' = AboveR X a BLACK k) \<Longrightarrow>
      repaired T \<Longrightarrow> framed s s' \<Longrightarrow> entries T = entries (plug (Br A z RED kz B) fs) \<Longrightarrow> Q (Some z') s'"
  shows "wp (insert_turn (Some z)) Q s"
proof -
  let ?p = "plug (Br A z RED kz B) [f]"
  have ok: "\<And>t. t \<in> {A, B, S} \<Longrightarrow> invc t \<and> invh t \<and> tcolor t = BLACK \<and> bheight t = bheight A"
    and up2: "ctx_invc RED (g # gs)" "ctx_invh (bheight A) (g # gs)" "root_color RED (g # gs) = BLACK"
    using n f fs by (auto simp: nearly_def)
  obtain X Y where p: "?p = Br X pa RED pk Y"
    and XY: "X = Br A z RED kz B \<and> Y = S \<or> X = S \<and> Y = Br A z RED kz B"
    using f by auto
  have px: "invc X \<and> invc Y \<and> invh X \<and> invh Y \<and> bheight X = bheight A \<and> bheight Y = bheight A"
    using XY ok [of A] ok [of B] ok [of S] by auto
  have e: "plug (Br A z RED kz B) fs = plug (Br X pa RED pk Y) (g # gs)"
    using p fs f by auto
  have H: "holds_tree s (plug (Br X pa RED pk Y) (g # gs))" using h unfolding e .
  have pz: "vmem s z = Some \<lparr>key = kz, color = RED, left = at A, right = at B, parent = Some pa\<rparr>"
    using holds_read [OF h refl] fs f by auto
  obtain ga gk U where g: "g = AboveL ga BLACK gk U \<or> g = AboveR U ga BLACK gk"
  proof (cases g)
    case (AboveL a d k r)
    then have "d = BLACK" using up2(1) by (cases d) auto
    then show thesis using AboveL that by blast
  next
    case (AboveR l a d k)
    then have "d = BLACK" using up2(1) by (cases d) auto
    then show thesis using AboveR that by blast
  qed
  have gg: "ctx_invc BLACK gs" "ctx_invh (Suc (bheight A)) gs" "root_color BLACK gs = BLACK"
    "invc U" "invh U" "bheight U = bheight A"
    using g up2 by auto
  show ?thesis
  proof (cases "tcolor U")
    case RED
    then obtain V u uk W where U: "U = Br V u RED uk W" by (cases U) auto
    have vw: "invc (Br V u BLACK uk W)" "invh (Br V u BLACK uk W)" "bheight (Br V u BLACK uk W) = Suc (bheight A)"
      using gg U by auto
    have nr: "nearly (Br X pa BLACK pk Y) (Br V u BLACK uk W) gs" "nearly (Br V u BLACK uk W) (Br X pa BLACK pk Y) gs"
      using px vw gg by (auto simp: nearly_def)
    have zn: "z \<notin> {pa, ga, u}"
      using h fs f g U by (auto simp: holds_tree_def entries_plug)
    show ?thesis
    proof (cases "g = AboveL ga BLACK gk U")
      case True
      have "wp (insert_side right leftRotate rightRotate (Some z)) Q s"
        by (rule insert_recolour_left [OF _ refl pz _ zn], use H True U in simp, simp, rule on, assumption)
          (use nr e True U in \<open>simp_all add: entries_plug\<close>)
      moreover have "vmem s pa = Some \<lparr>key = pk, color = RED, left = at X, right = at Y, parent = Some ga\<rparr>"
        "vmem s ga = Some \<lparr>key = gk, color = BLACK, left = Some pa, right = at U, parent = up gs\<rparr>"
        using H True by (auto simp: holds_tree_def tree_at_plug)
      ultimately show ?thesis using pz by (simp add: insert_turn_def wp_bindP wp_fld wp_if)
    next
      case False
      then have R: "g = AboveR U ga BLACK gk" using g by simp
      have "wp (insert_side left rightRotate leftRotate (Some z)) Q s"
        by (rule insert_recolour_right [OF _ refl pz _ zn], use H R U in simp, simp, rule on, assumption)
          (use nr e R U in \<open>simp_all add: entries_plug\<close>)
      moreover have "vmem s pa = Some \<lparr>key = pk, color = RED, left = at X, right = at Y, parent = Some ga\<rparr>"
        "vmem s ga = Some \<lparr>key = gk, color = BLACK, left = at U, right = Some pa, parent = up gs\<rparr>" "at U \<noteq> Some pa"
        using H R by (auto simp: holds_tree_def tree_at_plug entries_plug dest: at_in)
      ultimately show ?thesis using pz by (simp add: insert_turn_def wp_bindP wp_fld wp_if)
    qed
  next
    case BLACK
    have rep: "repaired (plug (Br L a BLACK k R) gs)"
      if "invc L \<and> invc R \<and> invh L \<and> invh R" "bheight L = bheight A" "bheight R = bheight A" for L a k R
      using that gg by (simp add: repaired_def plug_Br invc_plug invh_plug tcolor_plug paint_ok)
    have same: "\<forall>t \<in> {A', B', S'}. invc t \<and> invh t \<and> tcolor t = BLACK \<and> bheight t = bheight A"
      if "{A', B', S'} = {A, B, S}" for A' B' S'
      unfolding that using ok by blast
    show ?thesis
    proof (cases "g = AboveL ga BLACK gk U")
      case True
      have "wp (insert_side right leftRotate rightRotate (Some z)) Q s"
      proof (rule insert_rotate_left [of _ A z kz B f ga BLACK gk U gs pa pk S])
        fix s' :: "'a rb_state_scheme" and A' z' kz' B' S' pa' pk'
        assume r: "holds_tree s' (plug (Br (Br A' z' RED kz' B') pa' BLACK pk' (Br S' ga RED gk U)) gs)"
          "{A', B', S'} = {A, B, S}" "framed s s'"
          "entries A' @ (z', kz') # entries B' @ (pa', pk') # entries S' = entries ?p"
        show "Q (Some z') s'"
          by (rule off [OF r(1), of A' z' kz' B' "AboveL pa' BLACK pk' (Br S' ga RED gk U)"], simp, blast,
              use rep same [OF r(2)] BLACK gg in simp, rule r(3))
            (use r(4) p e True in \<open>simp add: entries_plug\<close>)
      qed (use h fs True BLACK f in auto)
      moreover have "vmem s pa = Some \<lparr>key = pk, color = RED, left = at X, right = at Y, parent = Some ga\<rparr>"
        "vmem s ga = Some \<lparr>key = gk, color = BLACK, left = Some pa, right = at U, parent = up gs\<rparr>"
        using H True by (auto simp: holds_tree_def tree_at_plug)
      ultimately show ?thesis using pz by (simp add: insert_turn_def wp_bindP wp_fld wp_if)
    next
      case False
      then have R: "g = AboveR U ga BLACK gk" using g by simp
      have "wp (insert_side left rightRotate leftRotate (Some z)) Q s"
      proof (rule insert_rotate_right [of _ A z kz B f U ga BLACK gk gs S pa pk])
        fix s' :: "'a rb_state_scheme" and A' z' kz' B' S' pa' pk'
        assume r: "holds_tree s' (plug (Br (Br U ga RED gk S') pa' BLACK pk' (Br A' z' RED kz' B')) gs)"
          "{A', B', S'} = {A, B, S}" "framed s s'"
          "entries S' @ (pa', pk') # entries A' @ (z', kz') # entries B' = entries ?p"
        show "Q (Some z') s'"
          by (rule off [OF r(1), of A' z' kz' B' "AboveR (Br U ga RED gk S') pa' BLACK pk'"], simp, blast,
              use rep same [OF r(2)] BLACK gg in simp, rule r(3))
            (use r(4) p e R in \<open>simp add: entries_plug\<close>)
      qed (use h fs R BLACK f in auto)
      moreover have "vmem s pa = Some \<lparr>key = pk, color = RED, left = at X, right = at Y, parent = Some ga\<rparr>"
        "vmem s ga = Some \<lparr>key = gk, color = BLACK, left = at U, right = Some pa, parent = up gs\<rparr>" "at U \<noteq> Some pa"
        using H R by (auto simp: holds_tree_def tree_at_plug entries_plug dest: at_in)
      ultimately show ?thesis using pz by (simp add: insert_turn_def wp_bindP wp_fld wp_if)
    qed
  qed
qed

lemma wp_insert_loop: "wp (insert_loop z) Q s = wp (bindP (gets root) (\<lambda>r. ifP (z \<noteq> r)
     (bindP (bindP (fld parent z) (fld color)) (\<lambda>c. ifP (c = RED)
       (bindP (insert_turn z) (\<lambda>z. insert_loop z)) (ret ())))
     (ret ()))) Q s"
  unfolding wp_def by (subst insert_loop.simps) (rule refl)

lemma top_in: "fs \<noteq> [] \<Longrightarrow> \<exists>a. top p fs = Some a \<and> a \<in> ads (before fs) \<union> ads (after fs)"
  by (induction p fs rule: top.induct) (auto, (metis (no_types, lifting) image_iff list.distinct(1) top.simps(1) UnE)+)

lemma not_root:
  assumes "holds_tree s (plug (Br A z c k B) fs)" and "fs \<noteq> []"
  shows "root s \<noteq> Some z"
proof
  assume "root s = Some z"
  then have "top (Some z) fs = Some z" using assms(1) by (simp add: holds_tree_def at_plug)
  moreover have "outside z fs" using assms(1) by (simp add: holds_tree_def entries_plug)
  ultimately show False using top_in [OF assms(2), of "Some z"] by simp
qed

text \<open>The loop ends below a black parent.\<close>

lemma insert_loop_exit:
  assumes "holds_tree s (plug (Br A z RED kz B) (f # gs))" and "f = AboveL a BLACK k X \<or> f = AboveR X a BLACK k" and "Q () s"
  shows "wp (insert_loop (Some z)) Q s"
proof -
  have "root s \<noteq> Some z" using not_root [OF assms(1)] by simp
  moreover obtain n m where "vmem s z = Some n" "parent n = Some a" "vmem s a = Some m" "color m = BLACK"
    using assms(1,2) by (auto simp: holds_tree_def tree_at_plug)
  ultimately show ?thesis using assms(3) by (subst wp_insert_loop) (simp add: wp_simps)
qed

lemma insert_loop_spec:
  "holds_tree s (plug (Br A z RED kz B) fs) \<Longrightarrow> nearly A B fs \<Longrightarrow>
   wp (insert_loop (Some z)) (\<lambda>_ s'. framed s s' \<and> (\<exists>T. holds_tree s' T \<and> repaired T \<and>
     entries T = entries (plug (Br A z RED kz B) fs))) s"
proof (induction "length fs" arbitrary: s A z kz B fs rule: less_induct)
  case less
  note h = less.prems(1) and n = less.prems(2)
  let ?Q = "\<lambda>s'. framed s s' \<and> (\<exists>T. holds_tree s' T \<and> repaired T \<and> entries T = entries (plug (Br A z RED kz B) fs))"
  show ?case
  proof (cases fs)
    case Nil
    then have "?Q s" using h n by (intro conjI exI [of _ "Br A z RED kz B"]) (auto simp: repaired_def nearly_def)
    moreover have "root s = Some z" using h Nil by (simp add: holds_tree_def)
    ultimately show ?thesis by (subst wp_insert_loop) (simp add: wp_simps)
  next
    case (Cons f gs)
    obtain pa d pk S where f: "f = AboveL pa d pk S \<or> f = AboveR S pa d pk" by (cases f) auto
    show ?thesis
    proof (cases d)
      case BLACK
      have "repaired (plug (Br A z RED kz B) fs)"
        using n f BLACK Cons by (auto simp: repaired_def nearly_def invc_plug invh_plug plug_Br tcolor_plug paint_ok)
      then have "?Q s" using h by auto
      then show ?thesis
        using insert_loop_exit [of s A z kz B f gs pa pk S "\<lambda>_. ?Q"] h f BLACK Cons by simp
    next
      case RED
      then obtain g hs where g: "gs = g # hs" using n f Cons by (cases gs) (auto simp: nearly_def)
      have "wp (insert_turn (Some z)) (\<lambda>z'. wp (insert_loop z') (\<lambda>_. ?Q)) s"
      proof (rule insert_turn_spec [OF h n, of f g hs pa pk S])
        fix s' :: "'a rb_state_scheme" and A' z' kz' B'
        assume r: "holds_tree s' (plug (Br A' z' RED kz' B') hs)" "nearly A' B' hs" "framed s s'"
          "entries (plug (Br A' z' RED kz' B') hs) = entries (plug (Br A z RED kz B) fs)"
        have "length hs < length fs" using Cons g by simp
        from less.hyps [OF this r(1,2)] show "wp (insert_loop (Some z')) (\<lambda>_. ?Q) s'"
          by (rule wp_mono) (use r(3,4) framed_trans in auto)
      next
        fix s' :: "'a rb_state_scheme" and A' z' kz' B' f' T
        assume r: "holds_tree s' T" "T = plug (Br A' z' RED kz' B') (f' # hs)" "\<exists>a k X. f' = AboveL a BLACK k X \<or> f' = AboveR X a BLACK k"
          "repaired T" "framed s s'" "entries T = entries (plug (Br A z RED kz B) fs)"
        then have "?Q s'" by blast
        moreover obtain a k X where "f' = AboveL a BLACK k X \<or> f' = AboveR X a BLACK k" using r(3) by blast
        ultimately show "wp (insert_loop (Some z')) (\<lambda>_. ?Q) s'"
          using insert_loop_exit [of s' A' z' kz' B' f' hs a k X "\<lambda>_. ?Q"] r(1,2) by simp
      qed (use Cons g f RED in auto)
      moreover have "root s \<noteq> Some z" using not_root [OF h] Cons by simp
      moreover obtain n m where "vmem s z = Some n" "parent n = Some pa" "vmem s pa = Some m" "color m = Color.RED"
        using h Cons f RED by (auto simp: holds_tree_def tree_at_plug)
      ultimately show ?thesis by (subst wp_insert_loop) (simp add: wp_simps)
    qed
  qed
qed

lemma fixInsert_spec:
  assumes "holds_tree s (plug (Br A z RED k B) fs)" and "nearly A B fs"
  shows "wp (fixInsert (Some z)) (\<lambda>_ s'. framed s s' \<and> (\<exists>T. holds_tree s' T \<and> rb_ok T \<and>
    entries T = entries (plug (Br A z RED k B) fs))) s"
proof -
  have "wp (bindP (gets root) (set_color BLACK)) (\<lambda>_ s''. framed s s'' \<and> (\<exists>T. holds_tree s'' T \<and> rb_ok T \<and>
      entries T = entries (plug (Br A z RED k B) fs))) s'"
    if fr: "framed s s'" and ex: "\<exists>T. holds_tree s' T \<and> repaired T \<and> entries T = entries (plug (Br A z RED k B) fs)" for s'
  proof -
    obtain T where T: "holds_tree s' T" "repaired T" "entries T = entries (plug (Br A z RED k B) fs)" using ex by blast
    then obtain l a c k' r where Br: "T = Br l a c k' r" by (cases T) (auto simp: repaired_def)
    have "root s' = Some a" using T(1) Br by (simp add: holds_tree_def)
    moreover have "wp (set_color BLACK (Some a)) (\<lambda>_ s''. framed s s'' \<and> (\<exists>T. holds_tree s'' T \<and> rb_ok T \<and>
        entries T = entries (plug (Br A z RED k B) fs))) s'"
    proof (rule set_color_wp [OF T(1), of l a c k' r "[]"])
      fix s'' assume "holds_tree s'' (plug (Br l a BLACK k' r) [])" and "framed s' s''"
      then show "framed s s'' \<and> (\<exists>T. holds_tree s'' T \<and> rb_ok T \<and> entries T = entries (plug (Br A z RED k B) fs))"
        using T(2,3) Br framed_trans [OF fr]
        by (intro conjI exI [of _ "Br l a BLACK k' r"]) (auto simp: rb_ok_def repaired_def)
    qed (simp add: Br)
    ultimately show ?thesis by (simp add: wp_bindP wp_gets)
  qed
  then show ?thesis
    unfolding fixInsert_def wp_seqP by (intro wp_mono [OF insert_loop_spec [OF assms]]) blast
qed

text \<open>Where a new key goes.\<close>

fun descend :: "int \<Rightarrow> tree \<Rightarrow> frame list \<Rightarrow> frame list" where
  "descend k Leaf fs = fs"
| "descend k (Br l a c k' r) fs =
    (if k < k' then descend k l (AboveL a c k' r # fs) else descend k r (AboveR l a c k' # fs))"

lemma descend_plug: "plug Leaf (descend k t fs) = plug t fs"
  by (induction k t fs rule: descend.induct) auto

lemma descend_order:
  "sorted (keys t) \<Longrightarrow> \<forall>x \<in> set (before fs). snd x \<le> k \<Longrightarrow> \<forall>x \<in> set (after fs). k < snd x \<Longrightarrow>
   (\<forall>x \<in> set (before (descend k t fs)). snd x \<le> k) \<and> (\<forall>x \<in> set (after (descend k t fs)). k < snd x)"
proof (induction k t fs rule: descend.induct)
  case (2 k l a c k' r fs)
  have s: "sorted (keys l)" "sorted (keys r)" "\<forall>x \<in> set (entries l). snd x \<le> k'" "\<forall>x \<in> set (entries r). k' \<le> snd x"
    using "2.prems"(1) by (auto simp: sorted_append)
  show ?case
  proof (cases "k < k'")
    case True
    then have "\<forall>x \<in> set (after (AboveL a c k' r # fs)). k < snd x" using s(4) "2.prems"(3) by force
    from "2.IH"(1) [OF True s(1) _ this] "2.prems"(2) True show ?thesis by (simp only: descend.simps before.simps if_True)
  next
    case False
    then have "\<forall>x \<in> set (before (AboveR l a c k' # fs)). snd x \<le> k" using s(3) "2.prems"(2) by force
    from "2.IH"(2) [OF False s(2) this] "2.prems"(3) False show ?thesis by (simp only: descend.simps after.simps if_False)
  qed
qed simp

lemma wp_place_loop: "wp (place_loop z y x) Q s = wp (ifP (x \<noteq> NULL)
     (bindP (fld key z) (\<lambda>k. bindP (fld key x) (\<lambda>k'.
        bindP (if k < k' then fld left x else fld right x) (\<lambda>x'. place_loop z x x'))))
     (ret y)) Q s"
  unfolding wp_def by (subst place_loop.simps) (rule refl)

lemma place_loop_spec:
  "tree_at (vmem s) (up fs) t \<Longrightarrow> vmem s z = Some n \<Longrightarrow> key n = k \<Longrightarrow>
   wp (place_loop (Some z) (up fs) (at t)) (\<lambda>y s'. s' = s \<and> y = up (descend k t fs)) s"
proof (induction t arbitrary: fs)
  case Leaf
  then show ?case by (subst wp_place_loop) (simp add: wp_simps)
next
  case (Br l a c k' r)
  then show ?case
    using Br.IH(1) [of "AboveL a c k' r # fs"] Br.IH(2) [of "AboveR l a c k' # fs"]
    by (subst wp_place_loop) (simp add: wp_simps)
qed

text \<open>Linking a new red node into the place that was found.\<close>

lemma link_spec:
  assumes h: "holds_tree s t" and ds: "plug Leaf ds = t"
    and ord: "\<forall>x \<in> set (before ds). snd x \<le> k" "\<forall>x \<in> set (after ds). k < snd x"
    and z: "vmem s0 = (vmem s)(z := Some \<lparr>key = k, color = RED, left = NULL, right = NULL, parent = NULL\<rparr>)"
      "root s0 = root s" "vbrk s0 = Suc z" "z = vbrk s"
  shows "wp (seqP (node_put (Some z) (\<lambda>n. n\<lparr>parent := up ds\<rparr>))
      (if up ds = NULL then set_root (Some z)
       else bindP (fld key (Some z)) (\<lambda>k. bindP (fld key (up ds)) (\<lambda>k'.
         if k < k' then node_put (up ds) (\<lambda>n. n\<lparr>left := Some z\<rparr>) else node_put (up ds) (\<lambda>n. n\<lparr>right := Some z\<rparr>)))))
    (\<lambda>_ s'. framed s0 s' \<and> holds_tree s' (plug (Br Leaf z RED k Leaf) ds)) s0"
proof -
  let ?n = "\<lparr>key = k, color = RED, left = NULL, right = NULL, parent = up ds\<rparr>"
  have H: "ctx_at (vmem s) NULL ds" "root s = top NULL ds" "distinct (map fst (before ds @ after ds))"
      "dom (vmem s) = ads (before ds @ after ds)" "\<forall>a \<in> ads (before ds @ after ds). a < z"
    using h unfolding ds [symmetric] by (simp_all add: holds_tree_def tree_at_plug entries_plug at_plug z(4))
  then have out: "outside z ds" by auto
  let ?m = "(vmem s)(z := Some ?n)"
  have c: "ctx_at ?m NULL ds" using H(1) out by simp
  have run: "wp (seqP (node_put (Some z) (\<lambda>n. n\<lparr>parent := up ds\<rparr>))
      (if up ds = NULL then set_root (Some z)
       else bindP (fld key (Some z)) (\<lambda>k. bindP (fld key (up ds)) (\<lambda>k'.
         if k < k' then node_put (up ds) (\<lambda>n. n\<lparr>left := Some z\<rparr>) else node_put (up ds) (\<lambda>n. n\<lparr>right := Some z\<rparr>)))))
    (\<lambda>_ s'. s' = s0\<lparr>vmem := redirect (Some z) ds ?m, root := top (Some z) ds\<rparr>) s0"
    using H z ord out by (cases ds rule: up.cases) (auto simp: wp_simps)
  have "holds_tree (s0\<lparr>vmem := redirect (Some z) ds ?m, root := top (Some z) ds\<rparr>) (plug (Br Leaf z RED k Leaf) ds)"
    using redirect_ctx [OF c H(3), of "Some z"] redirect_other [OF out, of "Some z" ?m] redirect_dom [OF c, of "Some z"] H(3,4,5) out z(3)
    by (simp add: holds_tree_def tree_at_plug at_plug entries_plug less_SucI ball_Un)
  then show ?thesis by (intro wp_mono [OF run]) (auto simp: framed_def)
qed

text \<open>\<open>s\<close> holds a red-black tree that is a search tree.\<close>

definition rb_tree :: "'a rb_state_scheme \<Rightarrow> tree \<Rightarrow> bool" where
  "rb_tree s t \<longleftrightarrow> holds_tree s t \<and> rb_ok t \<and> sorted (keys t)"

lemma insertNode_spec:
  fixes s :: "'a rb_state_scheme"
  assumes "rb_tree s t"
  shows "wp (insertNode (Some junk) k) (\<lambda>_ s'. \<exists>t' es es'. rb_tree s' t' \<and> entries t = es @ es' \<and>
    entries t' = es @ (vbrk s, k) # es' \<and> vbrk s' = Suc (vbrk s) \<and> printed s' = printed s \<and>
    rb_state.more s' = rb_state.more s) s"
proof -
  let ?z = "vbrk s"
  let ?s0 = "s\<lparr>vbrk := Suc ?z, vmem := (vmem s)(?z := Some \<lparr>key = k, color = RED, left = NULL, right = NULL, parent = NULL\<rparr>)\<rparr>"
  define ds where "ds = descend k t []"
  have h: "holds_tree s t" and rb: "rb_ok t" and so: "sorted (keys t)" using assms by (auto simp: rb_tree_def)
  have p: "plug Leaf ds = t" by (simp add: ds_def descend_plug)
  have ord: "\<forall>x \<in> set (before ds). snd x \<le> k" "\<forall>x \<in> set (after ds). k < snd x"
    using descend_order [OF so, of "[]" k] by (auto simp: ds_def)
  have new: "?z \<notin> ads (entries t)" using h by (auto simp: holds_tree_def)
  have place: "wp (place_loop (Some ?z) NULL (root ?s0)) (\<lambda>y s'. s' = ?s0 \<and> y = up ds) ?s0"
    using place_loop_spec [of ?s0 "[]" t ?z _ k] h new by (simp add: holds_tree_def ds_def)
  have near: "nearly Leaf Leaf ds"
    using rb unfolding p [symmetric] by (auto simp: rb_ok_def nearly_def invc_plug invh_plug tcolor_plug)
  have e: "entries t = before ds @ after ds" "entries (plug (Br Leaf ?z RED k Leaf) ds) = before ds @ (?z, k) # after ds"
    unfolding p [symmetric] by (simp_all add: entries_plug)
  let ?Q = "\<lambda>s' :: 'a rb_state_scheme. \<exists>t' es es'. rb_tree s' t' \<and> entries t = es @ es' \<and> entries t' = es @ (?z, k) # es' \<and>
    vbrk s' = Suc ?z \<and> printed s' = printed s \<and> rb_state.more s' = rb_state.more s"
  have "wp (fixInsert (Some ?z)) (\<lambda>_. ?Q) s'"
    if l: "framed ?s0 s'" "holds_tree s' (plug (Br Leaf ?z RED k Leaf) ds)" for s'
  proof (rule wp_mono [OF fixInsert_spec [OF l(2) near]], elim conjE exE)
    fix s'' T assume T: "framed s' s''" "holds_tree s'' T" "rb_ok T" "entries T = entries (plug (Br Leaf ?z RED k Leaf) ds)"
    have "sorted (keys T)"
      using so ord unfolding T(4) e by (fastforce simp: sorted_append)
    then show "?Q s''"
      using T l(1) e by (intro exI [of _ T] exI [of _ "before ds"] exI [of _ "after ds"]) (auto simp: rb_tree_def framed_def)
  qed
  then have linked: "wp (seqP (node_put (Some ?z) (\<lambda>n. n\<lparr>parent := up ds\<rparr>))
      (if up ds = NULL then set_root (Some ?z)
       else bindP (fld key (Some ?z)) (\<lambda>k. bindP (fld key (up ds)) (\<lambda>k'.
         if k < k' then node_put (up ds) (\<lambda>n. n\<lparr>left := Some ?z\<rparr>) else node_put (up ds) (\<lambda>n. n\<lparr>right := Some ?z\<rparr>)))))
      (\<lambda>_. wp (fixInsert (Some ?z)) (\<lambda>_. ?Q)) ?s0"
    by (intro wp_mono [OF link_spec [OF h p ord]]) auto
  have "wp (bindP (place_loop (Some ?z) NULL (root ?s0)) (\<lambda>y. blockP
       [node_put (Some ?z) (\<lambda>n. n\<lparr>parent := y\<rparr>),
        if y = NULL then set_root (Some ?z)
        else bindP (fld key (Some ?z)) (\<lambda>k. bindP (fld key y) (\<lambda>k'.
          if k < k' then node_put y (\<lambda>n. n\<lparr>left := Some ?z\<rparr>) else node_put y (\<lambda>n. n\<lparr>right := Some ?z\<rparr>))),
        fixInsert (Some ?z)])) (\<lambda>_. ?Q) ?s0"
    unfolding wp_bindP by (rule wp_mono [OF place]) (use linked in \<open>simp add: wp_seqP wp_blockP wp_seqP' wp_ret'\<close>)
  then show ?thesis
    by (cases junk) (simp add: insertNode_def createNode_def wp_bindP wp_gets wp_seqP wp_modify wp_ret)
qed

section \<open>Search and traversal\<close>

text \<open>The subtree at which the search ends, and its context.\<close>

fun locate :: "int \<Rightarrow> tree \<Rightarrow> frame list \<Rightarrow> tree \<times> frame list" where
  "locate k Leaf fs = (Leaf, fs)"
| "locate k (Br l a c k' r) fs = (if k' = k then (Br l a c k' r, fs)
     else if k < k' then locate k l (AboveL a c k' r # fs) else locate k r (AboveR l a c k' # fs))"

lemma locate_plug: "locate k t fs = (u, gs) \<Longrightarrow> plug u gs = plug t fs"
  by (induction k t fs rule: locate.induct) (auto split: if_splits)

lemma locate_key: "locate k t fs = (Br l a c k' r, gs) \<Longrightarrow> k' = k"
  by (induction k t fs rule: locate.induct) (auto split: if_splits)

lemma locate_none: "locate k t fs = (Leaf, gs) \<Longrightarrow> sorted (keys t) \<Longrightarrow> k \<notin> set (keys t)"
proof (induction k t fs rule: locate.induct)
  case (2 k l a c k' r fs)
  have s: "sorted (keys l)" "sorted (keys r)" "\<forall>x \<in> set (keys l). x \<le> k'" "\<forall>x \<in> set (keys r). k' \<le> x"
    using "2.prems"(2) by (auto simp: sorted_append)
  have ne: "k' \<noteq> k" using "2.prems"(1) by (simp split: if_splits)
  show ?case
  proof (cases "k < k'")
    case True
    then have "k \<notin> set (keys l)" using "2.IH"(1) [OF ne True] "2.prems"(1) ne s(1) by simp
    then show ?thesis using s(4) True by auto
  next
    case False
    then have "k \<notin> set (keys r)" using "2.IH"(2) [OF ne False] "2.prems"(1) ne s(2) by simp
    then show ?thesis using s(3) False ne by auto
  qed
qed simp

lemma wp_searchNode: "wp (searchNode p k) Q s = wp (ifP (p = NULL) (ret p)
     (bindP (fld key p) (\<lambda>k'. ifP (k' = k) (ret p)
       (bindP (if k < k' then fld left p else fld right p) (\<lambda>q. searchNode q k))))) Q s"
  unfolding wp_def by (subst searchNode.simps) (rule refl)

lemma searchNode_run:
  "tree_at (vmem s) (up fs) t \<Longrightarrow> wp (searchNode (at t) k) (\<lambda>r s'. s' = s \<and> r = at (fst (locate k t fs))) s"
proof (induction t arbitrary: fs)
  case Leaf
  then show ?case by (subst wp_searchNode) (simp add: wp_simps)
next
  case (Br l a c k' r)
  then show ?case
    using Br.IH(1) [of "AboveL a c k' r # fs"] Br.IH(2) [of "AboveR l a c k' # fs"]
    by (subst wp_searchNode) (simp add: wp_simps)
qed

lemma wp_getMinimumNode: "wp (getMinimumNode p) Q s =
    wp (bindP (fld left p) (\<lambda>l. ifP (l \<noteq> NULL) (getMinimumNode l) (ret p))) Q s"
  unfolding wp_def by (subst getMinimumNode.simps) (rule refl)

text \<open>The leftmost node of a tree, with its context.\<close>

fun leftmost :: "tree \<Rightarrow> frame list \<Rightarrow> tree \<times> frame list" where
  "leftmost Leaf fs = (Leaf, fs)"
| "leftmost (Br l a c k r) fs = (if l = Leaf then (Br l a c k r, fs) else leftmost l (AboveL a c k r # fs))"

lemma at_Leaf [simp]: "at t = None \<longleftrightarrow> t = Leaf"
  by (cases t) auto

lemma getMinimumNode_run:
  "tree_at (vmem s) (up fs) t \<Longrightarrow> t \<noteq> Leaf \<Longrightarrow>
   wp (getMinimumNode (at t)) (\<lambda>r s'. s' = s \<and> r = at (fst (leftmost t fs))) s"
proof (induction t arbitrary: fs)
  case (Br l a c k r)
  then show ?case
    using Br.IH(1) [of "AboveL a c k r # fs"]
    by (subst wp_getMinimumNode) (auto simp: wp_simps)
qed simp

lemma wp_inorderTraversal: "wp (inorderTraversal p) Q s = wp (ifP (p = NULL) (ret ())
     (seqP (bindP (fld left p) (\<lambda>l. inorderTraversal l))
     (seqP (bindP (fld key p) (\<lambda>k. modify (\<lambda>s. s\<lparr>printed := printed s @ [k]\<rparr>)))
       (bindP (fld right p) (\<lambda>r. inorderTraversal r))))) Q s"
  unfolding wp_def by (subst inorderTraversal.simps) (rule refl)

lemma inorderTraversal_run:
  "tree_at (vmem s) p t \<Longrightarrow> wp (inorderTraversal (at t)) (\<lambda>_ s'. s' = s\<lparr>printed := printed s @ keys t\<rparr>) s"
proof (induction t arbitrary: p s)
  case Leaf
  then show ?case by (subst wp_inorderTraversal) (simp add: wp_simps)
next
  case (Br l a c k r)
  let ?s1 = "s\<lparr>printed := printed s @ keys l\<rparr>"
  let ?s2 = "s\<lparr>printed := printed s @ keys l @ [k]\<rparr>"
  have "wp (inorderTraversal (at r)) (\<lambda>_ s'. s' = ?s2\<lparr>printed := printed ?s2 @ keys r\<rparr>) ?s2"
    using Br.IH(2) [of ?s2 "Some a"] Br.prems by simp
  then have rest: "wp (seqP (bindP (fld key (Some a)) (\<lambda>k. modify (\<lambda>s. s\<lparr>printed := printed s @ [k]\<rparr>)))
       (bindP (fld right (Some a)) (\<lambda>r. inorderTraversal r))) (\<lambda>_ s'. s' = s\<lparr>printed := printed s @ keys (Br l a c k r)\<rparr>) ?s1"
    using Br.prems by (simp add: wp_simps)
  have lft: "wp (inorderTraversal (at l)) (\<lambda>_ s'. s' = ?s1) s"
    using Br.IH(1) [of s "Some a"] Br.prems by simp
  have "wp (inorderTraversal (at l)) (\<lambda>_. wp (seqP (bindP (fld key (Some a)) (\<lambda>k. modify (\<lambda>s. s\<lparr>printed := printed s @ [k]\<rparr>)))
       (bindP (fld right (Some a)) (\<lambda>r. inorderTraversal r))) (\<lambda>_ s'. s' = s\<lparr>printed := printed s @ keys (Br l a c k r)\<rparr>)) s"
    by (rule wp_mono [OF lft]) (simp only: rest)
  then show ?case
    using Br.prems by (subst wp_inorderTraversal) (simp only: wp_ifP wp_seqP wp_bindP wp_fld wp_seqP' wp_bindP', simp)
qed

text \<open>How deep a search can go.\<close>

fun depth :: "tree \<Rightarrow> nat" where
  "depth Leaf = 0"
| "depth (Br l a c k r) = Suc (max (depth l) (depth r))"

lemma color_cases: "c \<noteq> BLACK \<longleftrightarrow> c = RED"
  by (cases c) auto

lemma depth_bheight: "invc t \<Longrightarrow> invh t \<Longrightarrow> depth t \<le> 2 * bheight t + (if tcolor t = RED then 1 else 0)"
  by (induction t) (auto simp: color_cases split: if_splits)

lemma bheight_size: "invh t \<Longrightarrow> 2 ^ bheight t \<le> Suc (length (entries t))"
  by (induction t) auto

lemma rb_depth:
  assumes "rb_ok t"
  shows "2 ^ ((depth t + 1) div 2) \<le> Suc (length (entries t))"
proof -
  have "(depth t + 1) div 2 \<le> bheight t" using depth_bheight [of t] assms by (auto simp: rb_ok_def)
  then have "(2 :: nat) ^ ((depth t + 1) div 2) \<le> 2 ^ bheight t" by (rule power_increasing) simp
  also have "\<dots> \<le> Suc (length (entries t))" using bheight_size [of t] assms by (simp add: rb_ok_def)
  finally show ?thesis .
qed

section \<open>Insertion and search, together\<close>

lemma searchNode_finds:
  assumes "rb_tree s t"
  shows "\<exists>r. searchNode (root s) k s = Some (Ret r, s) \<and> (r = NULL \<longleftrightarrow> k \<notin> set (keys t))"
proof -
  obtain u gs where loc: "locate k t [] = (u, gs)" by fastforce
  have t: "tree_at (vmem s) (up []) t" "root s = at t" "sorted (keys t)" using assms by (auto simp: rb_tree_def holds_tree_def)
  have "u = Leaf \<longleftrightarrow> k \<notin> set (keys t)"
  proof (cases u)
    case Leaf
    then show ?thesis using locate_none loc t(3) by simp
  next
    case (Br l a c k' r)
    have "entries t = before gs @ entries u @ after gs" using locate_plug [OF loc] entries_plug [of u gs] by simp
    moreover have "k' = k" using locate_key loc Br by blast
    ultimately show ?thesis using Br by auto
  qed
  then show ?thesis using searchNode_run [OF t(1), of k] t(2) loc by (auto simp: wp_iff)
qed

text \<open>A collection of keys that a client adds to and asks.\<close>

locale key_bag =
  fixes add :: "int \<Rightarrow> ('s, unit) prog" and ask :: "int \<Rightarrow> ('s, 'r) prog" and found :: "'r \<Rightarrow> bool"
    and bag :: "'s \<Rightarrow> int multiset \<Rightarrow> bool"
  assumes add_law: "bag s M \<Longrightarrow> wp (add k) (\<lambda>_ s'. bag s' (add_mset k M)) s"
    and ask_law: "bag s M \<Longrightarrow> wp (ask k) (\<lambda>r s'. s' = s \<and> (found r \<longleftrightarrow> k \<in># M)) s"
begin

lemma add_all: "bag s M \<Longrightarrow> wp (forP ks add) (\<lambda>_ s'. bag s' (mset ks + M)) s"
proof (induction ks arbitrary: s M)
  case (Cons k ks)
  have "wp (add k) (\<lambda>_. wp (forP ks add) (\<lambda>_ s'. bag s' (mset (k # ks) + M))) s"
  proof (rule wp_mono [OF add_law [OF Cons.prems]])
    fix s' assume "bag s' (add_mset k M)"
    from Cons.IH [OF this] show "wp (forP ks add) (\<lambda>_ s'. bag s' (mset (k # ks) + M)) s'" by simp
  qed
  then show ?case by (simp add: wp_seqP)
qed (simp add: wp_simps)

lemma ask_after: "bag s M \<Longrightarrow> wp (seqP (forP ks add) (ask k)) (\<lambda>r _. found r \<longleftrightarrow> k \<in># mset ks + M) s"
  unfolding wp_seqP by (rule wp_mono [OF add_all], assumption, rule wp_mono [OF ask_law], assumption) simp

end

definition rb_bag :: "int list \<Rightarrow> 'a rb_state_scheme \<Rightarrow> int multiset \<Rightarrow> bool" where
  "rb_bag out s M \<longleftrightarrow> printed s = out \<and> (\<exists>t. rb_tree s t \<and> mset (keys t) = M)"

lemma rb_bag_insert:
  fixes s :: "'a rb_state_scheme"
  assumes "rb_bag out s M"
  shows "wp (insertNode (Some junk) k) (\<lambda>_ s'. rb_bag out s' (add_mset k M)) s"
proof -
  obtain t where t: "rb_tree s t" "mset (keys t) = M" "printed s = out" using assms by (auto simp: rb_bag_def)
  show ?thesis
  proof (rule wp_mono [OF insertNode_spec [OF t(1)]], elim exE conjE)
    fix s1 :: "'a rb_state_scheme" and t1 es es'
    assume r: "rb_tree s1 t1" "entries t = es @ es'" "entries t1 = es @ (vbrk s, k) # es'" "printed s1 = printed s"
    have "mset (keys t1) = add_mset k M" using r(2,3) t(2) by auto
    then show "rb_bag out s1 (add_mset k M)" using r(1,4) t(3) by (auto simp: rb_bag_def)
  qed
qed

lemma rb_bag_search: "rb_bag out s M \<Longrightarrow>
    wp (bindP (gets root) (\<lambda>p. searchNode p k)) (\<lambda>r s'. s' = s \<and> (r \<noteq> NULL \<longleftrightarrow> k \<in># M)) s"
proof -
  assume "rb_bag out s M"
  then obtain t where t: "rb_tree s t" "mset (keys t) = M" by (auto simp: rb_bag_def)
  obtain r where r: "searchNode (root s) k s = Some (Ret r, s)" "r = NULL \<longleftrightarrow> k \<notin> set (keys t)"
    using searchNode_finds [OF t(1)] by blast
  have "k \<in># M \<longleftrightarrow> k \<in> set (keys t)" unfolding t(2) [symmetric] by (simp only: set_mset_mset)
  then show ?thesis using r by (cases r) (simp_all add: wp_iff run_simps)
qed

interpretation rb: key_bag "insertNode (Some junk)" "\<lambda>k. bindP (gets root) (\<lambda>p. searchNode p k)" "\<lambda>r. r \<noteq> NULL" "rb_bag out"
  for junk out
  by unfold_locales (rule rb_bag_insert, assumption, rule rb_bag_search, assumption)

lemma traverse_after:
  assumes t: "rb_tree s t"
  shows "wp (bindP (gets root) inorderTraversal) (\<lambda>_ s'. printed s' = printed s @ keys t \<and> rb_tree s' t) s"
proof -
  have h: "tree_at (vmem s) NULL t" "root s = at t" using t by (simp_all add: rb_tree_def holds_tree_def)
  have "wp (inorderTraversal (root s)) (\<lambda>_ s'. printed s' = printed s @ keys t \<and> rb_tree s' t) s"
    unfolding h(2) by (rule wp_mono [OF inorderTraversal_run [OF h(1)]]) (use t in \<open>simp add: rb_tree_def holds_tree_def\<close>)
  then show ?thesis by (simp add: wp_bindP wp_gets)
qed

text \<open>
  C15: \<open>insertNode\<close> of \<open>test/rbtree.c\<close>, on the pointer structure: on any red-black search tree - no red node has a red
  child, all paths have as many black nodes, the root is black, parents and children point at each other, no node
  is shared or lost - it returns and leaves such a tree, with one node more, at its place in the order, and every
  other node with its key. An allocation that failed is dereferenced.
\<close>

theorem insertNode_keeps_tree:
  fixes s :: "'a rb_state_scheme"
  assumes "rb_tree s t"
  shows "wp (insertNode (Some junk) k) (\<lambda>_ s'. \<exists>t' es es'. rb_tree s' t' \<and> entries t = es @ es' \<and>
      entries t' = es @ (vbrk s, k) # es' \<and> printed s' = printed s) s \<and>
    insertNode None k s = Some (Fault NullDeref, s)"
proof
  show "wp (insertNode (Some junk) k) (\<lambda>_ s'. \<exists>t' es es'. rb_tree s' t' \<and> entries t = es @ es' \<and>
      entries t' = es @ (vbrk s, k) # es' \<and> printed s' = printed s) s"
    by (rule wp_mono [OF insertNode_spec [OF assms]]) blast
qed (simp add: insertNode_def createNode_def run_simps)

definition no_tree :: "unit rb_state_scheme" where
  "no_tree = \<lparr>vmem = \<lambda>_. None, vbrk = 0, root = NULL, printed = []\<rparr>"

definition junk_node :: Node where
  "junk_node = \<lparr>key = 9, color = BLACK, left = Some 4, right = Some 5, parent = Some 6\<rparr>"

lemma no_tree_tree: "rb_tree no_tree Leaf"
  by (simp add: no_tree_def rb_tree_def holds_tree_def rb_ok_def)

lemma insertNode_keeps_tree_witness:
  "rb_tree no_tree Leaf \<and> (\<exists>s t. insertNode (Some junk_node) 7 no_tree = Some (Ret (), s) \<and> rb_tree s t \<and> entries t = [(0, 7)])"
  using no_tree_tree insertNode_keeps_tree [OF no_tree_tree, of junk_node 7]
  by (auto simp: wp_iff no_tree_def)

text \<open>
  C23: The tree of \<open>test/rbtree.c\<close> as its test uses it: after any keys have been inserted into the empty tree, duplicates
  included, the traversal prints them sorted, a search returns and answers NULL exactly for keys that were not
  inserted, and no path is longer than twice the logarithm of their number.
\<close>

theorem rb_tree_sorts:
  fixes s :: "'a rb_state_scheme"
  assumes "rb_tree s Leaf"
  shows "wp (seqP (forP ks (insertNode (Some junk))) (bindP (gets root) inorderTraversal)) (\<lambda>_ s'.
    printed s' = printed s @ sort ks \<and>
    (\<forall>k. \<exists>r. searchNode (root s') k s' = Some (Ret r, s') \<and> (r = NULL \<longleftrightarrow> k \<notin> set ks)) \<and>
    (\<exists>t. rb_tree s' t \<and> 2 ^ ((depth t + 1) div 2) \<le> Suc (length ks))) s"
  unfolding wp_seqP
proof (rule wp_mono [OF rb.add_all [of "printed s" s "{#}"]])
  show "rb_bag (printed s) s {#}" using assms by (auto simp: rb_bag_def)
next
  fix s1 :: "'a rb_state_scheme"
  assume "rb_bag (printed s) s1 (mset ks + {#})"
  then obtain t where r: "printed s1 = printed s" "rb_tree s1 t" "mset (keys t) = mset ks" by (auto simp: rb_bag_def)
  have "sorted (keys t)" using r(2) by (simp add: rb_tree_def)
  then have k: "keys t = sort ks" using properties_for_sort [of "keys t" ks] r(3) by simp
  have len: "length (entries t) = length ks" using arg_cong [OF k, of length] by simp
  have set: "set (keys t) = set ks" using k by simp
  show "wp (bindP (gets root) inorderTraversal) (\<lambda>_ s'. printed s' = printed s @ sort ks \<and>
    (\<forall>k. \<exists>r. searchNode (root s') k s' = Some (Ret r, s') \<and> (r = NULL \<longleftrightarrow> k \<notin> set ks)) \<and>
    (\<exists>t. rb_tree s' t \<and> 2 ^ ((depth t + 1) div 2) \<le> Suc (length ks))) s1"
  proof (rule wp_mono [OF traverse_after [OF r(2)]], elim conjE)
    fix s2 :: "'a rb_state_scheme"
    assume p: "printed s2 = printed s1 @ keys t" and t2: "rb_tree s2 t"
    have "2 ^ ((depth t + 1) div 2) \<le> Suc (length ks)" using rb_depth [of t] t2 len by (simp add: rb_tree_def)
    then show "printed s2 = printed s @ sort ks \<and>
      (\<forall>k. \<exists>r. searchNode (root s2) k s2 = Some (Ret r, s2) \<and> (r = NULL \<longleftrightarrow> k \<notin> set ks)) \<and>
      (\<exists>t. rb_tree s2 t \<and> 2 ^ ((depth t + 1) div 2) \<le> Suc (length ks))"
      using p t2 r(1) k searchNode_finds [OF t2] set by metis
  qed
qed

lemma rb_tree_sorts_witness:
  "rb_tree no_tree Leaf \<and> (\<exists>s. seqP (forP [7, 7, 18, 10] (insertNode (Some junk_node))) (bindP (gets root) inorderTraversal) no_tree =
     Some (Ret (), s) \<and> printed s = [7, 7, 10, 18])"
  using no_tree_tree rb_tree_sorts [OF no_tree_tree, of "[7, 7, 18, 10]" junk_node]
  by (auto simp: wp_iff no_tree_def)

end
