(* ===== verification/RbDelete.thy ===== *)
theory RbDelete
  imports RbInsert
begin

text \<open>
  Deletion from the red-black tree of \<open>moudles/test/rbtree.c\<close>: \<open>transplant\<close>, \<open>fixDelete\<close> and \<open>deleteNode\<close>, and for which
  keys of which trees it works. The file represents missing children by NULL, but \<open>deleteNode\<close> and \<open>fixDelete\<close>
  are written for a sentinel node whose parent can be read and set.
\<close>

section \<open>Operations\<close>

text \<open>\<open>p == NULL || p->color == BLACK\<close>\<close>

definition is_black :: "ptr \<Rightarrow> ('a rb_state_scheme, bool) prog" where
  "is_black p = (if p = NULL then ret True else bindP (fld color p) (\<lambda>c. ret (c = BLACK)))"

text \<open>
  One turn of the loop of \<open>fixDelete\<close>; it gives the next \<open>x\<close>. \<open>near\<close> is the side of \<open>x\<close>, \<open>far\<close> that of its sibling
  \<open>w\<close>; \<open>rot_near\<close> rotates towards \<open>x\<close>.
\<close>

definition delete_side ::
  "(Node \<Rightarrow> ptr) \<Rightarrow> (Node \<Rightarrow> ptr) \<Rightarrow> (ptr \<Rightarrow> ('a rb_state_scheme, unit) prog) \<Rightarrow> (ptr \<Rightarrow> ('a rb_state_scheme, unit) prog)
     \<Rightarrow> ptr \<Rightarrow> ('a rb_state_scheme, ptr) prog" where
  "delete_side near far rot_near rot_far x =
     bindP (bindP (fld parent x) (fld far)) (\<lambda>w. bindP (is_red w) (\<lambda>b.
     bindP (if b then
         seqP (set_color BLACK w)
        (seqP (bindP (fld parent x) (set_color RED))
        (seqP (bindP (fld parent x) rot_near)
          (bindP (fld parent x) (fld far))))
       else ret w) (\<lambda>w.
     bindP (bindP (bindP (fld near w) is_black) (\<lambda>b. if b then bindP (fld far w) is_black else ret False)) (\<lambda>b.
       if b then seqP (set_color RED w) (fld parent x)
       else
         bindP (bindP (bindP (fld far w) is_black) (\<lambda>b.
           if b then
             seqP (bindP (fld near w) (\<lambda>n. whenP (n \<noteq> NULL) (set_color BLACK n)))
            (seqP (set_color RED w)
            (seqP (rot_far w)
              (bindP (fld parent x) (fld far))))
           else ret w)) (\<lambda>w.
         bindP (bindP (fld parent x) (fld color)) (\<lambda>c.
           seqP (set_color c w)
          (seqP (bindP (fld parent x) (set_color BLACK))
          (seqP (bindP (fld far w) (\<lambda>n. whenP (n \<noteq> NULL) (set_color BLACK n)))
          (seqP (bindP (fld parent x) rot_near)
            (gets root))))))))))"

definition delete_turn :: "ptr \<Rightarrow> ('a rb_state_scheme, ptr) prog" where
  "delete_turn x = bindP (bindP (fld parent x) (fld left)) (\<lambda>l.
     if x = l then delete_side left right leftRotate rightRotate x else delete_side right left rightRotate leftRotate x)"

partial_function (option) fix_delete_loop :: "ptr \<Rightarrow> 'a rb_state_scheme \<Rightarrow> (ptr res \<times> 'a rb_state_scheme) option" where
  "fix_delete_loop x s = bindP (gets root) (\<lambda>r. ifP (x \<noteq> r)
     (bindP (is_black x) (\<lambda>b. ifP b (bindP (delete_turn x) (\<lambda>x. fix_delete_loop x)) (ret x)))
     (ret x)) s"

definition fixDelete :: "ptr \<Rightarrow> ('a rb_state_scheme, unit) prog" where
  "fixDelete x = bindP (fix_delete_loop x) (\<lambda>x. whenP (x \<noteq> NULL) (set_color BLACK x))"

definition transplant :: "ptr \<Rightarrow> ptr \<Rightarrow> ('a rb_state_scheme, unit) prog" where
  "transplant u v = seqP (replace_child u v)
     (whenP (v \<noteq> NULL) (bindP (fld parent u) (\<lambda>p. node_put v (\<lambda>n. n\<lparr>parent := p\<rparr>))))"

text \<open>\<open>y\<close> leaves its place, below the right child of \<open>z\<close>.\<close>

definition detach :: "ptr \<Rightarrow> ptr \<Rightarrow> ptr \<Rightarrow> ('a rb_state_scheme, unit) prog" where
  "detach z y x = bindP (fld parent y) (\<lambda>p.
     if p = z then node_put x (\<lambda>n. n\<lparr>parent := y\<rparr>)
     else
       seqP (bindP (fld right y) (transplant y))
      (seqP (bindP (fld right z) (\<lambda>r. node_put y (\<lambda>n. n\<lparr>right := r\<rparr>)))
        (bindP (fld right y) (\<lambda>r. node_put r (\<lambda>n. n\<lparr>parent := y\<rparr>)))))"

text \<open>\<open>y\<close> takes the place of \<open>z\<close>.\<close>

definition take_place :: "ptr \<Rightarrow> ptr \<Rightarrow> ('a rb_state_scheme, unit) prog" where
  "take_place z y = seqP (transplant z y)
    (seqP (bindP (fld left z) (\<lambda>l. node_put y (\<lambda>n. n\<lparr>left := l\<rparr>)))
    (seqP (bindP (fld left y) (\<lambda>l. node_put l (\<lambda>n. n\<lparr>parent := y\<rparr>)))
      (bindP (fld color z) (\<lambda>c. set_color c y))))"

text \<open>Takes \<open>z\<close> out of the tree; gives \<open>x\<close> and \<open>yOriginalColor\<close>.\<close>

definition unlink :: "ptr \<Rightarrow> ('a rb_state_scheme, ptr \<times> Color) prog" where
  "unlink z = bindP (fld color z) (\<lambda>c. bindP (fld left z) (\<lambda>l.
     if l = NULL then bindP (fld right z) (\<lambda>x. seqP (bindP (fld right z) (transplant z)) (ret (x, c)))
     else bindP (fld right z) (\<lambda>r.
       if r = NULL then bindP (fld left z) (\<lambda>x. seqP (bindP (fld left z) (transplant z)) (ret (x, c)))
       else bindP (bindP (fld right z) getMinimumNode) (\<lambda>y. bindP (fld color y) (\<lambda>c. bindP (fld right y) (\<lambda>x.
         seqP (detach z y x) (seqP (take_place z y) (ret (x, c)))))))))"

definition deleteNode :: "int \<Rightarrow> ('a rb_state_scheme, unit) prog" where
  "deleteNode k = bindP (gets root) (\<lambda>r. bindP (searchNode r k) (\<lambda>z.
     if z = NULL then ret ()
     else bindP (unlink z) (\<lambda>(x, c). seqP (whenP (c = BLACK) (fixDelete x)) (free_tree_node z))))"

section \<open>Repairing\<close>

lemma fixDelete_red:
  assumes "vmem s a = Some n" and "color n = RED"
  shows "wp (fixDelete (Some a)) (\<lambda>_ s'. s' = s\<lparr>vmem := (vmem s)(a := Some (n\<lparr>color := BLACK\<rparr>))\<rparr>) s"
proof -
  have "fix_delete_loop (Some a) s = Some (Ret (Some a), s)"
    using assms by (subst fix_delete_loop.simps) (simp add: run_simps is_black_def fld_def node_get_def)
  then have "wp (fix_delete_loop (Some a)) (\<lambda>x s'. x = Some a \<and> s' = s) s" by (simp add: wp_def)
  from wp_mono [OF this] show ?thesis
    unfolding fixDelete_def wp_bindP using assms by (simp add: wp_simps)
qed

lemma fixDelete_empty: "root s = NULL \<Longrightarrow> fixDelete NULL s = Some (Ret (), s)"
  by (simp add: fixDelete_def run_simps) (subst fix_delete_loop.simps, simp add: run_simps)

text \<open>The loop is entered with NULL only, and then reads through it.\<close>

lemma fixDelete_null: "root s \<noteq> NULL \<Longrightarrow> fixDelete NULL s = Some (Fault NullDeref, s)"
  by (cases "root s"; simp add: fixDelete_def run_simps; subst fix_delete_loop.simps)
    (simp_all add: run_simps is_black_def delete_turn_def fld_def node_get_def)

section \<open>Moving nodes\<close>

definition without :: "addr \<Rightarrow> 'a rb_state_scheme \<Rightarrow> 'a rb_state_scheme" where
  "without a s = s\<lparr>vmem := (vmem s)(a := None)\<rparr>"

text \<open>A node with at most one child is replaced by it; the node itself is still there.\<close>

lemma transplant_spec:
  assumes h: "holds_tree s (plug (Br A u c k B) fs)" and V: "A = Leaf \<and> V = B \<or> B = Leaf \<and> V = A"
  shows "wp (transplant (Some u) (at V)) (\<lambda>_ s'. framed s s' \<and> vmem s' u = vmem s u \<and> holds_tree (without u s') (plug V fs)) s"
proof -
  let ?m = "redirect (at V) fs (vmem s)"
  let ?s' = "s\<lparr>vmem := adopt (up fs) V ?m, root := top (at V) fs\<rparr>"
  have H: "vmem s u = Some \<lparr>key = k, color = c, left = at A, right = at B, parent = up fs\<rparr>"
      "tree_at (vmem s) (Some u) V" "ctx_at (vmem s) (Some u) fs" "root s = top (Some u) fs"
    using h V by (auto simp: holds_tree_def tree_at_plug at_plug)
  have e: "mset (entries (plug (Br A u c k B) fs)) = add_mset (u, k) (mset (entries (plug V fs)))"
    using V by (auto simp: entries_plug)
  have es: "set (entries (plug (Br A u c k B) fs)) = insert (u, k) (set (entries (plug V fs)))"
    using arg_cong [OF e, of set_mset] by simp
  have "distinct (map fst (entries (plug (Br A u c k B) fs)))" using h by (simp add: holds_tree_def)
  then have "distinct (map fst ((u, k) # entries (plug V fs)))"
    using mset_eq_imp_distinct_iff [of "map fst (entries (plug (Br A u c k B) fs))" "map fst ((u, k) # entries (plug V fs))"] e by simp
  then have H': "distinct (map fst (entries (plug V fs)))" "u \<notin> ads (entries (plug V fs))"
      "dom (vmem s) = insert u (ads (entries (plug V fs)))" "\<forall>a \<in> ads (entries (plug V fs)). a < vbrk s"
    using h by (simp_all add: holds_tree_def es)
  have d: "outside u fs" "u \<notin> ads (entries V)" "ads (entries V) \<inter> ads (before fs) = {}" "ads (entries V) \<inter> ads (after fs) = {}"
      "distinct (map fst (entries V))" "distinct (map fst (before fs @ after fs))"
    using H'(1,2) by (auto simp: entries_plug)
  have t: "tree_at ?m (Some u) V" using H(2) d by (simp add: redirect_tree)
  have rp: "wp (replace_child (Some u) (at V)) (\<lambda>_ s'. s' = s\<lparr>vmem := ?m, root := top (at V) fs\<rparr>) s"
    using replace_child_run [OF H(3) H(1) _ d(1)] H(4) by simp
  have run: "wp (transplant (Some u) (at V)) (\<lambda>_ s'. s' = ?s') s"
    unfolding transplant_def wp_seqP
  proof (rule wp_mono [OF rp])
    fix s' assume s': "s' = s\<lparr>vmem := ?m, root := top (at V) fs\<rparr>"
    have "vmem s' u = vmem s u" using redirect_other [OF d(1)] s' by simp
    then show "wp (whenP (at V \<noteq> NULL) (bindP (fld parent (Some u)) (\<lambda>p. node_put (at V) (\<lambda>n. n\<lparr>parent := p\<rparr>)))) (\<lambda>_ s'. s' = ?s') s'"
      using adopt_run [of s' "Some u" V "at V \<noteq> NULL" "up fs"] t s' H(1)
      by (cases V) (auto simp: wp_simps)
  qed
  have o: "vmem ?s' u = vmem s u" using d by (simp add: adopt_other redirect_other)
  have "tree_at (vmem (without u ?s')) (up fs) V" "ctx_at (vmem (without u ?s')) (at V) fs"
    using adopt_tree [OF t d(5)] redirect_ctx [OF H(3) d(6)] d by (simp_all add: without_def adopt_ctx)
  moreover have "dom (adopt (up fs) V ?m) = dom (vmem s)"
    using adopt_dom [OF t] redirect_dom [OF H(3)] by simp
  ultimately have "holds_tree (without u ?s') (plug V fs)"
    using H' by (simp add: holds_tree_def tree_at_plug at_plug without_def)
  then show ?thesis using o by (intro wp_mono [OF run]) (auto simp: framed_def)
qed

text \<open>
  What is left to do when the successor \<open>y\<close> has been taken out: \<open>z\<close> is over \<open>L\<close>, and \<open>y\<close> over the rest \<open>R\<close> of the right
  subtree.
\<close>

definition detached :: "'a rb_state_scheme \<Rightarrow> tree \<Rightarrow> addr \<Rightarrow> Color \<Rightarrow> int \<Rightarrow> addr \<Rightarrow> Color \<Rightarrow> int \<Rightarrow> tree \<Rightarrow> frame list \<Rightarrow> bool" where
  "detached s L z c k y cy ky R fs \<longleftrightarrow>
     (\<exists>r. vmem s z = Some \<lparr>key = k, color = c, left = at L, right = r, parent = up fs\<rparr>) \<and>
     (\<exists>p. vmem s y = Some \<lparr>key = ky, color = cy, left = NULL, right = at R, parent = p\<rparr>) \<and>
     tree_at (vmem s) (Some z) L \<and> tree_at (vmem s) (Some y) R \<and> ctx_at (vmem s) (Some z) fs \<and>
     root s = top (Some z) fs \<and> L \<noteq> Leaf \<and>
     distinct (map fst (before fs @ entries L @ (z, k) # (y, ky) # entries R @ after fs)) \<and>
     dom (vmem s) = ads (before fs @ entries L @ (z, k) # (y, ky) # entries R @ after fs) \<and>
     (\<forall>a \<in> dom (vmem s). a < vbrk s)"

lemma root_last: "s\<lparr>root := r, vmem := m\<rparr> = s\<lparr>vmem := m, root := r\<rparr>"
  by simp

lemma seq_step: "wp m (\<lambda>_ s'. s' = t) s \<Longrightarrow> wp k Q t \<Longrightarrow> wp (seqP m k) Q s"
  unfolding wp_seqP by (erule wp_mono) simp

lemma take_place_spec:
  assumes d: "detached s L z c k y cy ky R fs"
  shows "wp (take_place (Some z) (Some y)) (\<lambda>_ s'. framed s s' \<and> vmem s' z \<noteq> None \<and>
    holds_tree (without z s') (plug (Br L y c ky R) fs)) s"
proof -
  obtain r p where n: "vmem s z = Some \<lparr>key = k, color = c, left = at L, right = r, parent = up fs\<rparr>"
      "vmem s y = Some \<lparr>key = ky, color = cy, left = NULL, right = at R, parent = p\<rparr>"
    using d by (auto simp: detached_def)
  have tr: "tree_at (vmem s) (Some z) L" "tree_at (vmem s) (Some y) R" "ctx_at (vmem s) (Some z) fs"
      "root s = top (Some z) fs" "L \<noteq> Leaf"
    and dis: "distinct (map fst (before fs @ entries L @ (z, k) # (y, ky) # entries R @ after fs))"
    and dm: "dom (vmem s) = ads (before fs @ entries L @ (z, k) # (y, ky) # entries R @ after fs)"
    and brk: "\<forall>a \<in> dom (vmem s). a < vbrk s"
    using d by (auto simp: detached_def)
  have o: "z \<noteq> y" "outside z fs" "outside y fs" "z \<notin> ads (entries L)" "y \<notin> ads (entries L)" "z \<notin> ads (entries R)" "y \<notin> ads (entries R)"
      "distinct (map fst (entries L))" "distinct (map fst (entries R))" "distinct (map fst (before fs @ after fs))"
    using dis by auto
  have dj: "ads (entries L) \<inter> ads (before fs) = {}" "ads (entries L) \<inter> ads (after fs) = {}"
      "ads (entries R) \<inter> ads (before fs) = {}" "ads (entries R) \<inter> ads (after fs) = {}"
      "ads (entries R) \<inter> ads (entries L) = {}"
    using dis by auto
  define m1 where "m1 = redirect (Some y) fs (vmem s)"
  define m2 where "m2 = m1(y := Some \<lparr>key = ky, color = cy, left = at L, right = at R, parent = up fs\<rparr>)"
  define m3 where "m3 = adopt (Some y) L m2"
  define m4 where "m4 = m3(y := Some \<lparr>key = ky, color = c, left = at L, right = at R, parent = up fs\<rparr>)"
  have r1: "m1 z = vmem s z" "m1 y = vmem s y" using o by (simp_all add: m1_def redirect_other)
  have l2: "tree_at m2 (Some z) L" using tr(1) o dj by (simp add: m2_def m1_def redirect_tree)
  have r3: "m3 z = vmem s z" "m3 y = Some \<lparr>key = ky, color = cy, left = at L, right = at R, parent = up fs\<rparr>"
    using o r1 by (simp_all add: m3_def adopt_other) (simp_all add: m2_def r1 o)
  obtain l where l: "at L = Some l" using tr(5) by (cases L) auto
  have rp: "wp (replace_child (Some z) (Some y)) (\<lambda>_ s'. s' = s\<lparr>vmem := m1, root := top (Some y) fs\<rparr>) s"
    using replace_child_run [OF tr(3) n(1) _ o(2) tr(4), of "Some y"] by (simp add: m1_def)
  have ad: "wp (node_put (Some l) (\<lambda>n. n\<lparr>parent := Some y\<rparr>)) (\<lambda>_ s'. s' = s\<lparr>vmem := m3, root := top (Some y) fs\<rparr>) (s\<lparr>vmem := m2, root := top (Some y) fs\<rparr>)"
    using adopt_run [of "s\<lparr>vmem := m2, root := top (Some y) fs\<rparr>" "Some z" L True "Some y"] l2 l tr(5) by (simp add: m3_def whenP_def ifP_def root_last)
  have fin: "wp (bindP (fld color (Some z)) (\<lambda>c. set_color c (Some y))) (\<lambda>_ s'. s' = s\<lparr>vmem := m4, root := top (Some y) fs\<rparr>) (s\<lparr>vmem := m3, root := top (Some y) fs\<rparr>)"
    using r3 n(1) by (simp add: wp_simps m4_def)
  let ?r = "top (Some y) fs"
  have st1: "wp (transplant (Some z) (Some y)) (\<lambda>_ s'. s' = s\<lparr>vmem := m1(y := Some \<lparr>key = ky, color = cy, left = NULL, right = at R, parent = up fs\<rparr>), root := ?r\<rparr>) s"
    unfolding transplant_def by (rule seq_step [OF rp]) (use r1 n in \<open>simp add: wp_simps root_last\<close>)
  have st2: "wp (bindP (fld left (Some z)) (\<lambda>l. node_put (Some y) (\<lambda>n. n\<lparr>left := l\<rparr>))) (\<lambda>_ s'. s' = s\<lparr>vmem := m2, root := ?r\<rparr>)
      (s\<lparr>vmem := m1(y := Some \<lparr>key = ky, color = cy, left = NULL, right = at R, parent = up fs\<rparr>), root := ?r\<rparr>)"
    using r1 n o(1) by (simp add: wp_simps m2_def root_last)
  have st3: "wp (bindP (fld left (Some y)) (\<lambda>l. node_put l (\<lambda>n. n\<lparr>parent := Some y\<rparr>))) (\<lambda>_ s'. s' = s\<lparr>vmem := m3, root := ?r\<rparr>)
      (s\<lparr>vmem := m2, root := ?r\<rparr>)"
    using ad l unfolding wp_bindP wp_fld by (simp add: m2_def)
  have run: "wp (take_place (Some z) (Some y)) (\<lambda>_ s'. s' = s\<lparr>vmem := m4, root := ?r\<rparr>) s"
    unfolding take_place_def by (rule seq_step [OF st1], rule seq_step [OF st2], rule seq_step [OF st3], rule fin)
  have c1: "ctx_at m1 (Some y) fs" unfolding m1_def by (rule redirect_ctx [OF tr(3) o(10)])
  have "ctx_at (m4(z := None)) (Some y) fs" using c1 o dj by (simp add: m4_def m3_def m2_def adopt_ctx)
  moreover have "tree_at (m4(z := None)) (Some y) L" using adopt_tree [OF l2 o(8)] o by (simp add: m4_def m3_def)
  moreover have "tree_at (m4(z := None)) (Some y) R" using tr(2) o dj by (simp add: m4_def m3_def m2_def m1_def adopt_tree_other redirect_tree)
  moreover have "dom m4 = dom (vmem s)"
  proof -
    have "dom m1 = dom (vmem s)" by (simp add: m1_def redirect_dom [OF tr(3)])
    moreover have "dom m2 = dom m1" using r1 n by (auto simp: m2_def)
    moreover have "dom m3 = dom m2" by (simp add: m3_def adopt_dom [OF l2])
    moreover have "dom m4 = dom m3" using r3 by (auto simp: m4_def)
    ultimately show ?thesis by simp
  qed
  ultimately have "holds_tree (without z (s\<lparr>vmem := m4, root := top (Some y) fs\<rparr>)) (plug (Br L y c ky R) fs)"
    using dis dm brk o(1) by (simp add: holds_tree_def tree_at_plug at_plug entries_plug without_def m4_def)
  moreover have "m4 z \<noteq> None" using r3 n o(1) by (simp add: m4_def)
  ultimately show ?thesis by (intro wp_mono [OF run]) (auto simp: framed_def)
qed

lemma plug_append: "plug t (fs @ gs) = plug (plug t fs) gs"
  by (induction t fs rule: plug.induct) auto

lemma before_append: "before (fs @ gs) = before gs @ before fs"
  by (induction fs rule: before.induct) auto

lemma leftmost_append: "leftmost t fs = (fst (leftmost t []), snd (leftmost t []) @ fs)"
proof (induction t arbitrary: fs)
  case (Br l a c k r)
  show ?case using Br.IH(1) [of "AboveL a c k r # fs"] Br.IH(1) [of "[AboveL a c k r]"] by simp
qed simp

lemma leftmost_spec:
  "leftmost t [] = (u, ys) \<Longrightarrow> t \<noteq> Leaf \<Longrightarrow> plug u ys = t \<and> before ys = [] \<and> (\<exists>y c k Y. u = Br Leaf y c k Y)"
proof (induction t arbitrary: u ys)
  case (Br l a c k r)
  show ?case
  proof (cases "l = Leaf")
    case False
    obtain v vs where v: "leftmost l [] = (v, vs)" by fastforce
    then show ?thesis
      using Br.prems(1) False v Br.IH(1) [OF v False] leftmost_append [of l "[AboveL a c k r]"]
      by (auto simp: plug_append before_append)
  qed (use Br.prems in auto)
qed simp

text \<open>The successor is the right child of \<open>z\<close>: its own child must not be NULL.\<close>

lemma detach_child:
  assumes h: "holds_tree s (plug (Br L z c k (Br Leaf y cy ky Y)) fs)" and L: "L \<noteq> Leaf" and Y: "Y \<noteq> Leaf"
  shows "wp (detach (Some z) (Some y) (at Y)) (\<lambda>_ s'. framed s s' \<and> detached s' L z c k y cy ky Y fs) s"
proof -
  obtain l x cx kx r where Yx: "Y = Br l x cx kx r" using Y by (cases Y) auto
  have rd: "vmem s y = Some \<lparr>key = ky, color = cy, left = NULL, right = Some x, parent = Some z\<rparr>"
    "vmem s x = Some \<lparr>key = kx, color = cx, left = at l, right = at r, parent = Some y\<rparr>"
    using h Yx by (simp_all add: holds_tree_def tree_at_plug)
  have "detached s L z c k y cy ky Y fs"
    using h L by (simp add: holds_tree_def detached_def tree_at_plug at_plug entries_plug ball_Un)
  moreover have "(vmem s)(x := Some \<lparr>key = kx, color = cx, left = at l, right = at r, parent = Some y\<rparr>) = vmem s"
    using rd(2) by (simp add: fun_upd_idem)
  ultimately show ?thesis using rd Yx by (simp add: detach_def wp_simps)
qed

lemma detach_child_null:
  assumes h: "holds_tree s (plug (Br L z c k (Br Leaf y cy ky Leaf)) fs)"
  shows "detach (Some z) (Some y) NULL s = Some (Fault NullDeref, s)"
  using h by (simp add: holds_tree_def tree_at_plug detach_def fld_def node_put_def node_get_def run_simps)

lemma up_append: "fs \<noteq> [] \<Longrightarrow> up (fs @ gs) = up fs"
  by (cases fs rule: up.cases) auto

lemma up_in: "fs \<noteq> [] \<Longrightarrow> \<exists>a. up fs = Some a \<and> a \<in> ads (before fs @ after fs)"
  by (cases fs rule: up.cases) auto

text \<open>The successor is deeper: it is replaced by its right child, and gets the whole right subtree.\<close>

lemma detach_deeper:
  assumes h: "holds_tree s (plug (Br L z c k (plug (Br Leaf y cy ky Y) ys)) fs)" and L: "L \<noteq> Leaf" and ys: "ys \<noteq> []"
  shows "wp (detach (Some z) (Some y) x) (\<lambda>_ s'. framed s s' \<and> detached s' L z c k y cy ky (plug Y ys) fs) s"
proof -
  let ?all = "ys @ AboveR L z c k # fs"
  let ?R = "plug Y ys"
  have h': "holds_tree s (plug (Br Leaf y cy ky Y) ?all)" using h by (simp add: plug_append)
  have rd: "vmem s y = Some \<lparr>key = ky, color = cy, left = NULL, right = at Y, parent = up ys\<rparr>"
    using holds_read [OF h' refl] up_append [OF ys] by simp
  have "z \<notin> ads (before ys @ after ys)" using h by (auto simp: holds_tree_def entries_plug)
  then have pz: "up ys \<noteq> Some z" using up_in [OF ys] by (metis option.inject set_append map_append)
  have tp: "wp (transplant (Some y) (at Y)) (\<lambda>_ s'. framed s s' \<and> vmem s' y = vmem s y \<and> holds_tree (without y s') (plug Y ?all)) s"
    by (rule transplant_spec [OF h']) simp
  have "wp (seqP (bindP (fld right (Some z)) (\<lambda>r. node_put (Some y) (\<lambda>n. n\<lparr>right := r\<rparr>)))
        (bindP (fld right (Some y)) (\<lambda>r. node_put r (\<lambda>n. n\<lparr>parent := Some y\<rparr>))))
      (\<lambda>_ s'. framed s s' \<and> detached s' L z c k y cy ky ?R fs) s1"
    if s1: "framed s s1" "vmem s1 y = vmem s y" "holds_tree (without y s1) (plug Y ?all)" for s1
  proof -
    let ?m0 = "(vmem s1)(y := None)"
    have H: "holds_tree (without y s1) (plug (Br L z c k ?R) fs)" using s1(3) by (simp add: plug_append)
    have w: "?m0 z = Some \<lparr>key = k, color = c, left = at L, right = at ?R, parent = up fs\<rparr>"
        "tree_at ?m0 (Some z) L" "tree_at ?m0 (Some z) ?R" "ctx_at ?m0 (Some z) fs" "root s1 = top (Some z) fs"
      using H by (simp_all add: holds_tree_def tree_at_plug at_plug without_def)
    have out: "y \<notin> ads (entries (plug (Br L z c k ?R) fs))"
      using H by (auto simp: holds_tree_def without_def)
    then have o: "z \<noteq> y" "y \<notin> ads (entries L)" "y \<notin> ads (entries ?R)" "outside y fs" by (simp_all add: entries_plug)
    have dis: "distinct (map fst (entries (plug (Br L z c k ?R) fs)))" using H by (simp add: holds_tree_def)
    then have dj: "ads (entries ?R) \<inter> ads (entries L) = {}" "ads (entries ?R) \<inter> ads (before fs) = {}" "ads (entries ?R) \<inter> ads (after fs) = {}"
        "z \<notin> ads (entries ?R)" "distinct (map fst (entries ?R))"
      by (simp_all only: entries_plug entries.simps) auto
    obtain a where a: "at ?R = Some a" using ys by (cases "?R") (auto simp: plug_Br)
    let ?n = "\<lparr>key = ky, color = cy, left = NULL, right = at ?R, parent = up ys\<rparr>"
    let ?m1 = "(vmem s1)(y := Some ?n)"
    let ?m2 = "adopt (Some y) ?R ?m1"
    have tr: "tree_at (vmem s1) (Some z) L" "tree_at (vmem s1) (Some z) ?R" "ctx_at (vmem s1) (Some z) fs"
      using w(2-4) o by simp_all
    have t1: "tree_at ?m1 (Some z) ?R" using tr(2) o by simp
    have rz: "vmem s1 z = Some \<lparr>key = k, color = c, left = at L, right = at ?R, parent = up fs\<rparr>" using w(1) o(1) by simp
    have np: "wp (node_put (at ?R) (\<lambda>n. n\<lparr>parent := Some y\<rparr>)) (\<lambda>_ s'. s' = s1\<lparr>vmem := ?m2\<rparr>) (s1\<lparr>vmem := ?m1\<rparr>)"
      using adopt_run [of "s1\<lparr>vmem := ?m1\<rparr>" "Some z" ?R True "Some y"] t1 a by (simp add: whenP_def ifP_def)
    have run: "wp (seqP (bindP (fld right (Some z)) (\<lambda>r. node_put (Some y) (\<lambda>n. n\<lparr>right := r\<rparr>)))
        (bindP (fld right (Some y)) (\<lambda>r. node_put r (\<lambda>n. n\<lparr>parent := Some y\<rparr>)))) (\<lambda>_ s'. s' = s1\<lparr>vmem := ?m2\<rparr>) s1"
    proof (rule seq_step)
      show "wp (bindP (fld right (Some z)) (\<lambda>r. node_put (Some y) (\<lambda>n. n\<lparr>right := r\<rparr>))) (\<lambda>_ s'. s' = s1\<lparr>vmem := ?m1\<rparr>) s1"
        using rd s1(2) rz by (simp add: wp_simps)
      show "wp (bindP (fld right (Some y)) (\<lambda>r. node_put r (\<lambda>n. n\<lparr>parent := Some y\<rparr>))) (\<lambda>_ s'. s' = s1\<lparr>vmem := ?m2\<rparr>) (s1\<lparr>vmem := ?m1\<rparr>)"
        using np by (simp add: wp_bindP wp_fld)
    qed
    have dm: "dom ?m2 = insert y (ads (entries (plug (Br L z c k ?R) fs)))"
      using H adopt_dom [OF t1, of "Some y"] out by (auto simp: holds_tree_def without_def)
    have brk: "y < vbrk s1" "\<forall>a \<in> ads (entries (plug (Br L z c k ?R) fs)). a < vbrk s1"
      using h H s1(1) by (auto simp: holds_tree_def without_def framed_def entries_plug)
    have "detached (s1\<lparr>vmem := ?m2\<rparr>) L z c k y cy ky ?R fs"
      unfolding detached_def
    proof (intro conjI)
      show "\<exists>r. vmem (s1\<lparr>vmem := ?m2\<rparr>) z = Some \<lparr>key = k, color = c, left = at L, right = r, parent = up fs\<rparr>"
        using w(1) o dj by (simp add: adopt_other)
      show "\<exists>p. vmem (s1\<lparr>vmem := ?m2\<rparr>) y = Some \<lparr>key = ky, color = cy, left = NULL, right = at ?R, parent = p\<rparr>"
        using o by (simp add: adopt_other)
      show "tree_at (vmem (s1\<lparr>vmem := ?m2\<rparr>)) (Some z) L" "ctx_at (vmem (s1\<lparr>vmem := ?m2\<rparr>)) (Some z) fs"
        using tr o dj by (simp_all add: adopt_tree_other adopt_ctx Int_commute)
      show "tree_at (vmem (s1\<lparr>vmem := ?m2\<rparr>)) (Some y) ?R" using adopt_tree [OF t1 dj(5)] by simp
      show "distinct (map fst (before fs @ entries L @ (z, k) # (y, ky) # entries ?R @ after fs))"
        using dis out by (simp add: entries_plug)
      show "dom (vmem (s1\<lparr>vmem := ?m2\<rparr>)) = ads (before fs @ entries L @ (z, k) # (y, ky) # entries ?R @ after fs)"
        using dm by (simp add: entries_plug) blast
      show "\<forall>a \<in> dom (vmem (s1\<lparr>vmem := ?m2\<rparr>)). a < vbrk (s1\<lparr>vmem := ?m2\<rparr>)" using dm brk by simp
    qed (use w(5) L in simp_all)
    then show ?thesis using s1(1) by (intro wp_mono [OF run]) (auto simp: framed_def)
  qed
  then have "wp (transplant (Some y) (at Y)) (\<lambda>_. wp (seqP (bindP (fld right (Some z)) (\<lambda>r. node_put (Some y) (\<lambda>n. n\<lparr>right := r\<rparr>)))
        (bindP (fld right (Some y)) (\<lambda>r. node_put r (\<lambda>n. n\<lparr>parent := Some y\<rparr>))))
      (\<lambda>_ s'. framed s s' \<and> detached s' L z c k y cy ky ?R fs)) s"
    by (intro wp_mono [OF tp]) blast
  then show ?thesis using rd pz by (simp add: detach_def wp_bindP wp_fld wp_seqP wp_if)
qed

section \<open>Deletion\<close>

text \<open>What the place that is emptied holds then, its context, and the colour of the node that went away.\<close>

definition spliced :: "tree \<Rightarrow> Color \<Rightarrow> tree \<Rightarrow> frame list \<Rightarrow> tree \<times> frame list \<times> Color" where
  "spliced L c R fs = (if L = Leaf then (R, fs, c) else if R = Leaf then (L, fs, c)
     else case leftmost R [] of
         (Leaf, ys) \<Rightarrow> (Leaf, fs, c)
       | (Br l y cy ky Y, ys) \<Rightarrow> (Y, ys @ AboveR L y c ky # fs, cy))"

text \<open>Both children, and the right one is without children: \<open>x->parent = y\<close> writes through NULL.\<close>

fun no_children :: "tree \<Rightarrow> bool" where
  "no_children (Br Leaf a c k Leaf) = True"
| "no_children t = False"

definition removable :: "int \<Rightarrow> tree \<Rightarrow> bool" where
  "removable k t = (case locate k t [] of
       (Leaf, fs) \<Rightarrow> True
     | (Br L z c k' R, fs) \<Rightarrow> \<not> (L \<noteq> Leaf \<and> no_children R) \<and>
         (case spliced L c R fs of (V, hs, d) \<Rightarrow> d = RED \<or> V \<noteq> Leaf \<or> hs = []))"

lemma unlink_spec:
  assumes h: "holds_tree s (plug (Br L z c k R) fs)" and V: "spliced L c R fs = (V, hs, d)"
    and ok: "\<not> (L \<noteq> Leaf \<and> no_children R)"
  shows "wp (unlink (Some z)) (\<lambda>r s'. r = (at V, d) \<and> framed s s' \<and> vmem s' z \<noteq> None \<and> holds_tree (without z s') (plug V hs)) s"
proof -
  have rz: "vmem s z = Some \<lparr>key = k, color = c, left = at L, right = at R, parent = up fs\<rparr>"
    using holds_read [OF h refl] .
  show ?thesis
  proof (cases "L = Leaf \<or> R = Leaf")
    case True
    then have v: "L = Leaf \<and> V = R \<or> R = Leaf \<and> V = L" "hs = fs" "d = c"
      using V by (auto simp: spliced_def split: if_splits)
    have "wp (transplant (Some z) (at V)) (\<lambda>_ s'. framed s s' \<and> vmem s' z \<noteq> None \<and> holds_tree (without z s') (plug V hs)) s"
      by (rule wp_mono [OF transplant_spec [OF h v(1)]]) (use rz v in auto)
    moreover have "at L = NULL \<and> at V = at R \<or> at L \<noteq> NULL \<and> at R = NULL \<and> at V = at L" using v by auto
    ultimately show ?thesis using rz v(3)
      by (elim disjE; simp add: unlink_def wp_bindP wp_seqP wp_fld wp_ret wp_ret_eta wp_if)
  next
    case False
    then have ne: "L \<noteq> Leaf" "R \<noteq> Leaf" by auto
    obtain u ys where lm: "leftmost R [] = (u, ys)" by fastforce
    then obtain y cy ky Y where u: "u = Br Leaf y cy ky Y" and R: "plug u ys = R"
      using leftmost_spec [OF lm ne(2)] by blast
    have v: "V = Y" "hs = ys @ AboveR L y c ky # fs" "d = cy"
      using V ne lm u by (auto simp: spliced_def)
    have ry: "vmem s y = Some \<lparr>key = ky, color = cy, left = NULL, right = at Y, parent = up (ys @ AboveR L z c k # fs)\<rparr>"
      using holds_read [OF h, of Leaf y cy ky Y "ys @ AboveR L z c k # fs"] R u by (simp add: plug_append)
    have "tree_at (vmem s) (up (AboveR L z c k # fs)) R" using h by (simp add: holds_tree_def tree_at_plug)
    from getMinimumNode_run [OF this ne(2)]
    have min: "wp (getMinimumNode (at R)) (\<lambda>r s'. s' = s \<and> r = Some y) s"
      by (simp add: leftmost_append [of R "AboveR L z c k # fs"] lm u)
    let ?Q = "\<lambda>r s'. r = (at V, d) \<and> framed s s' \<and> vmem s' z \<noteq> None \<and> holds_tree (without z s') (plug V hs)"
    have det: "wp (detach (Some z) (Some y) (at Y)) (\<lambda>_ s'. framed s s' \<and> detached s' L z c k y cy ky (plug Y ys) fs) s"
    proof (cases "ys = []")
      case True
      then have "Y \<noteq> Leaf" using ok ne R u by auto
      then show ?thesis using detach_child [of s L z c k y cy ky Y fs] h ne R u True by simp
    next
      case False
      then show ?thesis using detach_deeper [of s L z c k y cy ky Y ys fs] h ne R u by simp
    qed
    have "wp (seqP (detach (Some z) (Some y) (at Y)) (seqP (take_place (Some z) (Some y)) (ret (at Y, cy)))) ?Q s"
      unfolding wp_seqP
    proof (rule wp_mono [OF det], elim conjE)
      fix s1 assume s1: "framed s s1" "detached s1 L z c k y cy ky (plug Y ys) fs"
      show "wp (take_place (Some z) (Some y)) (\<lambda>_. wp (ret (at Y, cy)) ?Q) s1"
        by (rule wp_mono [OF take_place_spec [OF s1(2)]]) (use v framed_trans [OF s1(1)] in \<open>auto simp: wp_ret plug_append\<close>)
    qed
    then have "wp (bindP (fld color (Some y)) (\<lambda>c. bindP (fld right (Some y)) (\<lambda>x.
        seqP (detach (Some z) (Some y) x) (seqP (take_place (Some z) (Some y)) (ret (x, c)))))) ?Q s"
      using ry by (simp add: wp_bindP wp_fld)
    then have "wp (getMinimumNode (at R)) (\<lambda>y. wp (bindP (fld color y) (\<lambda>c. bindP (fld right y) (\<lambda>x.
        seqP (detach (Some z) y x) (seqP (take_place (Some z) y) (ret (x, c)))))) ?Q) s"
      by (intro wp_mono [OF min]) simp
    then show ?thesis using rz ne by (simp add: unlink_def wp_bindP [of "fld _ _"] wp_bindP [of "bindP _ _"] wp_fld wp_if)
  qed
qed

lemma unlink_null:
  assumes h: "holds_tree s (plug (Br L z c k R) fs)" and bad: "L \<noteq> Leaf" "no_children R"
  shows "unlink (Some z) s = Some (Fault NullDeref, s)"
proof -
  obtain y cy ky where R: "R = Br Leaf y cy ky Leaf" using bad(2) by (cases R rule: no_children.cases) auto
  have rd: "vmem s z = Some \<lparr>key = k, color = c, left = at L, right = Some y, parent = up fs\<rparr>"
      "vmem s y = Some \<lparr>key = ky, color = cy, left = NULL, right = NULL, parent = Some z\<rparr>"
    using h R by (simp_all add: holds_tree_def tree_at_plug)
  have "getMinimumNode (Some y) s = Some (Ret (Some y), s)"
    using rd(2) by (subst getMinimumNode.simps) (simp add: run_simps fld_def node_get_def)
  then show ?thesis
    using rd detach_child_null [OF h [unfolded R]] bad(1) by (simp add: unlink_def run_simps fld_def node_get_def)
qed

text \<open>In a red-black tree the emptied place holds nothing or a red leaf, below which nothing has to be repaired.\<close>

lemma ctx_other_node:
  "ctx_invc d (ys @ AboveR L z c k # fs) = ctx_invc d (ys @ AboveR L y c ky # fs)"
  "ctx_invh n (ys @ AboveR L z c k # fs) = ctx_invh n (ys @ AboveR L y c ky # fs)"
  "root_color d (ys @ AboveR L z c k # fs) = root_color d (ys @ AboveR L y c ky # fs)"
  by (induction ys arbitrary: d n rule: before.induct) auto

lemma black_leaf: "tcolor t = BLACK \<Longrightarrow> bheight t = 0 \<Longrightarrow> t = Leaf"
  by (cases t) auto

lemma only_child: "invc t \<Longrightarrow> invh t \<Longrightarrow> bheight t = 0 \<Longrightarrow> t = Leaf \<or> (\<exists>a k. t = Br Leaf a RED k Leaf)"
proof (cases t)
  case (Br l a c k r)
  assume i: "invc t" "invh t" "bheight t = 0"
  then have "c = RED" "tcolor l = BLACK" "tcolor r = BLACK" "bheight l = 0" "bheight r = 0"
    using Br by (auto simp: color_cases split: if_splits)
  then have "l = Leaf" "r = Leaf" by (auto intro: black_leaf)
  then show ?thesis using Br \<open>c = RED\<close> by simp
qed simp

lemma rb_spliced:
  assumes rb: "rb_ok (plug (Br L z c k R) fs)" and V: "spliced L c R fs = (V, hs, d)"
  shows "ctx_invc BLACK hs" and "ctx_invh (if d = BLACK then 1 else 0) hs" and "hs \<noteq> [] \<Longrightarrow> root_color BLACK hs = BLACK"
    and "V = Leaf \<or> (\<exists>a k. V = Br Leaf a RED k Leaf)" and "d = RED \<Longrightarrow> V = Leaf"
proof -
  obtain y ky A B X where w: "plug (Br L z c k R) fs = plug (Br A y d ky B) X" "A = Leaf \<and> V = B \<or> B = Leaf \<and> V = A"
    and X: "\<And>e. ctx_invc e X = ctx_invc e hs" "\<And>n. ctx_invh n X = ctx_invh n hs" "\<And>e. root_color e X = root_color e hs"
  proof (cases "L = Leaf \<or> R = Leaf")
    case True
    then have "L = Leaf \<and> V = R \<or> R = Leaf \<and> V = L" "hs = fs" "d = c" using V by (auto simp: spliced_def split: if_splits)
    then show thesis using that [of L z k R fs] by simp
  next
    case False
    obtain u ys where lm: "leftmost R [] = (u, ys)" by fastforce
    then obtain y cy ky Y where u: "u = Br Leaf y cy ky Y" and R: "plug u ys = R"
      using leftmost_spec [OF lm] False by blast
    have v: "V = Y" "hs = ys @ AboveR L y c ky # fs" "d = cy"
      using V False lm u by (auto simp: spliced_def)
    show thesis
      by (rule that [of Leaf y ky Y "ys @ AboveR L z c k # fs"])
        (use R u v in \<open>auto simp: plug_append ctx_other_node [of _ ys L z c k fs y ky]\<close>)
  qed
  have i: "invc (Br A y d ky B)" "ctx_invc d hs" "invh (Br A y d ky B)" "ctx_invh (bheight (Br A y d ky B)) hs" "root_color d hs = BLACK"
    using rb unfolding w(1) rb_ok_def invc_plug invh_plug tcolor_plug X by simp_all
  have b: "bheight A = 0" "bheight B = 0" using i(3) w(2) by auto
  show "ctx_invc BLACK hs" using i(2) by (rule ctx_black)
  show "ctx_invh (if d = BLACK then 1 else 0) hs" using i(4) b by (simp split: if_splits)
  show "root_color BLACK hs = BLACK" if "hs \<noteq> []" using i(5) that by (cases hs rule: up.cases) auto
  show "V = Leaf \<or> (\<exists>a k. V = Br Leaf a RED k Leaf)" using i(1,3) b w(2) only_child by auto
  then show "V = Leaf" if "d = RED" using that i(1) w(2) by auto
qed

lemma spliced_entries:
  assumes "spliced L c R fs = (V, hs, d)" and "entries (plug (Br L z c k R) fs) = es"
  shows "\<exists>xs ys. es = xs @ (z, k) # ys \<and> entries (plug V hs) = xs @ ys"
proof (cases "L = Leaf \<or> R = Leaf")
  case True
  then have "L = Leaf \<and> V = R \<or> R = Leaf \<and> V = L" "hs = fs" using assms(1) by (auto simp: spliced_def split: if_splits)
  then show ?thesis using assms(2)
    by (intro exI [of _ "before fs @ entries L"] exI [of _ "entries R @ after fs"]) (auto simp: entries_plug)
next
  case False
  obtain u ys where lm: "leftmost R [] = (u, ys)" by fastforce
  then obtain y cy ky Y where u: "u = Br Leaf y cy ky Y" and R: "plug u ys = R" "before ys = []"
    using leftmost_spec [OF lm] False by blast
  have v: "V = Y" "hs = ys @ AboveR L y c ky # fs" using assms(1) False lm u by (auto simp: spliced_def)
  have "entries R = (y, ky) # entries (plug Y ys)" using R u by (auto simp: entries_plug)
  then show ?thesis using assms(2) v
    by (intro exI [of _ "before fs @ entries L"] exI [of _ "entries R @ after fs"]) (auto simp: entries_plug plug_append)
qed

lemma without_paint:
  assumes "holds_tree (without z s) T" and "vmem s z \<noteq> None" and "T = plug (Br l a c k r) hs"
  shows "holds_tree (without z (s\<lparr>vmem := (vmem s)(a := Some \<lparr>key = k, color = c', left = at l, right = at r, parent = up hs\<rparr>)\<rparr>)) (plug (Br l a c' k r) hs)"
    and "a \<noteq> z" and "vmem s a = Some \<lparr>key = k, color = c, left = at l, right = at r, parent = up hs\<rparr>"
proof -
  show "a \<noteq> z" using assms(1,3) by (auto simp: holds_tree_def entries_plug without_def)
  then show "vmem s a = Some \<lparr>key = k, color = c, left = at l, right = at r, parent = up hs\<rparr>"
    using holds_read [OF assms(1,3)] by (simp add: without_def)
  show "holds_tree (without z (s\<lparr>vmem := (vmem s)(a := Some \<lparr>key = k, color = c', left = at l, right = at r, parent = up hs\<rparr>)\<rparr>)) (plug (Br l a c' k r) hs)"
    using holds_paint [OF assms(1,3), of c'] \<open>a \<noteq> z\<close> by (simp add: without_def fun_upd_twist)
qed

text \<open>The end of \<open>deleteNode\<close>: the repair, if a black node went away, and the release of \<open>z\<close>.\<close>

lemma delete_end:
  assumes z: "vmem s z \<noteq> None" "holds_tree (without z s) (plug V hs)" and V: "V = Leaf \<or> (\<exists>a k. V = Br Leaf a RED k Leaf)" "d = RED \<Longrightarrow> V = Leaf"
    and ok: "d = RED \<or> V \<noteq> Leaf \<or> hs = []"
  shows "wp (seqP (whenP (d = BLACK) (fixDelete (at V))) (free_tree_node (Some z)))
    (\<lambda>_ s'. framed s s' \<and> holds_tree s' (plug (paint BLACK V) hs)) s"
proof (cases V)
  case Leaf
  have "whenP (d = BLACK) (fixDelete NULL) s = Some (Ret (), s)"
  proof (cases d)
    case BLACK
    then have "root s = NULL" using ok Leaf z(2) by (simp add: holds_tree_def without_def)
    then show ?thesis using BLACK fixDelete_empty by (simp add: run_simps)
  qed (simp add: run_simps)
  then have "wp (whenP (d = BLACK) (fixDelete NULL)) (\<lambda>_ s'. s' = s) s" by (simp add: wp_def)
  then have "wp (whenP (d = BLACK) (fixDelete (at V))) (\<lambda>_ s'. s' = s) s" by (simp add: Leaf)
  then show ?thesis
    by (rule seq_step) (use z Leaf in \<open>auto simp: wp_simps without_def framed_def\<close>)
next
  case (Br l a c k r)
  then have d: "d = BLACK" and c: "c = RED" using V by (cases d; auto)+
  have p: "plug V hs = plug (Br l a c k r) hs" using Br by simp
  note w = without_paint(1) [OF z(2,1) p, of BLACK] without_paint(2,3) [OF z(2,1) p]
  let ?n = "\<lparr>key = k, color = BLACK, left = at l, right = at r, parent = up hs\<rparr>"
  have "wp (fixDelete (Some a)) (\<lambda>_ s'. s' = s\<lparr>vmem := (vmem s)(a := Some ?n)\<rparr>) s"
    using fixDelete_red [OF w(3)] c by simp
  then have "wp (whenP (d = BLACK) (fixDelete (at V))) (\<lambda>_ s'. s' = s\<lparr>vmem := (vmem s)(a := Some ?n)\<rparr>) s"
    using d Br by (simp add: wp_simps)
  then show ?thesis
    by (rule seq_step) (use z w Br in \<open>auto simp: wp_simps without_def framed_def\<close>)
qed

lemma delete_located:
  assumes t: "rb_tree s t" and loc: "locate k t [] = (Br L z c k' R, fs)"
  shows "k' = k" and "t = plug (Br L z c k R) fs" and "searchNode (root s) k s = Some (Ret (Some z), s)"
proof -
  show k: "k' = k" using locate_key [OF loc] .
  show "t = plug (Br L z c k R) fs" using locate_plug [OF loc] k by simp
  have "tree_at (vmem s) (up []) t" "root s = at t" using t by (simp_all add: rb_tree_def holds_tree_def)
  from searchNode_run [OF this(1), of k] this(2) show "searchNode (root s) k s = Some (Ret (Some z), s)"
    by (auto simp: loc wp_iff)
qed

lemma deleteNode_removes:
  assumes t: "rb_tree s t" and k: "k \<in> set (keys t)" and ok: "removable k t"
  shows "wp (deleteNode k) (\<lambda>_ s'. framed s s' \<and> (\<exists>t' es a es'. rb_tree s' t' \<and>
    entries t = es @ (a, k) # es' \<and> entries t' = es @ es')) s"
proof -
  obtain u fs where loc: "locate k t [] = (u, fs)" by fastforce
  have so: "sorted (keys t)" using t by (simp add: rb_tree_def)
  obtain L z c R where u: "u = Br L z c k R"
    using loc locate_key locate_none [OF _ so] k by (cases u) auto
  note at_z = delete_located [OF t loc [unfolded u]]
  have h: "holds_tree s (plug (Br L z c k R) fs)" and rb: "rb_ok (plug (Br L z c k R) fs)"
    using t at_z(2) by (simp_all add: rb_tree_def)
  obtain V hs d where V: "spliced L c R fs = (V, hs, d)" by (metis prod_cases3)
  have ok': "\<not> (L \<noteq> Leaf \<and> no_children R)" "d = RED \<or> V \<noteq> Leaf \<or> hs = []"
    using ok loc u V by (auto simp: removable_def)
  note sp = rb_spliced [OF rb V]
  obtain xs ys where e: "entries t = xs @ (z, k) # ys" "entries (plug V hs) = xs @ ys"
    using spliced_entries [OF V refl] at_z(2) by blast
  have e': "entries (plug (paint BLACK V) hs) = xs @ ys" using e(2) by (simp add: entries_plug paint_ok)
  have rb': "rb_ok (plug (paint BLACK V) hs)"
    using sp ok'(2) by (cases d; cases "hs = []") (auto simp: rb_ok_def invc_plug invh_plug tcolor_plug)
  have so': "sorted (keys (plug (paint BLACK V) hs))" using so e' e(1) by (simp add: sorted_append)
  let ?Q = "\<lambda>s'. framed s s' \<and> (\<exists>t' es a es'. rb_tree s' t' \<and> entries t = es @ (a, k) # es' \<and> entries t' = es @ es')"
  have "wp (bindP (unlink (Some z)) (\<lambda>(x, c). seqP (whenP (c = BLACK) (fixDelete x)) (free_tree_node (Some z)))) (\<lambda>_. ?Q) s"
    unfolding wp_bindP
  proof (rule wp_mono [OF unlink_spec [OF h V ok'(1)]], elim conjE)
    fix r s1 assume r: "r = (at V, d)" "framed s s1" "vmem s1 z \<noteq> None" "holds_tree (without z s1) (plug V hs)"
    have done': "?Q s2" if "framed s1 s2 \<and> holds_tree s2 (plug (paint BLACK V) hs)" for s2
      using that rb' so' e(1) e' framed_trans [OF r(2)] unfolding rb_tree_def by blast
    have "wp (seqP (whenP (d = BLACK) (fixDelete (at V))) (free_tree_node (Some z))) (\<lambda>_. ?Q) s1"
      by (rule wp_mono [OF delete_end [OF r(3,4) sp(4,5) ok'(2)]]) (assumption, erule done')
    then show "wp (case r of (x, c) \<Rightarrow> seqP (whenP (c = BLACK) (fixDelete x)) (free_tree_node (Some z))) (\<lambda>_. ?Q) s1"
      using r(1) by simp
  qed
  then show ?thesis
    using at_z(3) by (simp add: deleteNode_def wp_def run_simps)
qed

lemma deleteNode_faults:
  assumes t: "rb_tree s t" and bad: "\<not> removable k t"
  shows "\<exists>s'. deleteNode k s = Some (Fault NullDeref, s')"
proof -
  obtain L z c k' R fs where loc: "locate k t [] = (Br L z c k' R, fs)"
    using bad by (cases "locate k t []"; cases "fst (locate k t [])") (auto simp: removable_def)
  note at_z = delete_located [OF t loc]
  have h: "holds_tree s (plug (Br L z c k R) fs)" and rb: "rb_ok (plug (Br L z c k R) fs)"
    using t at_z(2) by (simp_all add: rb_tree_def)
  obtain V hs d where V: "spliced L c R fs = (V, hs, d)" by (metis prod_cases3)
  have start: "deleteNode k s = bindP (unlink (Some z)) (\<lambda>(x, c). seqP (whenP (c = BLACK) (fixDelete x)) (free_tree_node (Some z))) s"
    using at_z(3) by (simp add: deleteNode_def run_simps)
  show ?thesis
  proof (cases "L \<noteq> Leaf \<and> no_children R")
    case True
    then show ?thesis using unlink_null [OF h] by (simp add: start bindP_run)
  next
    case False
    then have n: "d = BLACK" "V = Leaf" "hs \<noteq> []" using bad loc V by (cases d; simp add: removable_def)+
    show ?thesis
      unfolding start
    proof (rule run_bind [OF unlink_spec [OF h V False]], elim conjE)
      fix r s1 assume r: "r = (at V, d)" "holds_tree (without z s1) (plug V hs)"
      have "plug V hs \<noteq> Leaf" using n plug_Br by simp
      then have "root s1 \<noteq> NULL" using r(2) by (simp add: holds_tree_def without_def)
      from fixDelete_null [OF this]
      show "\<exists>s'. (case r of (x, c) \<Rightarrow> seqP (whenP (c = BLACK) (fixDelete x)) (free_tree_node (Some z))) s1 = Some (Fault NullDeref, s')"
        using n r(1) by (simp add: run_simps)
    qed
  qed
qed

text \<open>
  C16: \<open>deleteNode\<close> of \<open>test/rbtree.c\<close>, for every red-black search tree and key. A key that is not in the tree: nothing
  happens. A key that is, and whose removal leaves a red node, or a red child in a black node's place, or an empty
  tree: it returns with a red-black search tree of the same nodes without one that has the key, which is freed.
  In every other case - the node that leaves its place is black and has no child, or the node that replaces the
  removed one is its right child and has no child - NULL is dereferenced, so that the repairing loop of
  \<open>fixDelete\<close>, the only code for this case, never gets to work.
\<close>

theorem deleteNode_outcome:
  fixes s :: "'a rb_state_scheme"
  assumes "rb_tree s t"
  shows "(k \<notin> set (keys t) \<longrightarrow> deleteNode k s = Some (Ret (), s)) \<and>
    (k \<in> set (keys t) \<and> removable k t \<longrightarrow> wp (deleteNode k) (\<lambda>_ s'. framed s s' \<and> (\<exists>t' es a es'. rb_tree s' t' \<and>
      entries t = es @ (a, k) # es' \<and> entries t' = es @ es')) s) \<and>
    (\<not> removable k t \<longrightarrow> (\<exists>s'. deleteNode k s = Some (Fault NullDeref, s')))"
proof (intro conjI impI; (elim conjE)?)
  assume "k \<notin> set (keys t)"
  then show "deleteNode k s = Some (Ret (), s)" using searchNode_finds [OF assms, of k] by (auto simp: deleteNode_def run_simps)
next
  assume "k \<in> set (keys t)" "removable k t"
  then show "wp (deleteNode k) (\<lambda>_ s'. framed s s' \<and> (\<exists>t' es a es'. rb_tree s' t' \<and>
      entries t = es @ (a, k) # es' \<and> entries t' = es @ es')) s"
    by (rule deleteNode_removes [OF assms])
next
  assume "\<not> removable k t"
  then show "\<exists>s'. deleteNode k s = Some (Fault NullDeref, s')" by (rule deleteNode_faults [OF assms])
qed

definition three_nodes :: "unit rb_state_scheme" where
  "three_nodes = \<lparr>vmem = [0 \<mapsto> \<lparr>key = 2, color = BLACK, left = Some 1, right = Some 2, parent = NULL\<rparr>,
     1 \<mapsto> \<lparr>key = 1, color = RED, left = NULL, right = NULL, parent = Some 0\<rparr>,
     2 \<mapsto> \<lparr>key = 3, color = RED, left = NULL, right = NULL, parent = Some 0\<rparr>], vbrk = 3, root = Some 0, printed = []\<rparr>"

definition three_tree :: tree where
  "three_tree = Br (Br Leaf 1 RED 1 Leaf) 0 BLACK 2 (Br Leaf 2 RED 3 Leaf)"

lemma three_nodes_tree: "rb_tree three_nodes three_tree"
  by (auto simp: three_nodes_def three_tree_def rb_tree_def holds_tree_def rb_ok_def)

lemma deleteNode_outcome_witness:
  "rb_tree three_nodes three_tree \<and> deleteNode 9 three_nodes = Some (Ret (), three_nodes) \<and>
   (\<exists>s t. deleteNode 3 three_nodes = Some (Ret (), s) \<and> rb_tree s t \<and> keys t = [1, 2]) \<and>
   (\<exists>s. deleteNode 2 three_nodes = Some (Fault NullDeref, s))"
proof (intro conjI)
  show "rb_tree three_nodes three_tree" by (rule three_nodes_tree)
  show "deleteNode 9 three_nodes = Some (Ret (), three_nodes)"
    using deleteNode_outcome [OF three_nodes_tree, of 9] by (simp add: three_tree_def)
  show "\<exists>s. deleteNode 2 three_nodes = Some (Fault NullDeref, s)"
    using deleteNode_outcome [OF three_nodes_tree, of 2] by (simp add: three_tree_def removable_def)
  have "3 \<in> set (keys three_tree)" "removable 3 three_tree"
    by (simp_all add: three_tree_def removable_def spliced_def)
  then obtain s t es a es' where r: "deleteNode 3 three_nodes = Some (Ret (), s)" "rb_tree s t"
      "entries three_tree = es @ (a, 3) # es'" "entries t = es @ es'"
    using deleteNode_outcome [OF three_nodes_tree, of 3] by (auto simp: wp_iff)
  have "keys t = [1, 2]"
    using r(3,4) by (cases es; cases "tl es"; cases "tl (tl es)") (auto simp: three_tree_def)
  with r(1,2) show "\<exists>s t. deleteNode 3 three_nodes = Some (Ret (), s) \<and> rb_tree s t \<and> keys t = [1, 2]"
    by (intro exI conjI)
qed

end
