(* ===== verification/SemTest.thy ===== *)
theory SemTest
  imports Prelude
begin

text \<open>
  \<open>sem_test.c\<close>: several processes print a character twice, with a pause between, inside a section guarded
  by a System V semaphore; the one started with an argument sets the semaphore up and removes it at
  the end. The scheduler switches between the processes at every call of the system.
\<close>

section \<open>Semaphores\<close>

text \<open>
  \<open>sems\<close> maps the identifiers of the sets that exist to the value of their one semaphore, \<open>key\<close> is the
  set that the key 6666 names now.
\<close>

record semaphores =
  sems :: "nat \<Rightarrow> nat option"
  key :: "nat option"
  next_id :: nat

definition semget :: "semaphores \<Rightarrow> nat \<times> semaphores" where
  "semget k = (case key k of Some n \<Rightarrow> (n, k)
     | None \<Rightarrow> (next_id k, k\<lparr>sems := (sems k)(next_id k \<mapsto> 0), key := Some (next_id k), next_id := next_id k + 1\<rparr>))"

datatype semop_result = Blocks | Fails | Does semaphores

text \<open>
  \<open>semop\<close> with one operation: a decrement waits for a positive value, a set that does not exist (any
  more) is an error. \<open>SEM_UNDO\<close> has nothing to undo: a process ends outside its section, or because the set is gone.
\<close>

definition semop :: "nat \<Rightarrow> int \<Rightarrow> semaphores \<Rightarrow> semop_result" where
  "semop n d k = (case sems k n of None \<Rightarrow> Fails
     | Some v \<Rightarrow> if int v + d < 0 then Blocks else Does (k\<lparr>sems := (sems k)(n \<mapsto> nat (int v + d))\<rparr>))"

definition semaphore_p :: "nat \<Rightarrow> semaphores \<Rightarrow> semop_result" where
  "semaphore_p sem_id = semop sem_id (-1)"

definition semaphore_v :: "nat \<Rightarrow> semaphores \<Rightarrow> semop_result" where
  "semaphore_v sem_id = semop sem_id 1"

definition set_semvalue :: "nat \<Rightarrow> semaphores \<Rightarrow> semaphores option" where
  "set_semvalue sem_id k = (case sems k sem_id of None \<Rightarrow> None | Some _ \<Rightarrow> Some (k\<lparr>sems := (sems k)(sem_id \<mapsto> 1)\<rparr>))"

definition del_semvalue :: "nat \<Rightarrow> semaphores \<Rightarrow> semaphores" where
  "del_semvalue sem_id k = k\<lparr>sems := (sems k)(sem_id := None), key := (if key k = Some sem_id then None else key k)\<rparr>"

section \<open>Processes\<close>

text \<open>The next call of a process, in the order of \<open>main\<close>.\<close>

datatype sem_pc = At_semget | At_setval | At_test | At_p | At_first | At_second | At_v | At_finished | At_del | Ended int

text \<open>The locals of \<open>main\<close>; \<open>arg\<close> is \<open>argv[1]\<close>, if there is one.\<close>

record sem_proc =
  pc :: sem_pc
  arg :: "string option"
  message :: char
  loop_i :: nat
  sem_id :: nat

datatype sem_output = Message nat char | Finished nat

record sem_conf =
  sem_set :: semaphores
  procs :: "nat \<Rightarrow> sem_proc"
  printed_out :: "sem_output list"

definition argv_char :: "string \<Rightarrow> char" where
  "argv_char a = (case a of [] \<Rightarrow> CHR 0x00 | c # _ \<Rightarrow> c)"

definition new_proc :: "string option \<Rightarrow> sem_proc" where
  "new_proc a = \<lparr>pc = At_semget, arg = a, message = CHR ''X'', loop_i = 0, sem_id = 0\<rparr>"

text \<open>One call of process \<open>p\<close>; \<open>None\<close> when it waits or has ended.\<close>

definition sem_main :: "nat \<Rightarrow> sem_conf \<Rightarrow> sem_conf option" where
  "sem_main p c = (let q = procs c p; n = sem_id q; k = sem_set c;
       next = (\<lambda>k' q'. Some (c\<lparr>sem_set := k', procs := (procs c)(p := q')\<rparr>));
       print = (\<lambda>x l. Some (c\<lparr>procs := (procs c)(p := q\<lparr>pc := l\<rparr>), printed_out := printed_out c @ [x]\<rparr>))
     in case pc q of
       At_semget \<Rightarrow> (case semget k of (m, k') \<Rightarrow> next k' (q\<lparr>sem_id := m, pc := (if arg q = None then At_test else At_setval)\<rparr>))
     | At_setval \<Rightarrow> (case set_semvalue n k of None \<Rightarrow> next k (q\<lparr>pc := Ended 1\<rparr>)
         | Some k' \<Rightarrow> next k' (q\<lparr>message := argv_char (the (arg q)), pc := At_test\<rparr>))
     | At_test \<Rightarrow> next k (q\<lparr>pc := (if loop_i q < 10 then At_p else At_finished)\<rparr>)
     | At_p \<Rightarrow> (case semaphore_p n k of Blocks \<Rightarrow> None | Fails \<Rightarrow> next k (q\<lparr>pc := Ended 1\<rparr>) | Does k' \<Rightarrow> next k' (q\<lparr>pc := At_first\<rparr>))
     | At_first \<Rightarrow> print (Message p (message q)) At_second
     | At_second \<Rightarrow> print (Message p (message q)) At_v
     | At_v \<Rightarrow> (case semaphore_v n k of Blocks \<Rightarrow> None | Fails \<Rightarrow> next k (q\<lparr>pc := Ended 1\<rparr>)
         | Does k' \<Rightarrow> next k' (q\<lparr>loop_i := loop_i q + 1, pc := At_test\<rparr>))
     | At_finished \<Rightarrow> print (Finished p) (if arg q = None then Ended 0 else At_del)
     | At_del \<Rightarrow> next (del_semvalue n k) (q\<lparr>pc := Ended 0\<rparr>)
     | Ended _ \<Rightarrow> None)"

text \<open>The configurations reached when the processes start with the arguments \<open>args\<close>, and no set has the key yet.\<close>

inductive sem_reach :: "(nat \<Rightarrow> string option) \<Rightarrow> sem_conf \<Rightarrow> bool" for args :: "nat \<Rightarrow> string option" where
  sem_start: "sem_reach args \<lparr>sem_set = \<lparr>sems = (\<lambda>_. None), key = None, next_id = 0\<rparr>, procs = (\<lambda>p. new_proc (args p)), printed_out = []\<rparr>"
| sem_step: "sem_reach args c \<Longrightarrow> sem_main p c = Some c' \<Longrightarrow> sem_reach args c'"

section \<open>The invariant\<close>

definition in_section :: "sem_proc \<Rightarrow> bool" where
  "in_section q \<longleftrightarrow> pc q \<in> {At_first, At_second, At_v}"

text \<open>The one process with an argument has set the semaphore up.\<close>

definition set_up :: "sem_proc \<Rightarrow> bool" where
  "set_up q \<longleftrightarrow> pc q \<notin> {At_semget, At_setval}"

text \<open>Where the one unit of the semaphore is: nowhere (not set up yet, or lost with its set), in the set, or with a process.\<close>

datatype unit_at = Absent | Free | Held nat

definition sinv :: "nat \<Rightarrow> unit_at \<Rightarrow> sem_conf \<Rightarrow> bool" where
  "sinv s u c \<longleftrightarrow>
     (\<forall>n\<ge>next_id (sem_set c). sems (sem_set c) n = None) \<and>
     (\<forall>m. key (sem_set c) = Some m \<longrightarrow> m < next_id (sem_set c) \<and> sems (sem_set c) m \<noteq> None) \<and>
     (\<forall>n v. sems (sem_set c) n = Some (Suc v) \<longrightarrow> u = Free \<and> n = sem_id (procs c s)) \<and>
     (u = Free \<longrightarrow> sems (sem_set c) (sem_id (procs c s)) = Some 1) \<and>
     (\<forall>p. in_section (procs c p) \<longleftrightarrow> u = Held p) \<and>
     (\<forall>p. u = Held p \<longrightarrow> sem_id (procs c p) = sem_id (procs c s)) \<and>
     (u \<noteq> Absent \<longrightarrow> set_up (procs c s)) \<and>
     (pc (procs c s) \<noteq> At_semget \<longrightarrow> sem_id (procs c s) < next_id (sem_set c)) \<and>
     (set_up (procs c s) \<and> (\<forall>n. pc (procs c s) \<noteq> Ended n) \<longrightarrow> u \<noteq> Absent \<and> sems (sem_set c) (sem_id (procs c s)) \<noteq> None) \<and>
     (\<forall>p. arg (procs c p) \<noteq> None \<longleftrightarrow> p = s) \<and> (\<forall>p. pc (procs c p) \<in> {At_setval, At_del} \<longrightarrow> p = s)"

lemma sinv_start: "(\<forall>p. args p \<noteq> None \<longleftrightarrow> p = s) \<Longrightarrow>
  sinv s Absent \<lparr>sem_set = \<lparr>sems = (\<lambda>_. None), key = None, next_id = 0\<rparr>, procs = (\<lambda>p. new_proc (args p)), printed_out = []\<rparr>"
  by (simp add: sinv_def in_section_def set_up_def new_proc_def)

text \<open>A step of \<open>p\<close> that stays on its side of the lock and leaves the semaphores alone.\<close>

lemma sinv_move:
  assumes inv: "sinv s u c" and "sem_set c' = sem_set c" and "procs c' = (procs c)(p := q)"
    and "in_section q = in_section (procs c p)" and "set_up q = set_up (procs c p)" and "sem_id q = sem_id (procs c p)"
    and "arg q = arg (procs c p)" and "\<forall>n. pc (procs c p) \<noteq> Ended n" and "pc (procs c p) \<noteq> At_semget" and "pc q \<noteq> At_setval" and "pc q = At_del \<longrightarrow> p = s"
  shows "sinv s u c'"
proof -
  have same: "in_section (((procs c)(p := q)) r) = in_section (procs c r)" "set_up (((procs c)(p := q)) r) = set_up (procs c r)"
      "sem_id (((procs c)(p := q)) r) = sem_id (procs c r)" "arg (((procs c)(p := q)) r) = arg (procs c r)" for r
    using assms(4-7) by simp_all
  have "\<forall>n. pc (procs c s) \<noteq> Ended n" if "\<forall>n. pc (((procs c)(p := q)) s) \<noteq> Ended n"
    using that assms(8) by (cases "p = s") simp_all
  moreover have "\<forall>r. pc (((procs c)(p := q)) r) \<in> {At_setval, At_del} \<longrightarrow> r = s"
    using inv assms(10,11) by (simp add: sinv_def)
  moreover have "pc (procs c s) \<noteq> At_semget" if "pc (((procs c)(p := q)) s) \<noteq> At_semget"
    using that assms(9) by (cases "p = s") simp_all
  ultimately show ?thesis
    using inv unfolding sinv_def assms(2,3) same by blast
qed

lemma sinvD:
  assumes "sinv s u c"
  shows sinv_fresh: "next_id (sem_set c) \<le> n \<Longrightarrow> sems (sem_set c) n = None"
    and sinv_key: "key (sem_set c) = Some m \<Longrightarrow> m < next_id (sem_set c) \<and> sems (sem_set c) m \<noteq> None"
    and sinv_positive: "sems (sem_set c) n = Some (Suc v) \<Longrightarrow> u = Free \<and> n = sem_id (procs c s)"
    and sinv_free: "u = Free \<Longrightarrow> sems (sem_set c) (sem_id (procs c s)) = Some 1"
    and sinv_held: "in_section (procs c p) \<longleftrightarrow> u = Held p"
    and sinv_holder: "u = Held p \<Longrightarrow> sem_id (procs c p) = sem_id (procs c s)"
    and sinv_set_up: "u \<noteq> Absent \<Longrightarrow> set_up (procs c s)"
    and sinv_id: "pc (procs c s) \<noteq> At_semget \<Longrightarrow> sem_id (procs c s) < next_id (sem_set c)"
    and sinv_alive: "set_up (procs c s) \<Longrightarrow> \<forall>n. pc (procs c s) \<noteq> Ended n \<Longrightarrow> u \<noteq> Absent \<and> sems (sem_set c) (sem_id (procs c s)) \<noteq> None"
    and sinv_arg: "arg (procs c p) \<noteq> None \<longleftrightarrow> p = s"
    and sinv_starter: "pc (procs c p) \<in> {At_setval, At_del} \<Longrightarrow> p = s"
proof -
  note i = assms [unfolded sinv_def]
  show "next_id (sem_set c) \<le> n \<Longrightarrow> sems (sem_set c) n = None" using i by blast
  show "key (sem_set c) = Some m \<Longrightarrow> m < next_id (sem_set c) \<and> sems (sem_set c) m \<noteq> None" using i by blast
  show "sems (sem_set c) n = Some (Suc v) \<Longrightarrow> u = Free \<and> n = sem_id (procs c s)" using i by blast
  show "u = Free \<Longrightarrow> sems (sem_set c) (sem_id (procs c s)) = Some 1" using i by blast
  show "in_section (procs c p) \<longleftrightarrow> u = Held p" using i by blast
  show "u = Held p \<Longrightarrow> sem_id (procs c p) = sem_id (procs c s)" using i by blast
  show "u \<noteq> Absent \<Longrightarrow> set_up (procs c s)" using i by blast
  show "pc (procs c s) \<noteq> At_semget \<Longrightarrow> sem_id (procs c s) < next_id (sem_set c)" using i by blast
  show "set_up (procs c s) \<Longrightarrow> \<forall>n. pc (procs c s) \<noteq> Ended n \<Longrightarrow> u \<noteq> Absent \<and> sems (sem_set c) (sem_id (procs c s)) \<noteq> None" using i by blast
  show "arg (procs c p) \<noteq> None \<longleftrightarrow> p = s" using i by blast
  show "pc (procs c p) \<in> {At_setval, At_del} \<Longrightarrow> p = s" using i by blast
qed

text \<open>What any other step owes the invariant, over the state before it.\<close>

lemma sinv_update:
  assumes inv: "sinv s u c" and c': "sem_set c' = k" "procs c' = (procs c)(p := q)"
    and p: "p = s \<Longrightarrow> pc (procs c p) \<noteq> At_semget \<and> sem_id q = sem_id (procs c p)"
    and q: "pc q \<notin> {At_semget, At_setval, At_del}" "arg q = arg (procs c p)"
    and k: "\<And>n. next_id k \<le> n \<Longrightarrow> sems k n = None" "next_id (sem_set c) \<le> next_id k" "\<And>m. key k = Some m \<Longrightarrow> m < next_id k \<and> sems k m \<noteq> None"
    and u: "\<And>n v. sems k n = Some (Suc v) \<Longrightarrow> u' = Free \<and> n = sem_id (procs c s)" "u' = Free \<Longrightarrow> sems k (sem_id (procs c s)) = Some 1"
      "in_section q \<longleftrightarrow> u' = Held p" "\<And>r. r \<noteq> p \<Longrightarrow> u' = Held r \<longleftrightarrow> u = Held r" "u' = Held p \<Longrightarrow> sem_id q = sem_id (procs c s)"
      "u' \<noteq> Absent \<Longrightarrow> u \<noteq> Absent \<or> p = s"
      "set_up (((procs c)(p := q)) s) \<Longrightarrow> \<forall>n. pc (((procs c)(p := q)) s) \<noteq> Ended n \<Longrightarrow> u' \<noteq> Absent \<and> sems k (sem_id (procs c s)) \<noteq> None"
  shows "sinv s u' c'"
proof -
  have q': "set_up q" using q(1) by (simp add: set_up_def)
  have id: "sem_id (((procs c)(p := q)) s) = sem_id (procs c s)" using p by simp
  have arg: "arg (((procs c)(p := q)) r) = arg (procs c r)" for r using q(2) by simp
  have "\<forall>n\<ge>next_id k. sems k n = None" using k(1) by blast
  moreover have "\<forall>m. key k = Some m \<longrightarrow> m < next_id k \<and> sems k m \<noteq> None" using k(3) by blast
  moreover have "\<forall>n v. sems k n = Some (Suc v) \<longrightarrow> u' = Free \<and> n = sem_id (procs c s)" using u(1) by blast
  moreover have "u' = Free \<longrightarrow> sems k (sem_id (procs c s)) = Some 1" using u(2) by blast
  moreover have "\<forall>r. in_section (((procs c)(p := q)) r) \<longleftrightarrow> u' = Held r" using sinv_held [OF inv] u(3,4) by simp
  moreover have "\<forall>r. u' = Held r \<longrightarrow> sem_id (((procs c)(p := q)) r) = sem_id (procs c s)" using sinv_holder [OF inv] u(4,5) by (metis fun_upd_apply)
  moreover have "u' \<noteq> Absent \<longrightarrow> set_up (((procs c)(p := q)) s)" using sinv_set_up [OF inv] u(6) q' by auto
  moreover have "pc (((procs c)(p := q)) s) \<noteq> At_semget \<longrightarrow> sem_id (procs c s) < next_id k"
    using sinv_id [OF inv] k(2) p by (cases "p = s") auto
  moreover have "set_up (((procs c)(p := q)) s) \<and> (\<forall>n. pc (((procs c)(p := q)) s) \<noteq> Ended n) \<longrightarrow> u' \<noteq> Absent \<and> sems k (sem_id (procs c s)) \<noteq> None"
    using u(7) by blast
  moreover have "\<forall>r. pc (((procs c)(p := q)) r) \<in> {At_setval, At_del} \<longrightarrow> r = s" using sinv_starter [OF inv] q(1) by simp
  moreover have "\<forall>r. arg (procs c r) \<noteq> None \<longleftrightarrow> r = s" using sinv_arg [OF inv] by blast
  ultimately show ?thesis unfolding sinv_def c' id arg by (intro conjI)
qed

lemma sinv_semget:
  assumes inv: "sinv s u c" and p: "pc (procs c p) = At_semget" and g: "semget (sem_set c) = (m, k)"
    and c': "c' = c\<lparr>sem_set := k, procs := (procs c)(p := (procs c p)\<lparr>sem_id := m, pc := (if arg (procs c p) = None then At_test else At_setval)\<rparr>)\<rparr>"
  shows "sinv s u c'"
proof -
  note inv' = inv [unfolded sinv_def]
  have out: "\<not> in_section (procs c p)" "\<not> set_up (procs c p)" using p by (simp_all add: in_section_def set_up_def)
  show ?thesis
  proof (cases "p = s")
    case True
    then have u: "u = Absent" using inv' out by blast
    show ?thesis using inv' out g p True
      unfolding sinv_def c' u
      by (auto simp: semget_def in_section_def set_up_def split: option.splits if_splits)
  next
    case False
    then have a: "arg (procs c p) = None" using inv' by blast
    have new: "sems k = (sems (sem_set c))(m \<mapsto> 0) \<and> sems (sem_set c) m = None \<and> m = next_id (sem_set c) \<and> next_id k = Suc m \<and> key k = Some m \<or> k = sem_set c"
      using g sinv_fresh [OF inv, of "next_id (sem_set c)"] by (auto simp: semget_def split: option.splits)
    have s: "sem_id (procs c s) \<noteq> next_id (sem_set c)" if "u = Free" using sinv_fresh [OF inv] sinv_free [OF inv] that by force
    have h: "u \<noteq> Held p" using sinv_held [OF inv] out(1) by blast
    have d: "u \<noteq> Absent \<and> sems k (sem_id (procs c s)) \<noteq> None" if "set_up (procs c s)" "\<forall>n. pc (procs c s) \<noteq> Ended n"
      using new sinv_alive [OF inv that] by auto
    show ?thesis
    proof (rule sinv_update [OF inv, where u' = u and k = k and p = p and q = "(procs c p)\<lparr>sem_id := m, pc := At_test\<rparr>"])
      show "next_id k \<le> n \<Longrightarrow> sems k n = None" "next_id (sem_set c) \<le> next_id k" "key k = Some j \<Longrightarrow> j < next_id k \<and> sems k j \<noteq> None" for n j
        using new sinv_fresh [OF inv] sinv_key [OF inv] by auto
      show "sems k n = Some (Suc v) \<Longrightarrow> u = Free \<and> n = sem_id (procs c s)" for n v
        using new sinv_positive [OF inv] by (auto split: if_splits)
      show "u = Free \<Longrightarrow> sems k (sem_id (procs c s)) = Some 1" using new s sinv_free [OF inv] by auto
    qed (use False a h d in \<open>auto simp: c' in_section_def\<close>)
  qed
qed

lemma sinv_fail:
  assumes inv: "sinv s u c" and p: "pc (procs c p) \<in> {At_setval, At_p, At_v}"
    and none: "sems (sem_set c) (sem_id (procs c p)) = None" and c': "c' = c\<lparr>procs := (procs c)(p := (procs c p)\<lparr>pc := Ended 1\<rparr>)\<rparr>"
  shows "sinv s (if u = Held p then Absent else u) c'"
proof (rule sinv_update [OF inv, where k = "sem_set c" and p = p and q = "(procs c p)\<lparr>pc := Ended 1\<rparr>"])
  show "sems (sem_set c) (sem_id (procs c s)) = Some 1" if "(if u = Held p then Absent else u) = Free"
    using sinv_free [OF inv] that by (simp split: if_splits)
  show "sems (sem_set c) n = Some (Suc v) \<Longrightarrow> (if u = Held p then Absent else u) = Free \<and> n = sem_id (procs c s)" for n v
    using sinv_positive [OF inv, of n v] by auto
  show "(if u = Held p then Absent else u) \<noteq> Absent \<and> sems (sem_set c) (sem_id (procs c s)) \<noteq> None"
    if "set_up (((procs c)(p := (procs c p)\<lparr>pc := Ended 1\<rparr>)) s)" "\<forall>n. pc (((procs c)(p := (procs c p)\<lparr>pc := Ended 1\<rparr>)) s) \<noteq> Ended n"
  proof -
    have "p \<noteq> s" using that by auto
    then have *: "u \<noteq> Absent" "sems (sem_set c) (sem_id (procs c s)) \<noteq> None" using that sinv_alive [OF inv] by simp_all
    moreover have "u \<noteq> Held p" using sinv_holder [OF inv, of p] none *(2) by auto
    ultimately show ?thesis by simp
  qed
qed (use p sinv_fresh [OF inv] sinv_key [OF inv] in \<open>auto simp: c' in_section_def split: if_splits\<close>)

lemma sinv_setval:
  assumes inv: "sinv s u c" and p: "pc (procs c p) = At_setval" and g: "set_semvalue (sem_id (procs c p)) (sem_set c) = Some k"
    and c': "c' = c\<lparr>sem_set := k, procs := (procs c)(p := (procs c p)\<lparr>message := m, pc := At_test\<rparr>)\<rparr>"
  shows "sinv s Free c'"
proof -
  have s: "p = s" using sinv_starter [OF inv] p by simp
  have u: "u = Absent" using sinv_set_up [OF inv] p s by (auto simp: set_up_def)
  have k: "sems k = (sems (sem_set c))(sem_id (procs c s) \<mapsto> 1)" "next_id k = next_id (sem_set c)" "key k = key (sem_set c)"
    using g s by (auto simp: set_semvalue_def split: option.splits)
  have id: "sem_id (procs c s) < next_id (sem_set c)" using sinv_id [OF inv] p s by simp
  show ?thesis
  proof (rule sinv_update [OF inv, where k = k and p = p and q = "(procs c p)\<lparr>message := m, pc := At_test\<rparr>"])
    show "sems k n = Some (Suc v) \<Longrightarrow> Free = Free \<and> n = sem_id (procs c s)" for n v
      using sinv_positive [OF inv, of n v] k(1) u by (auto split: if_splits)
    show "next_id k \<le> n \<Longrightarrow> sems k n = None" for n using sinv_fresh [OF inv, of n] id k by simp
    show "key k = Some j \<Longrightarrow> j < next_id k \<and> sems k j \<noteq> None" for j using sinv_key [OF inv, of j] k by simp
  qed (use p s u k in \<open>auto simp: c' in_section_def\<close>)
qed

lemma sinv_take:
  assumes inv: "sinv s u c" and p: "pc (procs c p) = At_p" and g: "semaphore_p (sem_id (procs c p)) (sem_set c) = Does k"
    and c': "c' = c\<lparr>sem_set := k, procs := (procs c)(p := (procs c p)\<lparr>pc := At_first\<rparr>)\<rparr>"
  shows "u = Free \<and> sinv s (Held p) c'"
proof -
  obtain v where v: "sems (sem_set c) (sem_id (procs c p)) = Some (Suc v)" and k: "k = (sem_set c)\<lparr>sems := (sems (sem_set c))(sem_id (procs c p) \<mapsto> v)\<rparr>"
    using g by (auto simp: semaphore_p_def semop_def nat_diff_distrib' split: option.splits if_splits nat.splits dest!: gr0_implies_Suc)
  have u: "u = Free" "sem_id (procs c p) = sem_id (procs c s)" using sinv_positive [OF inv v] by auto
  then have "v = 0" using sinv_free [OF inv] v by simp
  then have k: "sems k = (sems (sem_set c))(sem_id (procs c s) \<mapsto> 0)" "next_id k = next_id (sem_set c)" "key k = key (sem_set c)"
    using k u by simp_all
  have "sinv s (Held p) c'"
  proof (rule sinv_update [OF inv, where k = k and p = p and q = "(procs c p)\<lparr>pc := At_first\<rparr>"])
    show "sems k n = Some (Suc j) \<Longrightarrow> Held p = Free \<and> n = sem_id (procs c s)" for n j
      using sinv_positive [OF inv, of n j] k(1) by (auto split: if_splits)
    show "next_id k \<le> n \<Longrightarrow> sems k n = None" for n using sinv_fresh [OF inv, of n] v u k by auto
    show "key k = Some j \<Longrightarrow> j < next_id k \<and> sems k j \<noteq> None" for j using sinv_key [OF inv, of j] k by simp
  qed (use p u k in \<open>auto simp: c' in_section_def\<close>)
  with u show ?thesis by blast
qed

lemma sinv_give:
  assumes inv: "sinv s u c" and p: "pc (procs c p) = At_v" and g: "semaphore_v (sem_id (procs c p)) (sem_set c) = Does k"
    and c': "c' = c\<lparr>sem_set := k, procs := (procs c)(p := (procs c p)\<lparr>loop_i := i, pc := At_test\<rparr>)\<rparr>"
  shows "sinv s Free c'"
proof -
  obtain v where v: "sems (sem_set c) (sem_id (procs c p)) = Some v" and k: "k = (sem_set c)\<lparr>sems := (sems (sem_set c))(sem_id (procs c p) \<mapsto> Suc v)\<rparr>"
    using g by (auto simp: semaphore_v_def semop_def nat_add_distrib split: option.splits if_splits)
  have u: "u = Held p" using sinv_held [OF inv, of p] p by (simp add: in_section_def)
  have id: "sem_id (procs c p) = sem_id (procs c s)" by (rule sinv_holder [OF inv u])
  have "v = 0" using sinv_positive [OF inv, of "sem_id (procs c p)" "v - 1"] v u by (cases v) auto
  then have k: "sems k = (sems (sem_set c))(sem_id (procs c s) \<mapsto> 1)" "next_id k = next_id (sem_set c)" "key k = key (sem_set c)"
    using k id by simp_all
  show ?thesis
  proof (rule sinv_update [OF inv, where k = k and p = p and q = "(procs c p)\<lparr>loop_i := i, pc := At_test\<rparr>"])
    show "sems k n = Some (Suc j) \<Longrightarrow> Free = Free \<and> n = sem_id (procs c s)" for n j
      using sinv_positive [OF inv, of n j] k(1) u by (auto split: if_splits)
    show "next_id k \<le> n \<Longrightarrow> sems k n = None" for n using sinv_fresh [OF inv, of n] v id k by auto
    show "key k = Some j \<Longrightarrow> j < next_id k \<and> sems k j \<noteq> None" for j using sinv_key [OF inv, of j] k by simp
  qed (use p u k in \<open>auto simp: c' in_section_def\<close>)
qed

lemma sinv_del:
  assumes inv: "sinv s u c" and p: "pc (procs c p) = At_del"
    and c': "c' = c\<lparr>sem_set := del_semvalue (sem_id (procs c p)) (sem_set c), procs := (procs c)(p := (procs c p)\<lparr>pc := Ended 0\<rparr>)\<rparr>"
  shows "sinv s (if u = Free then Absent else u) c'"
proof -
  have s: "p = s" using sinv_starter [OF inv] p by simp
  let ?k = "del_semvalue (sem_id (procs c p)) (sem_set c)"
  have k: "sems ?k = (sems (sem_set c))(sem_id (procs c s) := None)" "next_id ?k = next_id (sem_set c)"
      "key ?k = (if key (sem_set c) = Some (sem_id (procs c s)) then None else key (sem_set c))"
    using s by (simp_all add: del_semvalue_def)
  have h: "u \<noteq> Held p" using sinv_held [OF inv, of p] p by (auto simp: in_section_def)
  show ?thesis
  proof (rule sinv_update [OF inv, where k = ?k and p = p and q = "(procs c p)\<lparr>pc := Ended 0\<rparr>"])
    show "sems ?k n = Some (Suc v) \<Longrightarrow> (if u = Free then Absent else u) = Free \<and> n = sem_id (procs c s)" for n v
      using sinv_positive [OF inv, of n v] k(1) by (auto split: if_splits)
    show "next_id ?k \<le> n \<Longrightarrow> sems ?k n = None" for n using sinv_fresh [OF inv, of n] k by simp
    show "key ?k = Some j \<Longrightarrow> j < next_id ?k \<and> sems ?k j \<noteq> None" for j using sinv_key [OF inv, of j] k by (auto split: if_splits)
  qed (use p s k h in \<open>auto simp: c' in_section_def split: if_splits\<close>)
qed

section \<open>What is printed\<close>

definition messages :: "sem_output list \<Rightarrow> (nat \<times> char) list" where
  "messages xs = concat (map (\<lambda>x. case x of Message p m \<Rightarrow> [(p, m)] | Finished p \<Rightarrow> []) xs)"

definition doubled :: "'a list \<Rightarrow> 'a list" where
  "doubled xs = concat (map (\<lambda>x. [x, x]) xs)"

text \<open>The half of a pair that has been printed.\<close>

definition pending :: "unit_at \<Rightarrow> sem_conf \<Rightarrow> (nat \<times> char) list" where
  "pending u c = (case u of Held p \<Rightarrow> if pc (procs c p) = At_second then [(p, message (procs c p))] else [] | _ \<Rightarrow> [])"

definition paired :: "unit_at \<Rightarrow> sem_conf \<Rightarrow> bool" where
  "paired u c \<longleftrightarrow> (\<exists>ps. messages (printed_out c) = doubled ps @ pending u c)"

lemma paired_same: "paired u c \<Longrightarrow> printed_out c' = printed_out c \<Longrightarrow> pending u' c' = pending u c \<Longrightarrow> paired u' c'"
  by (simp add: paired_def)

lemma paired_first: "paired u c \<Longrightarrow> pending u c = [] \<Longrightarrow> printed_out c' = printed_out c @ [Message p m] \<Longrightarrow> pending u' c' = [(p, m)] \<Longrightarrow> paired u' c'"
  by (auto simp: paired_def messages_def)

lemma paired_second:
  assumes "paired u c" and "pending u c = [(p, m)]" and "printed_out c' = printed_out c @ [Message p m]" and "pending u' c' = []"
  shows "paired u' c'"
proof -
  obtain ps where "messages (printed_out c) = doubled ps @ [(p, m)]" using assms(1,2) by (auto simp: paired_def)
  then have "messages (printed_out c') = doubled (ps @ [(p, m)])" using assms(3) by (simp add: messages_def doubled_def)
  then show ?thesis using assms(4) by (auto simp: paired_def)
qed

lemma paired_finished: "paired u c \<Longrightarrow> printed_out c' = printed_out c @ [Finished p] \<Longrightarrow> pending u' c' = pending u c \<Longrightarrow> paired u' c'"
  by (simp add: paired_def messages_def)

lemma sem_main_keeps:
  assumes inv: "sinv s u c" and out: "paired u c" and step: "sem_main p c = Some c'"
  shows "\<exists>u'. sinv s u' c' \<and> paired u' c'"
proof (cases "pc (procs c p)")
  case At_semget
  obtain m k where g: "semget (sem_set c) = (m, k)" by fastforce
  have c': "c' = c\<lparr>sem_set := k, procs := (procs c)(p := (procs c p)\<lparr>sem_id := m, pc := (if arg (procs c p) = None then At_test else At_setval)\<rparr>)\<rparr>"
    using step At_semget g by (simp add: sem_main_def Let_def)
  have "u \<noteq> Held p" using sinv_held [OF inv, of p] At_semget by (auto simp: in_section_def)
  then have "paired u c'" by (intro paired_same [OF out]) (auto simp: c' pending_def split: unit_at.split)
  then show ?thesis using sinv_semget [OF inv At_semget g c'] by blast
next
  case At_setval
  have u: "u = Absent" using sinv_set_up [OF inv] sinv_starter [OF inv, of p] At_setval by (auto simp: set_up_def)
  show ?thesis
  proof (cases "set_semvalue (sem_id (procs c p)) (sem_set c)")
    case None
    then have none: "sems (sem_set c) (sem_id (procs c p)) = None" by (auto simp: set_semvalue_def split: option.splits)
    have c': "c' = c\<lparr>procs := (procs c)(p := (procs c p)\<lparr>pc := Ended 1\<rparr>)\<rparr>"
      using step At_setval None by (simp add: sem_main_def Let_def)
    have "paired Absent c'" by (intro paired_same [OF out]) (auto simp: c' pending_def u)
    then show ?thesis using sinv_fail [OF inv _ none c'] At_setval u by auto
  next
    case (Some k)
    have c': "c' = c\<lparr>sem_set := k, procs := (procs c)(p := (procs c p)\<lparr>message := argv_char (the (arg (procs c p))), pc := At_test\<rparr>)\<rparr>"
      using step At_setval Some by (simp add: sem_main_def Let_def)
    have "paired Free c'" by (intro paired_same [OF out]) (auto simp: c' pending_def u)
    then show ?thesis using sinv_setval [OF inv At_setval Some c'] by blast
  qed
next
  case At_test
  have c': "c' = c\<lparr>procs := (procs c)(p := (procs c p)\<lparr>pc := (if loop_i (procs c p) < 10 then At_p else At_finished)\<rparr>)\<rparr>"
    using step At_test by (simp add: sem_main_def Let_def)
  have "paired u c'" by (intro paired_same [OF out]) (auto simp: c' pending_def At_test split: unit_at.split)
  moreover have "sinv s u c'"
    by (rule sinv_move [OF inv, of _ p "(procs c p)\<lparr>pc := (if loop_i (procs c p) < 10 then At_p else At_finished)\<rparr>"])
      (simp_all add: c' At_test in_section_def set_up_def)
  ultimately show ?thesis by blast
next
  case At_p
  have h: "u \<noteq> Held p" using sinv_held [OF inv, of p] At_p by (auto simp: in_section_def)
  show ?thesis
  proof (cases "semaphore_p (sem_id (procs c p)) (sem_set c)")
    case Blocks
    then show ?thesis using step At_p by (simp add: sem_main_def Let_def)
  next
    case Fails
    then have none: "sems (sem_set c) (sem_id (procs c p)) = None" by (auto simp: semaphore_p_def semop_def split: option.splits if_splits)
    have c': "c' = c\<lparr>procs := (procs c)(p := (procs c p)\<lparr>pc := Ended 1\<rparr>)\<rparr>"
      using step At_p Fails by (simp add: sem_main_def Let_def)
    have "paired u c'" by (intro paired_same [OF out]) (auto simp: c' pending_def At_p split: unit_at.split)
    then show ?thesis using sinv_fail [OF inv _ none c'] At_p h by auto
  next
    case (Does k)
    have c': "c' = c\<lparr>sem_set := k, procs := (procs c)(p := (procs c p)\<lparr>pc := At_first\<rparr>)\<rparr>"
      using step At_p Does by (simp add: sem_main_def Let_def)
    have inv': "u = Free" "sinv s (Held p) c'" using sinv_take [OF inv At_p Does c'] by auto
    have "paired (Held p) c'" by (intro paired_same [OF out]) (auto simp: c' pending_def inv'(1))
    then show ?thesis using inv' by blast
  qed
next
  case At_first
  have u: "u = Held p" using sinv_held [OF inv, of p] At_first by (simp add: in_section_def)
  have c': "c' = c\<lparr>procs := (procs c)(p := (procs c p)\<lparr>pc := At_second\<rparr>), printed_out := printed_out c @ [Message p (message (procs c p))]\<rparr>"
    using step At_first by (simp add: sem_main_def Let_def)
  have "paired u c'" by (rule paired_first [OF out]) (simp_all add: c' pending_def At_first u)
  moreover have "sinv s u c'"
    by (rule sinv_move [OF inv, of _ p "(procs c p)\<lparr>pc := At_second\<rparr>"]) (simp_all add: c' At_first in_section_def set_up_def)
  ultimately show ?thesis by blast
next
  case At_second
  have u: "u = Held p" using sinv_held [OF inv, of p] At_second by (simp add: in_section_def)
  have c': "c' = c\<lparr>procs := (procs c)(p := (procs c p)\<lparr>pc := At_v\<rparr>), printed_out := printed_out c @ [Message p (message (procs c p))]\<rparr>"
    using step At_second by (simp add: sem_main_def Let_def)
  have "paired u c'" by (rule paired_second [OF out]) (simp_all add: c' pending_def At_second u)
  moreover have "sinv s u c'"
    by (rule sinv_move [OF inv, of _ p "(procs c p)\<lparr>pc := At_v\<rparr>"]) (simp_all add: c' At_second in_section_def set_up_def)
  ultimately show ?thesis by blast
next
  case At_v
  have u: "u = Held p" using sinv_held [OF inv, of p] At_v by (simp add: in_section_def)
  show ?thesis
  proof (cases "semaphore_v (sem_id (procs c p)) (sem_set c)")
    case Blocks
    then show ?thesis using step At_v by (simp add: sem_main_def Let_def)
  next
    case Fails
    then have none: "sems (sem_set c) (sem_id (procs c p)) = None" by (auto simp: semaphore_v_def semop_def split: option.splits if_splits)
    have c': "c' = c\<lparr>procs := (procs c)(p := (procs c p)\<lparr>pc := Ended 1\<rparr>)\<rparr>"
      using step At_v Fails by (simp add: sem_main_def Let_def)
    have "paired Absent c'" by (intro paired_same [OF out]) (auto simp: c' pending_def At_v u)
    then show ?thesis using sinv_fail [OF inv _ none c'] At_v u by auto
  next
    case (Does k)
    have c': "c' = c\<lparr>sem_set := k, procs := (procs c)(p := (procs c p)\<lparr>loop_i := loop_i (procs c p) + 1, pc := At_test\<rparr>)\<rparr>"
      using step At_v Does by (simp add: sem_main_def Let_def)
    have "paired Free c'" by (intro paired_same [OF out]) (auto simp: c' pending_def At_v u)
    then show ?thesis using sinv_give [OF inv At_v Does c'] by blast
  qed
next
  case At_finished
  have c': "c' = c\<lparr>procs := (procs c)(p := (procs c p)\<lparr>pc := (if arg (procs c p) = None then Ended 0 else At_del)\<rparr>), printed_out := printed_out c @ [Finished p]\<rparr>"
    using step At_finished by (simp add: sem_main_def Let_def)
  have "paired u c'" by (rule paired_finished [OF out]) (auto simp: c' pending_def At_finished split: unit_at.split)
  moreover have "sinv s u c'"
    by (rule sinv_move [OF inv, of _ p "(procs c p)\<lparr>pc := (if arg (procs c p) = None then Ended 0 else At_del)\<rparr>"])
      (use sinv_arg [OF inv, of p] in \<open>simp_all add: c' At_finished in_section_def set_up_def\<close>)
  ultimately show ?thesis by blast
next
  case At_del
  have c': "c' = c\<lparr>sem_set := del_semvalue (sem_id (procs c p)) (sem_set c), procs := (procs c)(p := (procs c p)\<lparr>pc := Ended 0\<rparr>)\<rparr>"
    using step At_del by (simp add: sem_main_def Let_def)
  have "paired (if u = Free then Absent else u) c'" by (intro paired_same [OF out]) (auto simp: c' pending_def At_del split: unit_at.split)
  then show ?thesis using sinv_del [OF inv At_del c'] by blast
next
  case (Ended n)
  then show ?thesis using step by (simp add: sem_main_def Let_def)
qed

lemma sem_reach_inv: "sem_reach args c \<Longrightarrow> \<forall>p. args p \<noteq> None \<longleftrightarrow> p = s \<Longrightarrow> \<exists>u. sinv s u c \<and> paired u c"
proof (induction rule: sem_reach.induct)
  case sem_start
  have "paired Absent \<lparr>sem_set = \<lparr>sems = (\<lambda>_. None), key = None, next_id = 0\<rparr>, procs = (\<lambda>p. new_proc (args p)), printed_out = []\<rparr>"
    by (auto simp: paired_def messages_def doubled_def pending_def intro: exI [of _ "[]"])
  then show ?case using sinv_start [OF sem_start] by blast
next
  case (sem_step c p c')
  then show ?case using sem_main_keeps by blast
qed

section \<open>Progress\<close>

text \<open>The calls a process still has to make, at most.\<close>

definition work :: "sem_proc \<Rightarrow> nat" where
  "work q = (let n = 6 * (10 - loop_i q) in case pc q of At_semget \<Rightarrow> 67 | At_setval \<Rightarrow> 66 | At_test \<Rightarrow> n + 5 | At_p \<Rightarrow> n + 4
     | At_first \<Rightarrow> n + 3 | At_second \<Rightarrow> n + 2 | At_v \<Rightarrow> n + 1 | At_finished \<Rightarrow> 4 | At_del \<Rightarrow> 3 | Ended _ \<Rightarrow> 0)"

definition looping :: "sem_proc \<Rightarrow> bool" where
  "looping q \<longleftrightarrow> (pc q \<in> {At_p, At_first, At_second, At_v} \<longrightarrow> loop_i q < 10) \<and> (pc q \<in> {At_semget, At_setval} \<longrightarrow> loop_i q = 0)"

lemma sem_main_one:
  assumes "sem_main p c = Some c'" and "looping (procs c p)"
  shows "(\<forall>r. r \<noteq> p \<longrightarrow> procs c' r = procs c r) \<and> looping (procs c' p) \<and> work (procs c' p) < work (procs c p)"
  using assms by (cases "pc (procs c p)")
    (auto simp: sem_main_def Let_def looping_def work_def split: prod.splits option.splits semop_result.splits if_splits)

lemma sem_reach_looping: "sem_reach args c \<Longrightarrow> looping (procs c p)"
proof (induction arbitrary: p rule: sem_reach.induct)
  case sem_start
  then show ?case by (simp add: looping_def new_proc_def)
next
  case (sem_step c q c')
  then show ?case using sem_main_one [OF sem_step(2,3)] by (cases "p = q") auto
qed

lemma semaphore_v_does: "semaphore_v n k \<noteq> Blocks"
  by (auto simp: semaphore_v_def semop_def split: option.splits)

lemma in_section_moves: "in_section (procs c p) \<Longrightarrow> \<exists>c'. sem_main p c = Some c'"
  using semaphore_v_does [of "sem_id (procs c p)" "sem_set c"]
  by (auto simp: in_section_def sem_main_def Let_def split: semop_result.splits)

lemma starter_moves:
  assumes inv: "sinv s u c" and run: "\<forall>n. pc (procs c s) \<noteq> Ended n"
  shows "\<exists>p c'. sem_main p c = Some c'"
proof (cases "pc (procs c s) = At_p")
  case True
  then have a: "u \<noteq> Absent" "sems (sem_set c) (sem_id (procs c s)) \<noteq> None"
    using sinv_alive [OF inv _ run] by (auto simp: set_up_def)
  show ?thesis
  proof (cases u)
    case Free
    then show ?thesis
      using sinv_free [OF inv Free] True by (intro exI [of _ s]) (simp add: sem_main_def Let_def semaphore_p_def semop_def)
  next
    case (Held p)
    then show ?thesis using in_section_moves sinv_held [OF inv, of p] by blast
  qed (use a in simp)
next
  case False
  then show ?thesis
    using run semaphore_v_does [of "sem_id (procs c s)" "sem_set c"]
    by (intro exI [of _ s]) (cases "pc (procs c s)"; auto simp: sem_main_def Let_def split: prod.split option.split semop_result.splits)
qed

section \<open>Properties\<close>

text \<open>
  C19: The semaphore keeps the sections apart: however many processes run, with one of them started
  with an argument, and however the scheduler interleaves their calls, no two are ever between
  \<open>semaphore_p\<close> and \<open>semaphore_v\<close>, also when the semaphore is removed under them, and the characters
  printed come in pairs of one process, the last possibly half printed.
\<close>

theorem sem_sections_exclude:
  assumes "\<forall>p. args p \<noteq> None \<longleftrightarrow> p = s" and "sem_reach args c"
  shows "(\<forall>p q. in_section (procs c p) \<and> in_section (procs c q) \<longrightarrow> p = q) \<and>
     (\<exists>ps half. messages (printed_out c) = doubled ps @ half \<and>
       (half \<noteq> [] \<longrightarrow> (\<exists>p. pc (procs c p) = At_second \<and> half = [(p, message (procs c p))])))"
proof -
  obtain u where inv: "sinv s u c" and out: "paired u c" using sem_reach_inv [OF assms(2,1)] by blast
  have "\<exists>p. pc (procs c p) = At_second \<and> pending u c = [(p, message (procs c p))]" if "pending u c \<noteq> []"
    using that by (auto simp: pending_def split: unit_at.splits if_splits)
  moreover have "p = q" if "in_section (procs c p)" "in_section (procs c q)" for p q
    using sinv_held [OF inv] that by auto
  ultimately show ?thesis using out by (auto simp: paired_def)
qed

text \<open>Two processes: 0 is started with an argument and is printing, 1 waits.\<close>

definition sem_run :: "nat list \<Rightarrow> sem_conf \<Rightarrow> sem_conf" where
  "sem_run ps c = fold (\<lambda>p c. case sem_main p c of None \<Rightarrow> c | Some c' \<Rightarrow> c') ps c"

lemma sem_run_reach: "sem_reach args c \<Longrightarrow> sem_reach args (sem_run ps c)"
  by (induction ps arbitrary: c) (auto simp: sem_run_def intro: sem_step split: option.split)

definition ex_args :: "nat \<Rightarrow> string option" where
  "ex_args p = (if p = 0 then Some ''O'' else None)"

abbreviation ex_start :: sem_conf where
  "ex_start \<equiv> \<lparr>sem_set = \<lparr>sems = (\<lambda>_. None), key = None, next_id = 0\<rparr>, procs = (\<lambda>p. new_proc (ex_args p)), printed_out = []\<rparr>"

theorem sem_sections_exclude_witness:
  "(let c = sem_run [0, 1, 0, 1, 0, 0, 1, 0, 1, 0, 0, 1, 1] ex_start in
     messages (printed_out c) = [(0, CHR ''O''), (0, CHR ''O''), (1, CHR ''X'')] \<and>
     (\<forall>p q. in_section (procs c p) \<and> in_section (procs c q) \<longrightarrow> p = q))"
proof -
  let ?c = "sem_run [0, 1, 0, 1, 0, 0, 1, 0, 1, 0, 0, 1, 1] ex_start"
  have "\<forall>p. ex_args p \<noteq> None \<longleftrightarrow> p = 0" by (simp add: ex_args_def)
  from sem_sections_exclude [OF this sem_run_reach [OF sem_start]]
  have "\<forall>p q. in_section (procs ?c p) \<and> in_section (procs ?c q) \<longrightarrow> p = q" by blast
  moreover have "messages (printed_out ?c) = [(0, CHR ''O''), (0, CHR ''O''), (1, CHR ''X'')]" by code_simp
  ultimately show ?thesis by (simp only: Let_def simp_thms)
qed

text \<open>
  C20: The test does not deadlock and does not run for ever: as long as the process started with an
  argument has not ended, some process can make its next call, and every call brings the process
  that makes it nearer its end, by a measure that starts at 67 and that no other process changes.
\<close>

theorem sem_progress:
  assumes "\<forall>p. args p \<noteq> None \<longleftrightarrow> p = s" and "sem_reach args c" and "\<forall>n. pc (procs c s) \<noteq> Ended n"
  shows "(\<exists>p c'. sem_main p c = Some c') \<and> (\<forall>p c'. sem_main p c = Some c' \<longrightarrow>
     work (procs c' p) < work (procs c p) \<and> (\<forall>r. r \<noteq> p \<longrightarrow> procs c' r = procs c r)) \<and> (\<forall>p. work (procs c p) \<le> 67)"
proof -
  obtain u where "sinv s u c" using sem_reach_inv [OF assms(2,1)] by blast
  moreover have "work (procs c p) \<le> 67" for p
    by (cases "pc (procs c p)") (auto simp: work_def Let_def)
  ultimately show ?thesis
    using starter_moves assms(3) sem_main_one sem_reach_looping [OF assms(2)] by blast
qed

theorem sem_progress_witness:
  "\<exists>p c'. sem_main p (sem_run [0, 1, 0, 1, 0, 0, 1, 0] ex_start) = Some c'"
proof -
  have "\<forall>p. ex_args p \<noteq> None \<longleftrightarrow> p = 0" by (simp add: ex_args_def)
  moreover have "\<forall>n. pc (procs (sem_run [0, 1, 0, 1, 0, 0, 1, 0] ex_start) 0) \<noteq> Ended n"
  proof -
    have "pc (procs (sem_run [0, 1, 0, 1, 0, 0, 1, 0] ex_start) 0) = At_second" by code_simp
    then show ?thesis by simp
  qed
  ultimately show ?thesis
    using sem_progress [OF _ sem_run_reach [OF sem_start]] by blast
qed

text \<open>
  A process that comes late waits for ever: once the set it was meant to use is gone, \<open>semget\<close> makes a
  new one, of value 0, which nobody sets, and every decrement of it blocks.
\<close>

lemma late_comer_waits:
  assumes "\<forall>p. args p \<noteq> None \<longleftrightarrow> p = s" and "sem_reach args c" and "sem_id (procs c p) \<noteq> sem_id (procs c s)"
    and "sems (sem_set c) (sem_id (procs c p)) \<noteq> None" and "pc (procs c p) = At_p"
  shows "sem_main p c = None"
proof -
  obtain u where inv: "sinv s u c" using sem_reach_inv [OF assms(2,1)] by blast
  obtain v where v: "sems (sem_set c) (sem_id (procs c p)) = Some v" using assms(4) by auto
  then have "v = 0" using sinv_positive [OF inv, of "sem_id (procs c p)" "v - 1"] assms(3) by (cases v) auto
  then show ?thesis using v assms(5) by (simp add: sem_main_def Let_def semaphore_p_def semop_def)
qed

end
