(* ===== verification/Spec2Isabelle.thy ===== *)
theory Spec2Isabelle
  imports Lifecycle DmFleet PoolProgress DmSupervise DmMain DmSslServer WebProps WebParse WebCommand MinHeap RbDelete SemTest
begin

text \<open>
  A verification library for Dmf-Server: an epoll-driven HTTP/HTTPS server and reverse proxy with a
  master and worker processes (\<open>moudles/server\<close>), and the forking benchmark client WebBench it is
  measured with (\<open>webbench\<close>). File names below are relative to \<open>src/\<close>.

  \<^bold>\<open>The program.\<close> \<open>main\<close> (\<open>main.c\<close>) opens five listening sockets (\<open>dm_socket.c\<close>), attaches
  and resets the shared counters (\<open>dm_shm.c\<close>) and starts the master (\<open>dm_master.c\<close>), which forks 56
  workers, binds each to a processor (\<open>dm_bind_cpu.c\<close>) and replaces those that end. A worker runs the
  event loop \<open>server_make\<close> (\<open>dm_server.c\<close>): it registers the listeners with epoll, then waits,
  dispatches every event by the connection object it carries to the handlers of \<open>dm_events.c\<close>, and
  runs the due timers (\<open>dm_timer.c\<close>). Objects live from \<open>accept\<close> to \<open>handle_close\<close>. Beside it stand a thread
  pool (\<open>dm_threading_pool.c\<close>) and a stand-alone TLS server (\<open>epoll_ssl_server\<close>).

  \<^bold>\<open>How C is modelled\<close> (\<open>Prelude\<close>). A statement is a function from a record of the state to an
  optional pair: \<open>None\<close> is a run that does not return, \<open>Fault\<close> undefined behaviour (NULL or dangling
  pointers, double free, an index outside an array, an unset variable), \<open>Exit\<close> a call of \<open>exit\<close>. Pointers
  are \<open>addr option\<close> into stores of objects; \<open>int\<close> counters and event masks are 32-bit words. Loops are
  \<open>partial_function\<close>s, so that no fuel is needed and not returning is a value; \<open>wp\<close> is total
  correctness: returned, without fault or exit. \<open>junk\<close> arguments are what \<open>malloc\<close> left in memory.

  \<^bold>\<open>The kernel.\<close> System calls, OpenSSL, the allocator, \<open>stdio\<close> and the name service are not code of
  the repository. They are a parameter \<open>os\<close>, a function from a call and the kernel's state to an answer and
  a new state (\<open>Kernel\<close>); every process logs its calls. What is assumed of it is stated by predicates
  and used as hypotheses only where needed:
  \<^item> \<open>kernel_ok\<close>: new descriptors are fresh, \<open>close\<close> removes registrations, \<open>epoll_wait\<close> reports at most one
    event per registered descriptor with its registered data, \<open>read\<close> delivers no more than asked, and
    \<open>accept\<close> uses up a finite backlog (connections that arrive during a loop belong to the next one);
  \<^item> \<open>tls_idle\<close> (\<open>WorkerInv\<close>): \<open>epoll_wait\<close> reports nothing of the TLS listeners, as is the case while no client
    connects to them; \<open>deaf\<close> (\<open>WorkerProps\<close>) is such a kernel for the table of \<open>main\<close>;
  \<^item> \<open>memory_ok\<close>: \<open>malloc\<close> does not fail (the source does not test it);
  \<^item> \<open>procs_ok\<close> (\<open>DmSupervise\<close>): \<open>fork\<close> does not fail and answers a fresh child, \<open>waitpid\<close> knows children and the ended ones;
  \<^item> \<open>alarm_ok\<close> (\<open>WebProps\<close>): the alarm arrives after finitely many points at which the program looks for it;
    the pipe delivers the lines written to it.
  Small concrete kernels (\<open>sim_os\<close>, \<open>proc_os\<close>, \<open>fork_os\<close> and those of \<open>WebProps\<close>) satisfy them; the
  closed theorems run on these.

  \<^bold>\<open>Theories and the code they model.\<close>
  \<^item> \<open>DmTimer\<close>: \<open>dm_timer.c\<close>. The pointer list is refined to a list of timers; every operation is
    equal to a list function, returns on acyclic lists, and is described on all branches. The locale
    \<open>timer_service\<close> is the contract that connection handlers use.
  \<^item> \<open>Service\<close>: endless loops and event loops as locales (\<open>service_loop\<close>, \<open>batch_service\<close>, \<open>event_service\<close>),
    interpreted by the worker (\<open>wk\<close>) and by the master's checking passes (\<open>sv\<close>).
  \<^item> \<open>DmShm\<close>, \<open>DmSocket\<close>, \<open>ServerConfig\<close>: \<open>dm_shm.c\<close>, \<open>dm_socket.c\<close>, \<open>dm_server_config.h\<close> (\<open>req_t\<close>, \<open>lis_inf_t\<close>,
    and the state \<open>worker\<close> of one process).
  \<^item> \<open>DmEvents\<close>: every handler of \<open>dm_events.c\<close>. \<open>DmServer\<close>: \<open>server_make\<close>, \<open>start_server\<close> and the banner of
    \<open>dm_server.c\<close>. \<open>DmSslServer\<close>: the rest of that file; its linked map from descriptors to TLS objects
    refines a table (locale \<open>client_table\<close>).
  \<^item> \<open>WorkerCalm\<close>, \<open>WorkerInv\<close>, \<open>WorkerProps\<close>, \<open>EventProps\<close>: the invariant \<open>winv\<close> of a worker - every registration
    carries a live object, no two share one, the timer list is well formed, and the accept and close counters
    account for the objects - its preservation by every handler and turn, and what single handlers deliver.
    \<open>Lifecycle\<close> follows one connection through its request and its response, call by call, and a proxied one through
    the back end and back. \<open>DmFleet\<close> interleaves any
    number of workers, event by event, over the counters they share, with the kernel changing in between.
    The TLS handlers break the invariant, as the properties about them show: a listener table may hold TLS listeners,
    as that of \<open>main\<close> does, but what is shown of turns, workers and the fleet holds as long as no client connects
    to a TLS port (\<open>tls_idle\<close>), and of single events for those that are not a TLS listener's.
  \<^item> \<open>DmThreadingPool\<close>, \<open>PoolSteps\<close>, \<open>PoolProgress\<close>: \<open>dm_threading_pool.c\<close>. The linked queues refine lists (locale \<open>fifo_bank\<close>);
    a step relation interleaves a worker with any number of producers at the mutex operations:
    nothing is lost or out of order, at most one thread is in a critical section, and the steps of the worker, spurious wake-ups excepted, and of the
    owner of the mutex suffice for every task to be taken.
  \<^item> \<open>DmBindCpu\<close>, \<open>DmMaster\<close>, \<open>DmSupervise\<close>, \<open>DmMain\<close>: \<open>dm_bind_cpu.c\<close>, \<open>dm_master.c\<close>, \<open>main.c\<close>: start-up, supervision,
    shutdown. \<open>fork\<close> is followed in the process in which it returns.
  \<^item> \<open>MinHeap\<close>: \<open>moudles/test/timer/timer.c\<close>, the timer queue that was the alternative to the list: an array of pointers
    in heap order, described as a multiset of timers; popping and pushing move a hole through the array.
  \<^item> \<open>RbTree\<close>, \<open>RbInsert\<close>, \<open>RbDelete\<close>: \<open>moudles/test/rbtree.c\<close>, a red-black tree with parent pointers. The pointers refine a tree (\<open>holds_tree\<close>);
    the place a loop stands at is a subtree and its context, so that rotating and painting are local. Insertion is
    right, and with search implements a bag of keys (locale \<open>key_bag\<close>); \<open>removable\<close> says which deletions are right.
  \<^item> \<open>CStrings\<close>, \<open>WebBench\<close>: the string functions and all of \<open>webbench.c\<close> and \<open>socket.c\<close>. \<open>WebRequest\<close>, \<open>WebUrl\<close>: the request
    buffer holds a reference text whenever host and port fit, and URLs round-trip. \<open>WebParse\<close>: a parser of requests
    takes the buffer apart again. \<open>WebCommand\<close>: whatever way the options are spelled and ordered, \<open>main\<close> starts the
    benchmark they ask for. \<open>WebProps\<close>: accounting of the measuring loop, the totals of the parent.
  \<^item> \<open>SemTest\<close>: \<open>moudles/test/sem_test.c\<close>, processes that share a System V semaphore, interleaved call by call: the one unit
    of the semaphore is in the set or with one process (\<open>sinv\<close>), so the sections exclude each other. \<open>semget\<close> is taken to succeed.

  \<^bold>\<open>Reading the properties.\<close> The first half is what keeps the program standing: as long as its TLS ports are idle the worker serves for ever, requests
  are answered, workers share their counters, queues lose nothing and never get stuck, requests are built
  in their buffers as the command line asks, connections and processes are accounted for. The later ones describe single operations, and where the code departs from what it means to do.

  \<^bold>\<open>Bounds.\<close> The only numeric bounds are the program's: 1024, 4096 and 512 byte buffers, 64 bytes of host name and
  2048 of request, 56 workers, 101 TLS attempts, 1024 timers in the heap. No bound is put on the number of connections, events, turns,
  timers, nodes or tasks.

  \<^bold>\<open>Not modelled.\<close> The text of most diagnostics is shortened, and their arguments are left out. The two rates that
  WebBench prints are floating-point; only the integers they are computed from are modelled. Signals are taken
  where the program can observe them (the loop tests of WebBench; between the passes of the master or at a
  call). Stack layout of the epoll array, scheduling priorities and real time are left out. \<open>lib/\<close> (a Go library
  of request parsing that the server does not link, and its generated header \<open>librr.h\<close>) and the rest of
  \<open>moudles/test\<close> (experiments and earlier versions) are outside the development.
\<close>

end
